(* ===== verification/Prelude.thy ===== *)
theory Prelude
  imports Main "HOL-Library.Word"
begin

text \<open>
  Shared vocabulary of the development: the machine types of the Rust sources, the
  integer operations of its standard library that the components use (saturating
  arithmetic, little-endian byte conversion, bit counting), \<open>Iterator::position\<close>, the
  errors that stand for a Rust panic, and the generic lemmas on them.  Arithmetic written
  with \<open>+\<close>, \<open>-\<close>, \<open>*\<close> on words wraps around, as it does in the release profile the
  workspace builds its servers with (no overflow checks).
\<close>

unbundle bit_operations_syntax

type_synonym u8 = "8 word"
type_synonym u16 = "16 word"
type_synonym u32 = "32 word"
type_synonym u64 = "64 word"
type_synonym bytes = "8 word list"
type_synonym instant = nat

datatype panic = IndexPanic | UnwrapPanic | AddOverflowPanic | RemZeroPanic | RangePanic

text \<open>An \<open>Instant\<close> and a \<open>Duration\<close> count nanoseconds.\<close>

definition from_millis :: "u64 \<Rightarrow> nat" where
  "from_millis ms = unat ms * 1000000"

named_theorems velocity_wf \<open>well-formedness of the components' states, and its preservation\<close>
named_theorems velocity_abs \<open>how operations act on the abstraction of a component's state\<close>

lemma unat_less_exp: "unat (w :: 'a::len word) < 2 ^ LENGTH('a)"
  by (rule unsigned_less)

section \<open>Saturating arithmetic\<close>

definition saturating_add :: "'a::len word \<Rightarrow> 'a word \<Rightarrow> 'a word" where
  "saturating_add a b = (if unat a + unat b < 2 ^ LENGTH('a) then a + b else - 1)"

definition saturating_sub :: "'a::len word \<Rightarrow> 'a word \<Rightarrow> 'a word" where
  "saturating_sub a b = (if a < b then 0 else a - b)"

lemma unat_saturating_add:
  "unat (saturating_add a (b :: 'a::len word)) = min (unat a + unat b) (2 ^ LENGTH('a) - 1)"
proof -
  have "unat (- 1 :: 'a word) = 2 ^ LENGTH('a) - 1"
    by (metis mask_eq_exp_minus_1 unsigned_minus_1_eq_mask)
  then show ?thesis
    by (auto simp: saturating_add_def unat_word_ariths min_def)
qed

lemma unat_saturating_sub: "unat (saturating_sub a b) = unat a - unat b"
  by (auto simp: saturating_sub_def unat_sub_if' word_less_nat_alt word_le_nat_alt)

lemma saturating_add_ge: "a \<le> saturating_add a (b :: 'a::len word)"
proof -
  have "unat a < 2 ^ LENGTH('a)"
    by (rule unsigned_less)
  then have "unat a \<le> 2 ^ LENGTH('a) - 1"
    by linarith
  then show ?thesis
    by (simp add: word_le_nat_alt unat_saturating_add)
qed

lemma saturating_sub_le: "saturating_sub a b \<le> a"
  by (auto simp: word_le_nat_alt unat_saturating_sub)

section \<open>Little-endian bytes\<close>

definition to_le_bytes :: "'a::len word \<Rightarrow> bytes" where
  "to_le_bytes w = map (\<lambda>i. ucast (drop_bit (8 * i) w)) [0..<LENGTH('a) div 8]"

fun from_le_bytes :: "bytes \<Rightarrow> 'a::len word" where
  "from_le_bytes [] = 0"
| "from_le_bytes (b # bs) = ucast b OR push_bit 8 (from_le_bytes bs)"

lemma length_to_le_bytes [simp]: "length (to_le_bytes (w :: 'a::len word)) = LENGTH('a) div 8"
  by (simp add: to_le_bytes_def)

lemma bit_from_le_bytes:
  "bit (from_le_bytes bs :: 'a::len word) n \<longleftrightarrow>
     n < LENGTH('a) \<and> n div 8 < length bs \<and> bit (bs ! (n div 8)) (n mod 8)"
proof (induction bs arbitrary: n)
  case Nil
  then show ?case by simp
next
  case (Cons b bs)
  show ?case
  proof (cases "n < 8")
    case True
    then show ?thesis by (auto simp: bit_simps)
  next
    case False
    then have "n div 8 = Suc ((n - 8) div 8)" and "(n - 8) mod 8 = n mod 8"
      by (simp_all add: le_div_geq le_mod_geq)
    moreover have "\<not> bit b n"
      using False bit_imp_le_length [of b n] by auto
    ultimately show ?thesis
      using False by (auto simp: bit_simps Cons.IH)
  qed
qed

lemma bit_nth_to_le_bytes:
  assumes "i < LENGTH('a) div 8" and "j < 8"
  shows "bit (to_le_bytes (w :: 'a::len word) ! i) j \<longleftrightarrow> bit w (8 * i + j)"
proof -
  have "8 * i + j < LENGTH('a)"
    using assms by linarith
  then show ?thesis
    using assms by (simp add: to_le_bytes_def bit_simps)
qed

lemma from_to_le_bytes:
  assumes "8 dvd LENGTH('a)"
  shows "from_le_bytes (to_le_bytes w) = (w :: 'a::len word)"
proof (rule bit_word_eqI)
  fix n
  assume n: "n < LENGTH('a)"
  with assms have "n div 8 < LENGTH('a) div 8"
    by (auto elim!: dvdE)
  then show "bit (from_le_bytes (to_le_bytes w) :: 'a word) n \<longleftrightarrow> bit w n"
    using n by (simp add: bit_from_le_bytes bit_nth_to_le_bytes)
qed

lemma to_from_le_bytes:
  assumes "8 * length bs = LENGTH('a)"
  shows "to_le_bytes (from_le_bytes bs :: 'a::len word) = bs"
proof (rule nth_equalityI)
  show "length (to_le_bytes (from_le_bytes bs :: 'a word)) = length bs"
    using assms by simp
next
  fix i
  assume "i < length (to_le_bytes (from_le_bytes bs :: 'a word))"
  then have i: "i < length bs" and i': "i < LENGTH('a) div 8"
    using assms by auto
  show "to_le_bytes (from_le_bytes bs :: 'a word) ! i = bs ! i"
  proof (rule bit_word_eqI)
    fix j
    assume j: "j < LENGTH(8)"
    then have "8 * i + j < LENGTH('a)" and "(8 * i + j) div 8 = i" and "(8 * i + j) mod 8 = j"
      using i assms by auto
    then show "bit (to_le_bytes (from_le_bytes bs :: 'a word) ! i) j \<longleftrightarrow> bit (bs ! i) j"
      using i i' j by (simp add: bit_nth_to_le_bytes bit_from_le_bytes)
  qed
qed

lemma to_le_bytes_eq_iff:
  "8 dvd LENGTH('a) \<Longrightarrow> to_le_bytes v = to_le_bytes (w :: 'a::len word) \<longleftrightarrow> v = w"
  by (metis from_to_le_bytes)

lemmas le_bytes_roundtrip [simp] =
  from_to_le_bytes [where 'a = 16, simplified]
  from_to_le_bytes [where 'a = 32, simplified]
  from_to_le_bytes [where 'a = 64, simplified]

lemmas le_bytes_eq [simp] =
  to_le_bytes_eq_iff [where 'a = 16, simplified]
  to_le_bytes_eq_iff [where 'a = 32, simplified]
  to_le_bytes_eq_iff [where 'a = 64, simplified]

section \<open>Xor\<close>

lemma xor_cancel_right [simp]: "a XOR c = b XOR c \<longleftrightarrow> a = b" for a b c :: "'a::len word"
proof
  assume "a XOR c = b XOR c"
  then have "(a XOR c) XOR c = (b XOR c) XOR c" by (rule arg_cong)
  then show "a = b" by (simp add: xor.assoc)
qed simp

lemma xor_cancel_left [simp]: "c XOR a = c XOR b \<longleftrightarrow> a = b" for a b c :: "'a::len word"
  by (metis xor.commute xor_cancel_right)

lemma xor_eq_0 [simp]: "a XOR b = 0 \<longleftrightarrow> a = b" for a b :: "'a::len word"
  using xor_cancel_right [of a b b] by simp

lemma xor_eq_ones: "a XOR b = - 1 \<longleftrightarrow> NOT a = b" for a b :: "'a::len word"
proof -
  have "a XOR NOT a = - 1" by (rule bit_word_eqI) (simp add: bit_simps)
  then show ?thesis using xor_cancel_left [of a b "NOT a"] by (simp del: xor_cancel_left) metis
qed

section \<open>Counting bits\<close>

definition count_ones :: "'a::len word \<Rightarrow> u32" where
  "count_ones w = word_of_nat (length (filter (bit w) [0..<LENGTH('a)]))"

lemma length_filter_upt_card: "length (filter P [0..<n]) = card {i. i < n \<and> P i}"
proof -
  have "length (filter P [0..<n]) = card (set (filter P [0..<n]))"
    by (rule distinct_card [symmetric]) simp
  also have "set (filter P [0..<n]) = {i. i < n \<and> P i}"
    by auto
  finally show ?thesis .
qed

lemma count_ones_u64: "unat (count_ones (w :: u64)) = card {i. i < 64 \<and> bit w i}"
proof -
  have "card {i. i < 64 \<and> bit w i} \<le> 64"
    using card_mono [of "{..<64::nat}" "{i. i < 64 \<and> bit w i}"] by auto
  then show ?thesis
    by (simp add: count_ones_def length_filter_upt_card unat_of_nat)
qed

section \<open>Searching a list\<close>

fun position :: "('a \<Rightarrow> bool) \<Rightarrow> 'a list \<Rightarrow> nat option" where
  "position P [] = None"
| "position P (x # xs) = (if P x then Some 0 else map_option Suc (position P xs))"

lemma position_None [simp]: "position P xs = None \<longleftrightarrow> (\<forall>x\<in>set xs. \<not> P x)"
  by (induction xs) auto

lemma position_Some:
  "position P xs = Some i \<longleftrightarrow> i < length xs \<and> P (xs ! i) \<and> (\<forall>j<i. \<not> P (xs ! j))"
proof (induction xs arbitrary: i)
  case Nil
  then show ?case by simp
next
  case (Cons x xs)
  show ?case
    by (cases i) (auto simp: Cons.IH less_Suc_eq_0_disj)
qed

lemma position_SomeD:
  assumes "position P xs = Some i"
  shows "i < length xs" and "P (xs ! i)" and "xs ! i \<in> set xs"
  using assms by (auto simp: position_Some)

lemma position_split:
  assumes "position P xs = Some i"
  obtains as x bs where "xs = as @ x # bs" "i = length as" "P x" "\<forall>a\<in>set as. \<not> P a"
proof -
  from assms have i: "i < length xs" "P (xs ! i)" "\<forall>j<i. \<not> P (xs ! j)"
    by (auto simp: position_Some)
  show ?thesis
    by (rule that [of "take i xs" "xs ! i" "drop (Suc i) xs"])
       (use i in \<open>auto simp: id_take_nth_drop [symmetric] in_set_conv_nth\<close>)
qed

lemma position_cong: "(\<And>x. x \<in> set xs \<Longrightarrow> P x = Q x) \<Longrightarrow> position P xs = position Q xs"
  by (induction xs) auto

lemma ex_set_nth: "(\<exists>x\<in>set xs. P x) \<longleftrightarrow> (\<exists>i<length xs. P (xs ! i))"
  by (metis in_set_conv_nth)

lemma position_ex: "\<exists>x\<in>set xs. P x \<Longrightarrow> \<exists>i. position P xs = Some i"
  by (cases "position P xs") auto

lemma distinct_remdups_adj_sorted: "sorted xs \<Longrightarrow> distinct (remdups_adj xs)"
  by (induction xs rule: remdups_adj.induct) auto

end
