(* ===== verification/Bitmask.thy ===== *)
theory Bitmask
  imports Prelude
begin

text \<open>
  \<open>velocity-workflow-core/src/bitmask.rs\<close>: the 256-bit vector of completed steps.  The
  interface \<open>step_flags\<close> states what the slab relies on (a set of step indices below a
  capacity); the bit vector is shown to implement it.
\<close>

record bitmask256 =
  bits :: "u64 list"

definition Bitmask256_new :: bitmask256 where
  "Bitmask256_new = \<lparr>bits = replicate 4 0\<rparr>"

definition set_step :: "bitmask256 \<Rightarrow> nat \<Rightarrow> bitmask256 \<times> bool" where
  "set_step m step_index =
     (if step_index \<ge> 256 then (m, False)
      else let wd = step_index div 64; b = step_index mod 64
           in (m\<lparr>bits := (bits m)[wd := (bits m ! wd) OR push_bit b 1]\<rparr>, True))"

definition is_step_set :: "bitmask256 \<Rightarrow> nat \<Rightarrow> bool" where
  "is_step_set m step_index =
     (if step_index \<ge> 256 then False
      else let wd = step_index div 64; b = step_index mod 64
           in (bits m ! wd) AND push_bit b 1 \<noteq> 0)"

definition clear_step :: "bitmask256 \<Rightarrow> nat \<Rightarrow> bitmask256 \<times> bool" where
  "clear_step m step_index =
     (if step_index \<ge> 256 then (m, False)
      else let wd = step_index div 64; b = step_index mod 64
           in (m\<lparr>bits := (bits m)[wd := (bits m ! wd) AND NOT (push_bit b 1)]\<rparr>, True))"

definition count_completed :: "bitmask256 \<Rightarrow> u32" where
  "count_completed m =
     count_ones (bits m ! 0) + count_ones (bits m ! 1)
       + count_ones (bits m ! 2) + count_ones (bits m ! 3)"

section \<open>The interface: a set of step flags\<close>

locale step_flags =
  fixes cap :: nat
    and wf :: "'m \<Rightarrow> bool"
    and abs :: "'m \<Rightarrow> nat set"
    and new :: 'm
    and mark :: "'m \<Rightarrow> nat \<Rightarrow> 'm \<times> bool"
    and clear :: "'m \<Rightarrow> nat \<Rightarrow> 'm \<times> bool"
  assumes wf_new: "wf new"
    and abs_new: "abs new = {}"
    and wf_mark: "wf m \<Longrightarrow> wf (fst (mark m i))"
    and wf_clear: "wf m \<Longrightarrow> wf (fst (clear m i))"
    and mark_ok: "snd (mark m i) \<longleftrightarrow> i < cap"
    and clear_ok: "snd (clear m i) \<longleftrightarrow> i < cap"
    and abs_mark: "wf m \<Longrightarrow> abs (fst (mark m i)) = (if i < cap then insert i (abs m) else abs m)"
    and abs_clear: "wf m \<Longrightarrow> abs (fst (clear m i)) = abs m - {i}"
begin

text \<open>Marking and clearing a whole list of steps, as recovery and reset do.\<close>

lemma wf_fold_mark: "wf m \<Longrightarrow> wf (fold (\<lambda>i m. fst (mark m i)) xs m)"
  by (induction xs arbitrary: m) (auto intro: wf_mark)

lemma abs_fold_mark:
  "wf m \<Longrightarrow> abs (fold (\<lambda>i m. fst (mark m i)) xs m) = abs m \<union> {i \<in> set xs. i < cap}"
  by (induction xs arbitrary: m) (auto simp: abs_mark wf_mark)

lemma wf_fold_clear: "wf m \<Longrightarrow> wf (fold (\<lambda>i m. fst (clear m i)) xs m)"
  by (induction xs arbitrary: m) (auto intro: wf_clear)

lemma abs_fold_clear:
  "wf m \<Longrightarrow> abs (fold (\<lambda>i m. fst (clear m i)) xs m) = abs m - set xs"
  by (induction xs arbitrary: m) (auto simp: abs_clear wf_clear)

end

section \<open>The bit vector implements it\<close>

definition bitmask_wf :: "bitmask256 \<Rightarrow> bool" where
  "bitmask_wf m \<longleftrightarrow> length (bits m) = 4"

definition steps_of :: "bitmask256 \<Rightarrow> nat set" where
  "steps_of m = {i. is_step_set m i}"

lemma is_step_set_bit:
  "is_step_set m i \<longleftrightarrow> i < 256 \<and> bit (bits m ! (i div 64)) (i mod 64)"
proof -
  have "(w AND push_bit n 1 \<noteq> 0) \<longleftrightarrow> bit w n" if "n < 64" for w :: u64 and n
    using that by (simp add: bit_iff_and_push_bit_not_eq_0)
  then show ?thesis
    by (auto simp: is_step_set_def Let_def)
qed

lemma steps_of_iff: "i \<in> steps_of m \<longleftrightarrow> i < 256 \<and> bit (bits m ! (i div 64)) (i mod 64)"
  by (simp add: steps_of_def is_step_set_bit)

lemma div_mod_64_eq: "(i :: nat) div 64 = j div 64 \<Longrightarrow> i mod 64 = j mod 64 \<Longrightarrow> i = j"
  by (metis div_mult_mod_eq)

lemma steps_of_set_step:
  assumes "bitmask_wf m"
  shows "steps_of (fst (set_step m i)) = (if i < 256 then insert i (steps_of m) else steps_of m)"
proof (rule set_eqI)
  fix j
  show "j \<in> steps_of (fst (set_step m i)) \<longleftrightarrow>
        j \<in> (if i < 256 then insert i (steps_of m) else steps_of m)"
    using assms
    by (cases "j div 64 = i div 64")
       (auto simp: steps_of_iff set_step_def Let_def bitmask_wf_def nth_list_update bit_simps
             dest: div_mod_64_eq)
qed

lemma steps_of_clear_step:
  assumes "bitmask_wf m"
  shows "steps_of (fst (clear_step m i)) = steps_of m - {i}"
proof (rule set_eqI)
  fix j
  show "j \<in> steps_of (fst (clear_step m i)) \<longleftrightarrow> j \<in> steps_of m - {i}"
    using assms
    by (cases "j div 64 = i div 64")
       (auto simp: steps_of_iff clear_step_def Let_def bitmask_wf_def nth_list_update bit_simps
             dest: div_mod_64_eq)
qed

lemma bitmask_wf_new: "bitmask_wf Bitmask256_new"
  by (simp add: bitmask_wf_def Bitmask256_new_def)

lemma steps_of_new: "steps_of Bitmask256_new = {}"
  by (auto simp: steps_of_iff Bitmask256_new_def)

lemma bitmask_wf_set_step: "bitmask_wf m \<Longrightarrow> bitmask_wf (fst (set_step m i))"
  by (simp add: bitmask_wf_def set_step_def Let_def)

lemma bitmask_wf_clear_step: "bitmask_wf m \<Longrightarrow> bitmask_wf (fst (clear_step m i))"
  by (simp add: bitmask_wf_def clear_step_def Let_def)

interpretation bm: step_flags 256 bitmask_wf steps_of Bitmask256_new set_step clear_step
  by unfold_locales
     (simp_all add: bitmask_wf_new steps_of_new bitmask_wf_set_step bitmask_wf_clear_step
       steps_of_set_step steps_of_clear_step,
      simp_all add: set_step_def clear_step_def Let_def)

lemmas [velocity_wf] = bitmask_wf_new bitmask_wf_set_step bitmask_wf_clear_step
lemmas [velocity_abs] = steps_of_new steps_of_set_step steps_of_clear_step

lemma steps_of_bounded: "steps_of m \<subseteq> {..<256}"
  by (auto simp: steps_of_iff)

lemma finite_steps_of [simp]: "finite (steps_of m)"
  by (rule finite_subset [OF steps_of_bounded]) simp

lemma set_step_sets: "bitmask_wf m \<Longrightarrow> i < 256 \<Longrightarrow> steps_of (fst (set_step m i)) \<noteq> {}"
  by (simp add: steps_of_set_step)

section \<open>Counting\<close>

lemma word_of_steps:
  assumes "k < 4"
  shows "{i \<in> steps_of m. i div 64 = k} = (\<lambda>b. 64 * k + b) ` {b. b < 64 \<and> bit (bits m ! k) b}"
proof (rule set_eqI)
  fix i
  have "i = 64 * k + i mod 64" if "i div 64 = k"
    using that by (metis mult.commute div_mult_mod_eq)
  then have "i \<in> (\<lambda>b. 64 * k + b) ` {b. b < 64 \<and> bit (bits m ! k) b}"
    if "i div 64 = k" and "bit (bits m ! k) (i mod 64)"
    using that by (intro image_eqI [where x = "i mod 64"]) auto
  then show "i \<in> {i \<in> steps_of m. i div 64 = k} \<longleftrightarrow>
        i \<in> (\<lambda>b. 64 * k + b) ` {b. b < 64 \<and> bit (bits m ! k) b}"
    using assms by (auto simp: steps_of_iff)
qed

lemma card_word_of_steps:
  "k < 4 \<Longrightarrow> card {i \<in> steps_of m. i div 64 = k} = card {b. b < 64 \<and> bit (bits m ! k) b}"
  by (simp add: word_of_steps card_image inj_on_def)

lemma card_steps_of:
  "card (steps_of m) = (\<Sum>k<4. card {i \<in> steps_of m. i div 64 = k})"
proof -
  have "steps_of m = (\<Union>k<4. {i \<in> steps_of m. i div 64 = k})"
    by (auto simp: steps_of_iff)
  then have "card (steps_of m) = card (\<Union>k<4. {i \<in> steps_of m. i div 64 = k})"
    by simp
  also have "\<dots> = (\<Sum>k<4. card {i \<in> steps_of m. i div 64 = k})"
    by (rule card_UN_disjoint) auto
  finally show ?thesis .
qed

lemma count_completed_card:
  "unat (count_completed m) = card (steps_of m)"
proof -
  have eq: "card (steps_of m) = (\<Sum>k<4. unat (count_ones (bits m ! k)))"
    by (simp add: card_steps_of card_word_of_steps count_ones_u64)
  have "card (steps_of m) \<le> card {..<256::nat}"
    by (rule card_mono) (use steps_of_bounded in auto)
  then have "card (steps_of m) < 2 ^ 32" by simp
  moreover have "count_completed m = word_of_nat (card (steps_of m))"
    unfolding eq count_completed_def by (simp add: eval_nat_numeral)
  ultimately show ?thesis
    by (simp add: unat_of_nat)
qed

section \<open>Properties\<close>

text \<open>
  On a well-formed vector \<open>set_step\<close> and \<open>clear_step\<close> refuse exactly the indices
  from 256 up and otherwise change the membership of that index alone, and
  \<open>count_completed\<close> is the number of indices \<open>is_step_set\<close> reports.
\<close>

theorem bitmask_is_a_set_of_steps:
  assumes "bitmask_wf m"
  shows "(snd (set_step m i) \<longleftrightarrow> i < 256) \<and> (snd (clear_step m i) \<longleftrightarrow> i < 256)
    \<and> (\<forall>j. is_step_set (fst (set_step m i)) j \<longleftrightarrow> is_step_set m j \<or> j = i \<and> i < 256)
    \<and> (\<forall>j. is_step_set (fst (clear_step m i)) j \<longleftrightarrow> is_step_set m j \<and> j \<noteq> i)
    \<and> unat (count_completed m) = card {k. is_step_set m k}"
  using bm.mark_ok bm.clear_ok steps_of_set_step [OF assms, of i] steps_of_clear_step [OF assms, of i]
    count_completed_card [of m]
  by (auto simp: steps_of_def set_eq_iff split: if_splits)

theorem bitmask_is_a_set_of_steps_witness:
  "is_step_set (fst (set_step Bitmask256_new 200)) 200 \<and> \<not> is_step_set (fst (set_step Bitmask256_new 200)) 8"
  using bitmask_is_a_set_of_steps [OF bitmask_wf_new, of 200] steps_of_new
  by (simp add: steps_of_def)

end
