(* ===== verification/Slab.thy ===== *)
theory Slab
  imports Bitmask
begin

text \<open>
  \<open>velocity-workflow-core/src/slab.rs\<close> and \<open>wal.rs\<close>: the slab header of a workflow run,
  its chained SHA-256 root and the step append.  SHA-256 is the third-party crate
  \<open>sha2\<close>: it is the parameter \<open>sha\<close> of every definition that hashes, and the theorems
  that need it assume the documented digest length of 32 bytes and nothing else.
\<close>

type_synonym digest_fn = "bytes \<Rightarrow> bytes"

definition digest32 :: "digest_fn \<Rightarrow> bool" where
  "digest32 sha \<longleftrightarrow> (\<forall>x. length (sha x) = 32)"

lemma digest32D [simp]: "digest32 sha \<Longrightarrow> length (sha x) = 32"
  by (simp add: digest32_def)

record slab_header =
  sh_magic :: u32
  sh_schema_version :: u32
  sh_workflow_id :: u64
  sh_run_id :: u64
  sh_current_step :: u32
  sh_total_steps :: u32
  sh_merkle_root :: bytes
  sh_step_bitmask :: bitmask256
  sh_prev_merkle_root :: bytes

definition MAGIC_VLCT :: u32 where
  "MAGIC_VLCT = 0x564C4354"

definition CURRENT_SCHEMA_VERSION :: u32 where
  "CURRENT_SCHEMA_VERSION = 1"

definition merkle_message :: "slab_header \<Rightarrow> bytes" where
  "merkle_message h =
     to_le_bytes (sh_magic h) @ to_le_bytes (sh_schema_version h)
     @ to_le_bytes (sh_workflow_id h) @ to_le_bytes (sh_run_id h)
     @ to_le_bytes (sh_current_step h) @ to_le_bytes (sh_total_steps h)
     @ sh_prev_merkle_root h
     @ concat (map to_le_bytes (bits (sh_step_bitmask h)))"

definition recalculate_merkle_root :: "digest_fn \<Rightarrow> slab_header \<Rightarrow> slab_header" where
  "recalculate_merkle_root sha h = h\<lparr>sh_merkle_root := sha (merkle_message h)\<rparr>"

definition verify_merkle_root :: "digest_fn \<Rightarrow> slab_header \<Rightarrow> bool" where
  "verify_merkle_root sha h \<longleftrightarrow> sh_merkle_root h = sha (merkle_message h)"

definition SlabHeader_new_chained ::
    "digest_fn \<Rightarrow> u64 \<Rightarrow> u64 \<Rightarrow> u32 \<Rightarrow> bytes \<Rightarrow> slab_header" where
  "SlabHeader_new_chained sha workflow_id run_id total_steps prev_root =
     recalculate_merkle_root sha
       \<lparr>sh_magic = MAGIC_VLCT, sh_schema_version = CURRENT_SCHEMA_VERSION,
        sh_workflow_id = workflow_id, sh_run_id = run_id,
        sh_current_step = 0, sh_total_steps = total_steps,
        sh_merkle_root = replicate 32 0, sh_step_bitmask = Bitmask256_new,
        sh_prev_merkle_root = prev_root\<rparr>"

definition SlabHeader_new :: "digest_fn \<Rightarrow> u64 \<Rightarrow> u64 \<Rightarrow> u32 \<Rightarrow> slab_header" where
  "SlabHeader_new sha workflow_id run_id total_steps =
     recalculate_merkle_root sha
       \<lparr>sh_magic = MAGIC_VLCT, sh_schema_version = CURRENT_SCHEMA_VERSION,
        sh_workflow_id = workflow_id, sh_run_id = run_id,
        sh_current_step = 0, sh_total_steps = total_steps,
        sh_merkle_root = replicate 32 0, sh_step_bitmask = Bitmask256_new,
        sh_prev_merkle_root = replicate 32 0\<rparr>"

definition SlabHeader_is_valid :: "slab_header \<Rightarrow> bool" where
  "SlabHeader_is_valid h \<longleftrightarrow> sh_magic h = MAGIC_VLCT"

definition mark_step_completed :: "digest_fn \<Rightarrow> slab_header \<Rightarrow> nat \<Rightarrow> slab_header \<times> bool" where
  "mark_step_completed sha h step_index =
     (case set_step (sh_step_bitmask h) step_index of
        (m, True) \<Rightarrow>
          (recalculate_merkle_root sha
             (h\<lparr>sh_step_bitmask := m,
                sh_prev_merkle_root := sh_merkle_root h,
                sh_current_step := word_of_nat (step_index + 1)\<rparr>), True)
      | (m, False) \<Rightarrow> (h\<lparr>sh_step_bitmask := m\<rparr>, False))"

definition wal_append_step :: "digest_fn \<Rightarrow> slab_header \<Rightarrow> u32 \<Rightarrow> slab_header \<times> (int + unit)" where
  "wal_append_step sha h step_index =
     (if step_index \<ge> sh_total_steps h then (h, Inl (- 1))
      else case mark_step_completed sha h (unat step_index) of
             (h', True) \<Rightarrow> (h', Inr ())
           | (h', False) \<Rightarrow> (h', Inl (- 2)))"

section \<open>Well-formed headers\<close>

text \<open>
  The array lengths of the Rust struct (\<open>[u8; 32]\<close> twice and \<open>[u64; 4]\<close>), the magic, and
  the root's agreement with the fields it covers.
\<close>

definition slab_wf :: "slab_header \<Rightarrow> bool" where
  "slab_wf h \<longleftrightarrow> bitmask_wf (sh_step_bitmask h) \<and> length (sh_merkle_root h) = 32
     \<and> length (sh_prev_merkle_root h) = 32"

definition slab_ok :: "digest_fn \<Rightarrow> slab_header \<Rightarrow> bool" where
  "slab_ok sha h \<longleftrightarrow> slab_wf h \<and> SlabHeader_is_valid h \<and> verify_merkle_root sha h"

lemma verify_recalculate [simp]: "verify_merkle_root sha (recalculate_merkle_root sha h)"
  by (simp add: verify_merkle_root_def recalculate_merkle_root_def merkle_message_def)

lemma recalculate_fields [simp]:
  "sh_magic (recalculate_merkle_root sha h) = sh_magic h"
  "sh_schema_version (recalculate_merkle_root sha h) = sh_schema_version h"
  "sh_workflow_id (recalculate_merkle_root sha h) = sh_workflow_id h"
  "sh_run_id (recalculate_merkle_root sha h) = sh_run_id h"
  "sh_current_step (recalculate_merkle_root sha h) = sh_current_step h"
  "sh_total_steps (recalculate_merkle_root sha h) = sh_total_steps h"
  "sh_step_bitmask (recalculate_merkle_root sha h) = sh_step_bitmask h"
  "sh_prev_merkle_root (recalculate_merkle_root sha h) = sh_prev_merkle_root h"
  by (simp_all add: recalculate_merkle_root_def)

lemma slab_ok_new_chained:
  "digest32 sha \<Longrightarrow> length prev = 32 \<Longrightarrow>
     slab_ok sha (SlabHeader_new_chained sha w r t prev)"
  by (simp add: slab_ok_def slab_wf_def SlabHeader_new_chained_def SlabHeader_is_valid_def
      velocity_wf) (simp add: recalculate_merkle_root_def)

lemma SlabHeader_new_chained_zero:
  "SlabHeader_new sha w r t = SlabHeader_new_chained sha w r t (replicate 32 0)"
  by (simp add: SlabHeader_new_def SlabHeader_new_chained_def)

lemma slab_ok_new:
  "digest32 sha \<Longrightarrow> slab_ok sha (SlabHeader_new sha w r t)"
  by (simp add: SlabHeader_new_chained_zero slab_ok_new_chained)

lemma SlabHeader_new_fields [simp]:
  "sh_workflow_id (SlabHeader_new sha w r t) = w"
  "sh_run_id (SlabHeader_new sha w r t) = r"
  "sh_total_steps (SlabHeader_new sha w r t) = t"
  "sh_current_step (SlabHeader_new sha w r t) = 0"
  "sh_step_bitmask (SlabHeader_new sha w r t) = Bitmask256_new"
  "sh_prev_merkle_root (SlabHeader_new sha w r t) = replicate 32 0"
  by (simp_all add: SlabHeader_new_def)

text \<open>What one append does, on both branches.\<close>

lemma mark_step_out_of_range:
  "\<not> i < 256 \<Longrightarrow> mark_step_completed sha h i = (h, False)"
  by (simp add: mark_step_completed_def set_step_def)

lemma mark_step_in_range:
  assumes "i < 256" and "mark_step_completed sha h i = (h', ok)"
  shows "ok" and "verify_merkle_root sha h'"
    and "sh_prev_merkle_root h' = sh_merkle_root h"
    and "sh_current_step h' = word_of_nat (i + 1)"
    and "sh_step_bitmask h' = fst (set_step (sh_step_bitmask h) i)"
    and "sh_magic h' = sh_magic h" and "sh_schema_version h' = sh_schema_version h"
    and "sh_workflow_id h' = sh_workflow_id h" and "sh_run_id h' = sh_run_id h"
    and "sh_total_steps h' = sh_total_steps h"
  using assms by (auto simp: mark_step_completed_def set_step_def Let_def)

lemma mark_step_frame [simp]:
  "sh_magic (fst (mark_step_completed sha h i)) = sh_magic h"
  "sh_workflow_id (fst (mark_step_completed sha h i)) = sh_workflow_id h"
  "sh_run_id (fst (mark_step_completed sha h i)) = sh_run_id h"
  "sh_total_steps (fst (mark_step_completed sha h i)) = sh_total_steps h"
  "sh_step_bitmask (fst (mark_step_completed sha h i)) = fst (set_step (sh_step_bitmask h) i)"
  by (simp_all add: mark_step_completed_def split: prod.splits bool.splits)

lemma mark_step_ok [simp]: "snd (mark_step_completed sha h i) \<longleftrightarrow> i < 256"
  by (auto simp: mark_step_completed_def set_step_def Let_def)

lemma slab_wf_mark:
  assumes "digest32 sha" and "slab_wf h"
  shows "slab_wf (fst (mark_step_completed sha h i))"
  using assms
  by (cases "i < 256")
     (auto simp: slab_wf_def mark_step_completed_def set_step_def Let_def bitmask_wf_def
       recalculate_merkle_root_def)

lemma slab_ok_mark:
  assumes "digest32 sha" and "slab_ok sha h"
  shows "slab_ok sha (fst (mark_step_completed sha h i))"
proof (cases "i < 256")
  case True
  obtain h' ok where eq: "mark_step_completed sha h i = (h', ok)"
    by (cases "mark_step_completed sha h i")
  show ?thesis
    using assms slab_wf_mark [OF assms(1), of h i] mark_step_in_range [OF True eq]
    by (simp add: slab_ok_def SlabHeader_is_valid_def eq)
next
  case False
  with assms show ?thesis by (simp add: mark_step_out_of_range)
qed

lemma wal_append_step_cases:
  "fst (wal_append_step sha h s) \<in> {h, fst (mark_step_completed sha h (unat s))}"
  by (auto simp: wal_append_step_def split: prod.splits bool.splits)

lemma slab_ok_wal_append:
  assumes "digest32 sha" and "slab_ok sha h"
  shows "slab_ok sha (fst (wal_append_step sha h s))"
  using wal_append_step_cases [of sha h s] slab_ok_mark [OF assms] assms(2) by auto

text \<open>The three outcomes of an append.\<close>

lemma wal_append_past_end: "sh_total_steps h \<le> s \<Longrightarrow> wal_append_step sha h s = (h, Inl (- 1))"
  by (simp add: wal_append_step_def)

lemma wal_append_no_flag:
  "\<not> sh_total_steps h \<le> s \<Longrightarrow> 256 \<le> s \<Longrightarrow> wal_append_step sha h s = (h, Inl (- 2))"
  by (simp add: wal_append_step_def mark_step_out_of_range word_le_nat_alt)

lemma wal_append_ok:
  assumes "\<not> sh_total_steps h \<le> s" and "\<not> 256 \<le> s" and "bitmask_wf (sh_step_bitmask h)"
    and "wal_append_step sha h s = (h', res)"
  shows "res = Inr () \<and> steps_of (sh_step_bitmask h') = insert (unat s) (steps_of (sh_step_bitmask h))
    \<and> sh_prev_merkle_root h' = sh_merkle_root h \<and> sh_current_step h' = s + 1"
proof -
  have s: "unat s < 256" using assms(2) by (simp add: word_le_nat_alt)
  obtain g ok where g: "mark_step_completed sha h (unat s) = (g, ok)"
    by (cases "mark_step_completed sha h (unat s)")
  note step = mark_step_in_range [OF s g]
  have "h' = g" and "res = Inr ()"
    using assms(1,4) step(1) by (simp_all add: wal_append_step_def g)
  then show ?thesis
    using step(3-5) s assms(3) by (simp add: steps_of_set_step)
qed

section \<open>The hashed message determines the header\<close>

lemma concat_to_le_bytes_inj:
  fixes xs ys :: "u64 list"
  assumes "length xs = length ys" and "concat (map to_le_bytes xs) = concat (map to_le_bytes ys)"
  shows "xs = ys"
  using assms by (induction xs ys rule: list_induct2) simp_all

lemma merkle_message_inj:
  assumes "slab_wf h" and "slab_wf h'" and "merkle_message h = merkle_message h'"
  shows "sh_workflow_id h = sh_workflow_id h'" and "sh_run_id h = sh_run_id h'"
    and "sh_current_step h = sh_current_step h'" and "sh_total_steps h = sh_total_steps h'"
    and "sh_prev_merkle_root h = sh_prev_merkle_root h'"
    and "sh_step_bitmask h = sh_step_bitmask h'"
    and "sh_magic h = sh_magic h'" and "sh_schema_version h = sh_schema_version h'"
proof -
  have "bits (sh_step_bitmask h) = bits (sh_step_bitmask h')"
    using assms by (intro concat_to_le_bytes_inj)
      (simp_all add: merkle_message_def slab_wf_def bitmask_wf_def)
  then show "sh_step_bitmask h = sh_step_bitmask h'" by simp
qed (use assms in \<open>simp_all add: merkle_message_def slab_wf_def\<close>)

section \<open>A run of appends\<close>

definition slab_run :: "digest_fn \<Rightarrow> slab_header \<Rightarrow> nat list \<Rightarrow> slab_header" where
  "slab_run sha h steps = fold (\<lambda>i h. fst (mark_step_completed sha h i)) steps h"

fun slab_trace :: "digest_fn \<Rightarrow> slab_header \<Rightarrow> nat list \<Rightarrow> slab_header list" where
  "slab_trace sha h [] = [h]"
| "slab_trace sha h (i # steps) = h # slab_trace sha (fst (mark_step_completed sha h i)) steps"

text \<open>The messages a run hashes, genesis included.\<close>

definition slab_messages :: "digest_fn \<Rightarrow> slab_header \<Rightarrow> nat list \<Rightarrow> bytes set" where
  "slab_messages sha h steps = set (map merkle_message (slab_trace sha h steps))"

lemma slab_run_simps [simp]:
  "slab_run sha h [] = h"
  "slab_run sha h (xs @ [i]) = fst (mark_step_completed sha (slab_run sha h xs) i)"
  by (simp_all add: slab_run_def)

lemma slab_trace_snoc:
  "slab_trace sha h (xs @ [i]) = slab_trace sha h xs @ [slab_run sha h (xs @ [i])]"
  by (induction xs arbitrary: h) (simp_all add: slab_run_def)

lemma slab_messages_snoc:
  "slab_messages sha h (xs @ [i]) =
     insert (merkle_message (slab_run sha h (xs @ [i]))) (slab_messages sha h xs)"
  by (simp add: slab_messages_def slab_trace_snoc)

lemma slab_messages_last: "merkle_message (slab_run sha h xs) \<in> slab_messages sha h xs"
  by (cases xs rule: rev_cases) (simp_all add: slab_messages_def slab_trace_snoc)

lemma slab_run_frame [simp]:
  "sh_workflow_id (slab_run sha h xs) = sh_workflow_id h"
  "sh_run_id (slab_run sha h xs) = sh_run_id h"
  "sh_total_steps (slab_run sha h xs) = sh_total_steps h"
  by (induction xs rule: rev_induct) simp_all

lemma slab_ok_run:
  assumes "digest32 sha" and "slab_ok sha h"
  shows "slab_ok sha (slab_run sha h xs)"
  by (induction xs rule: rev_induct) (simp_all add: assms slab_ok_mark)

lemma slab_run_bitmask:
  "sh_step_bitmask (slab_run sha h xs) =
     fold (\<lambda>i m. fst (set_step m i)) xs (sh_step_bitmask h)"
  by (induction xs rule: rev_induct) simp_all

lemma slab_run_steps:
  "bitmask_wf (sh_step_bitmask h) \<Longrightarrow>
     steps_of (sh_step_bitmask (slab_run sha h xs)) =
       steps_of (sh_step_bitmask h) \<union> {i \<in> set xs. i < 256}"
  by (simp add: slab_run_bitmask bm.abs_fold_mark)

lemma slab_run_last:
  assumes "i < 256"
  shows "sh_prev_merkle_root (slab_run sha h (xs @ [i])) = sh_merkle_root (slab_run sha h xs)"
    and "sh_current_step (slab_run sha h (xs @ [i])) = word_of_nat (i + 1)"
  using mark_step_in_range(3,4) [OF assms surjective_pairing] by simp_all

section \<open>The root binds the whole run\<close>

definition no_collision :: "digest_fn \<Rightarrow> bytes set \<Rightarrow> bytes set \<Rightarrow> bool" where
  "no_collision sha A B \<longleftrightarrow> (\<forall>x\<in>A. \<forall>y\<in>B. sha x = sha y \<longrightarrow> x = y)"

lemma genesis_no_steps: "steps_of (sh_step_bitmask (SlabHeader_new sha w r t)) = {}"
  by (simp add: steps_of_new)

lemma appended_some_step:
  "i < 256 \<Longrightarrow> steps_of (sh_step_bitmask (slab_run sha (SlabHeader_new sha w r t) (xs @ [i]))) \<noteq> {}"
  by (subst slab_run_steps) (auto simp: velocity_wf)

lemma current_step_inj:
  "i < 256 \<Longrightarrow> j < 256 \<Longrightarrow> (word_of_nat (i + 1) :: u32) = word_of_nat (j + 1) \<Longrightarrow> i = j"
  by (drule arg_cong [where f = unat]) (simp add: unat_of_nat del: of_nat_add of_nat_Suc)

lemma slab_roots_equal_step:
  assumes len: "digest32 sha"
    and root: "sh_merkle_root (slab_run sha (SlabHeader_new sha w r t) xs) =
               sh_merkle_root (slab_run sha (SlabHeader_new sha w' r' t') ys)"
    and nocoll: "no_collision sha (slab_messages sha (SlabHeader_new sha w r t) xs)
                   (slab_messages sha (SlabHeader_new sha w' r' t') ys)"
  shows "merkle_message (slab_run sha (SlabHeader_new sha w r t) xs) =
         merkle_message (slab_run sha (SlabHeader_new sha w' r' t') ys)"
proof -
  have "sha (merkle_message (slab_run sha (SlabHeader_new sha w r t) xs)) =
        sha (merkle_message (slab_run sha (SlabHeader_new sha w' r' t') ys))"
    using slab_ok_run [OF len slab_ok_new [OF len], of w r t xs]
      slab_ok_run [OF len slab_ok_new [OF len], of w' r' t' ys] root
    by (simp add: slab_ok_def verify_merkle_root_def)
  then show ?thesis
    using nocoll slab_messages_last by (auto simp: no_collision_def)
qed

lemma slab_wf_run_new:
  "digest32 sha \<Longrightarrow> slab_wf (slab_run sha (SlabHeader_new sha w r t) xs)"
  using slab_ok_run [OF _ slab_ok_new] by (auto simp: slab_ok_def)

lemma slab_binding_aux:
  assumes len: "digest32 sha"
  shows "\<forall>i\<in>set xs. i < 256 \<Longrightarrow> \<forall>i\<in>set ys. i < 256 \<Longrightarrow>
    sh_merkle_root (slab_run sha (SlabHeader_new sha w r t) xs) =
      sh_merkle_root (slab_run sha (SlabHeader_new sha w' r' t') ys) \<Longrightarrow>
    no_collision sha (slab_messages sha (SlabHeader_new sha w r t) xs)
      (slab_messages sha (SlabHeader_new sha w' r' t') ys) \<Longrightarrow>
    w = w' \<and> r = r' \<and> t = t' \<and> xs = ys"
proof (induction xs arbitrary: ys rule: rev_induct)
  case Nil
  note eq = merkle_message_inj [OF slab_wf_run_new [OF len] slab_wf_run_new [OF len]
      slab_roots_equal_step [OF len Nil(3,4)]]
  have "ys = []"
  proof (cases ys rule: rev_cases)
    case (snoc ys' j)
    then show ?thesis
      using eq(6) appended_some_step [of j sha w' r' t' ys'] Nil(2)
      by (simp add: steps_of_new)
  qed simp
  with eq(1,2,4) show ?case by simp
next
  case (snoc i xs)
  note eq = merkle_message_inj [OF slab_wf_run_new [OF len] slab_wf_run_new [OF len]
      slab_roots_equal_step [OF len snoc.prems(3,4)]]
  have i: "i < 256" using snoc.prems(1) by simp
  show ?case
  proof (cases ys rule: rev_cases)
    case Nil
    then show ?thesis
      using eq(6) appended_some_step [OF i, of sha w r t xs] by (simp add: steps_of_new)
  next
    case ys: (snoc ys' j)
    then have j: "j < 256" using snoc.prems(2) by simp
    have "i = j"
      using eq(3) by (intro current_step_inj i j)
        (simp only: ys slab_run_last(2) [OF i] slab_run_last(2) [OF j])
    moreover have "sh_merkle_root (slab_run sha (SlabHeader_new sha w r t) xs) =
        sh_merkle_root (slab_run sha (SlabHeader_new sha w' r' t') ys')"
      using eq(5) by (simp only: ys slab_run_last(1) [OF i] slab_run_last(1) [OF j])
    then have "w = w' \<and> r = r' \<and> t = t' \<and> xs = ys'"
      using snoc.prems by (intro snoc.IH) (simp_all add: ys slab_messages_snoc no_collision_def)
    ultimately show ?thesis by (simp add: ys)
  qed
qed

section \<open>Properties\<close>

text \<open>
  C2.  The root of a header identifies the whole run: if two runs, each started with
  \<open>SlabHeader::new\<close> and advanced by \<open>mark_step_completed\<close>, end with equal Merkle roots,
  then they have the same workflow, run and step count and completed the same steps in the
  same order, or SHA-256 collides on two of the messages the two runs really hashed.
\<close>

theorem slab_root_binds_run:
  assumes "digest32 sha" and "\<forall>i\<in>set xs. i < 256" and "\<forall>i\<in>set ys. i < 256"
    and "sh_merkle_root (slab_run sha (SlabHeader_new sha w r t) xs) =
         sh_merkle_root (slab_run sha (SlabHeader_new sha w' r' t') ys)"
  shows "(w = w' \<and> r = r' \<and> t = t' \<and> xs = ys)
    \<or> (\<exists>x \<in> slab_messages sha (SlabHeader_new sha w r t) xs.
         \<exists>y \<in> slab_messages sha (SlabHeader_new sha w' r' t') ys. x \<noteq> y \<and> sha x = sha y)"
  using slab_binding_aux [OF assms] by (auto simp: no_collision_def)

theorem slab_root_binds_run_witness:
  "\<exists>x \<in> slab_messages (\<lambda>_. replicate 32 0) (SlabHeader_new (\<lambda>_. replicate 32 0) 1 1 9) [3].
   \<exists>y \<in> slab_messages (\<lambda>_. replicate 32 0) (SlabHeader_new (\<lambda>_. replicate 32 0) 1 1 9) [3, 4]. x \<noteq> y"
  using slab_root_binds_run [of "\<lambda>_. replicate 32 0" "[3]" "[3, 4]" 1 1 9 1 1 9]
  by (auto simp: digest32_def slab_run_def mark_step_completed_def set_step_def Let_def
      recalculate_merkle_root_def)

text \<open>
  \<open>wal_append_step\<close> on every branch, from a header whose root verifies: a step at or
  past \<open>total_steps\<close> gives \<open>-1\<close>, a step past the 256 flags gives \<open>-2\<close>, and both leave the
  header alone; any other step succeeds, adds exactly that step to the completed ones, moves
  the old root into \<open>prev_merkle_root\<close>, sets \<open>current_step\<close> behind it, and the new root
  verifies.
\<close>

theorem wal_append_step_correct:
  assumes "digest32 sha" and "slab_ok sha h" and "wal_append_step sha h s = (h', res)"
  shows "slab_ok sha h' \<and>
    (if sh_total_steps h \<le> s then res = Inl (- 1) \<and> h' = h
     else if 256 \<le> s then res = Inl (- 2) \<and> h' = h
     else res = Inr () \<and> steps_of (sh_step_bitmask h') = insert (unat s) (steps_of (sh_step_bitmask h))
          \<and> sh_prev_merkle_root h' = sh_merkle_root h \<and> sh_current_step h' = s + 1)"
proof
  show "slab_ok sha h'"
    using slab_ok_wal_append [OF assms(1,2), of s] assms(3) by simp
  show "if sh_total_steps h \<le> s then res = Inl (- 1) \<and> h' = h
     else if 256 \<le> s then res = Inl (- 2) \<and> h' = h
     else res = Inr () \<and> steps_of (sh_step_bitmask h') = insert (unat s) (steps_of (sh_step_bitmask h))
          \<and> sh_prev_merkle_root h' = sh_merkle_root h \<and> sh_current_step h' = s + 1"
    using assms(2,3) wal_append_past_end [of h s sha] wal_append_no_flag [of h s sha]
      wal_append_ok [OF _ _ _ assms(3)]
    by (simp add: slab_ok_def slab_wf_def del: not_le)
qed

theorem wal_append_step_correct_witness:
  "steps_of (sh_step_bitmask (fst (wal_append_step (\<lambda>_. replicate 32 7)
     (SlabHeader_new (\<lambda>_. replicate 32 7) 1 2 3) 2))) = {2}"
  using wal_append_step_correct [OF _ _ surjective_pairing,
      of "\<lambda>_. replicate 32 7" "SlabHeader_new (\<lambda>_. replicate 32 7) 1 2 3" 2]
  by (simp add: digest32_def slab_ok_new steps_of_new)

text \<open>
  A stored header is tamper evident: a well-formed header that carries the root of a
  verified one and verifies itself is that header, or the two hashed messages are a
  collision.
\<close>

theorem slab_header_tamper_evident:
  assumes "slab_ok sha h" and "slab_wf h'" and "verify_merkle_root sha h'"
    and "sh_merkle_root h' = sh_merkle_root h" and "h' \<noteq> h"
  shows "merkle_message h' \<noteq> merkle_message h \<and> sha (merkle_message h') = sha (merkle_message h)"
proof
  show "merkle_message h' \<noteq> merkle_message h"
  proof
    assume "merkle_message h' = merkle_message h"
    then have "h' = h"
      using merkle_message_inj [of h' h] assms(1,2,4)
      by (cases h; cases h') (simp add: slab_ok_def)
    with assms(5) show False by simp
  qed
  show "sha (merkle_message h') = sha (merkle_message h)"
    using assms by (simp add: slab_ok_def verify_merkle_root_def)
qed

theorem slab_header_tamper_evident_witness:
  "merkle_message (SlabHeader_new (\<lambda>_. replicate 32 7) 1 2 3)
     \<noteq> merkle_message (SlabHeader_new (\<lambda>_. replicate 32 7) 1 2 4)"
proof -
  let ?sha = "\<lambda>_ :: bytes. replicate 32 (7 :: u8)"
  have "digest32 ?sha" by (simp add: digest32_def)
  then have ok: "slab_ok ?sha (SlabHeader_new ?sha 1 2 t)" for t by (rule slab_ok_new)
  have root: "sh_merkle_root (SlabHeader_new ?sha 1 2 t) = replicate 32 7" for t
    by (simp only: SlabHeader_new_def recalculate_merkle_root_def slab_header.simps)
  have "sh_total_steps (SlabHeader_new ?sha 1 2 3) \<noteq> sh_total_steps (SlabHeader_new ?sha 1 2 4)"
    by simp
  then have "SlabHeader_new ?sha 1 2 3 \<noteq> SlabHeader_new ?sha 1 2 4" by metis
  then show ?thesis
    using slab_header_tamper_evident [OF ok [of 4], of "SlabHeader_new ?sha 1 2 3"] ok [of 3]
      root [of 3] root [of 4] unfolding slab_ok_def by metis
qed

end
