(* ===== verification/Nda.thy ===== *)
theory Nda
  imports Slab
begin

text \<open>
  \<open>velocity-workflow-core/src/nda.rs\<close>: the NDA document header and its digest.  The digest
  covers every field but itself.
\<close>

record nda_header =
  nda_magic :: u32
  nda_flags :: u32
  nda_merkle_root :: bytes
  nda_triple_count :: u32
  nda_command_count :: u16
  nda_string_pool_offset :: u16

definition NDA_MAGIC :: u32 where
  "NDA_MAGIC = 0x3141444E"

definition nda_message :: "nda_header \<Rightarrow> bytes" where
  "nda_message h =
     to_le_bytes (nda_magic h) @ to_le_bytes (nda_flags h) @ to_le_bytes (nda_triple_count h)
     @ to_le_bytes (nda_command_count h) @ to_le_bytes (nda_string_pool_offset h)"

definition recalculate_merkle :: "digest_fn \<Rightarrow> nda_header \<Rightarrow> nda_header" where
  "recalculate_merkle sha h = h\<lparr>nda_merkle_root := sha (nda_message h)\<rparr>"

definition NdaHeader_new :: "digest_fn \<Rightarrow> u32 \<Rightarrow> u16 \<Rightarrow> u16 \<Rightarrow> nda_header" where
  "NdaHeader_new sha triple_count command_count string_pool_offset =
     recalculate_merkle sha
       \<lparr>nda_magic = NDA_MAGIC, nda_flags = 0, nda_merkle_root = replicate 32 0,
        nda_triple_count = triple_count, nda_command_count = command_count,
        nda_string_pool_offset = string_pool_offset\<rparr>"

definition verify_merkle :: "digest_fn \<Rightarrow> nda_header \<Rightarrow> bool" where
  "verify_merkle sha h \<longleftrightarrow> nda_merkle_root h = sha (nda_message h)"

lemma verify_merkle_recalculate [simp]: "verify_merkle sha (recalculate_merkle sha h)"
  by (simp add: verify_merkle_def recalculate_merkle_def nda_message_def)

lemma nda_message_inj:
  assumes "nda_message h = nda_message h'" and "nda_merkle_root h = nda_merkle_root h'"
  shows "h = (h' :: nda_header)"
  using assms by (cases h; cases h') (simp add: nda_message_def)

section \<open>Properties\<close>

text \<open>
  A fresh NDA header verifies, and two headers that verify under the same digest are
  equal or their hashed messages collide.
\<close>

theorem nda_header_tamper_evident:
  assumes "verify_merkle sha h" and "verify_merkle sha h'"
    and "nda_merkle_root h = nda_merkle_root h'" and "h \<noteq> h'"
  shows "verify_merkle sha (NdaHeader_new sha tc cc off) \<and> nda_message h \<noteq> nda_message h' \<and> sha (nda_message h) = sha (nda_message h')"
  using assms nda_message_inj [of h h'] by (auto simp: NdaHeader_new_def verify_merkle_def [of _ h]
      verify_merkle_def [of _ h'])

theorem nda_header_tamper_evident_witness:
  "nda_message (NdaHeader_new (\<lambda>_. replicate 32 7) 1 2 3)
     \<noteq> nda_message (NdaHeader_new (\<lambda>_. replicate 32 7) 1 2 4)"
  using nda_header_tamper_evident [of "\<lambda>_. replicate 32 7" "NdaHeader_new (\<lambda>_. replicate 32 7) 1 2 3"
      "NdaHeader_new (\<lambda>_. replicate 32 7) 1 2 4"]
  by (simp add: NdaHeader_new_def recalculate_merkle_def verify_merkle_def)

end
