(* ===== verification/Arena.thy ===== *)
theory Arena
  imports Prelude
begin

text \<open>
  \<open>velocity-workflow-core/src/arena.rs\<close>: the bump allocation page.  Offsets and lengths are
  64-bit \<open>usize\<close> values, so \<open>start + len\<close> wraps; slicing the fixed array out of range is a
  panic of the model.  The interface \<open>payload_store\<close> is what holders of offsets rely on.
\<close>

record arena_page =
  ar_capacity :: u64
  ar_offset :: u64
  ar_data :: bytes

definition DEFAULT_ARENA_PAGE_SIZE :: nat where
  "DEFAULT_ARENA_PAGE_SIZE = 65536"

definition BumpArenaPage_new :: arena_page where
  "BumpArenaPage_new =
     \<lparr>ar_capacity = word_of_nat DEFAULT_ARENA_PAGE_SIZE, ar_offset = 0,
      ar_data = replicate DEFAULT_ARENA_PAGE_SIZE 0\<rparr>"

text \<open>\<open>&data[a..b]\<close>: a panic unless \<open>a \<le> b \<le> data.len()\<close>.\<close>

definition slice_range :: "bytes \<Rightarrow> u64 \<Rightarrow> u64 \<Rightarrow> panic + bytes" where
  "slice_range data a b =
     (if a \<le> b \<and> unat b \<le> length data then Inr (take (unat b - unat a) (drop (unat a) data))
      else Inl IndexPanic)"

definition alloc_slice :: "arena_page \<Rightarrow> bytes \<Rightarrow> panic + arena_page \<times> u64 option" where
  "alloc_slice a bs =
     (let len = word_of_nat (length bs) in
      if ar_offset a + len > ar_capacity a then Inr (a, None)
      else let start = ar_offset a in
        case slice_range (ar_data a) start (start + len) of
          Inl e \<Rightarrow> Inl e
        | Inr _ \<Rightarrow>
            Inr (a\<lparr>ar_data := take (unat start) (ar_data a) @ bs
                              @ drop (unat (start + len)) (ar_data a),
                   ar_offset := ar_offset a + len\<rparr>, Some start))"

definition get_slice :: "arena_page \<Rightarrow> u64 \<Rightarrow> u64 \<Rightarrow> panic + bytes option" where
  "get_slice a start len =
     (if start + len > ar_offset a then Inr None
      else map_sum id Some (slice_range (ar_data a) start (start + len)))"

definition arena_reset :: "arena_page \<Rightarrow> arena_page" where
  "arena_reset a = a\<lparr>ar_offset := 0\<rparr>"

section \<open>Well-formed pages\<close>

definition arena_wf :: "arena_page \<Rightarrow> bool" where
  "arena_wf a \<longleftrightarrow> unat (ar_capacity a) = 65536 \<and> length (ar_data a) = 65536
     \<and> unat (ar_offset a) \<le> 65536"

lemma arena_wf_new [velocity_wf]: "arena_wf BumpArenaPage_new"
  by (simp add: arena_wf_def BumpArenaPage_new_def DEFAULT_ARENA_PAGE_SIZE_def)

lemma arena_wf_reset [velocity_wf]: "arena_wf a \<Longrightarrow> arena_wf (arena_reset a)"
  by (simp add: arena_wf_def arena_reset_def)

lemma unat_add_len:
  assumes "unat (x :: u64) \<le> 65536" and "n < 2 ^ 63"
  shows "unat (x + word_of_nat n) = unat x + n"
proof -
  have "unat (word_of_nat n :: u64) = n"
    using assms(2) by (simp add: unat_of_nat)
  then show ?thesis
    using assms by (simp add: unat_word_ariths)
qed

text \<open>
  A Rust slice has at most \<open>isize::MAX\<close> bytes, so the length of a payload is below
  \<open>2 ^ 63\<close>: then the addition does not wrap and the allocation never panics.
\<close>

lemma alloc_slice_full:
  assumes "arena_wf a" and "length bs < 2 ^ 63" and "65536 < unat (ar_offset a) + length bs"
  shows "alloc_slice a bs = Inr (a, None)"
  using assms unat_add_len [of "ar_offset a" "length bs"]
  by (simp add: alloc_slice_def Let_def arena_wf_def word_less_nat_alt)

lemma alloc_slice_fits:
  assumes "arena_wf a" and "unat (ar_offset a) + length bs \<le> 65536"
  shows "alloc_slice a bs =
    Inr (a\<lparr>ar_data := take (unat (ar_offset a)) (ar_data a) @ bs
             @ drop (unat (ar_offset a) + length bs) (ar_data a),
           ar_offset := ar_offset a + word_of_nat (length bs)\<rparr>, Some (ar_offset a))"
proof -
  have "unat (ar_offset a + word_of_nat (length bs)) = unat (ar_offset a) + length bs"
    using assms by (intro unat_add_len) (auto simp: arena_wf_def)
  then show ?thesis
    using assms
    by (simp add: alloc_slice_def Let_def arena_wf_def slice_range_def word_less_nat_alt
        word_le_nat_alt)
qed

lemma alloc_slice_cases:
  assumes "arena_wf a" and "length bs < 2 ^ 63"
  obtains (full) "65536 < unat (ar_offset a) + length bs" "alloc_slice a bs = Inr (a, None)"
  | (fits) a' where "unat (ar_offset a) + length bs \<le> 65536"
      "alloc_slice a bs = Inr (a', Some (ar_offset a))"
      "unat (ar_offset a') = unat (ar_offset a) + length bs"
      "ar_capacity a' = ar_capacity a"
      "ar_data a' = take (unat (ar_offset a)) (ar_data a) @ bs
             @ drop (unat (ar_offset a) + length bs) (ar_data a)"
proof (cases "unat (ar_offset a) + length bs \<le> 65536")
  case True
  show ?thesis
    by (rule that(2) [OF True alloc_slice_fits [OF assms(1) True]])
       (use assms unat_add_len [of "ar_offset a" "length bs"] in \<open>simp_all add: arena_wf_def\<close>)
next
  case False
  then show ?thesis
    using alloc_slice_full [OF assms] by (intro that(1)) auto
qed

lemma alloc_slice_wf:
  assumes "arena_wf a" and "length bs < 2 ^ 63" and "alloc_slice a bs = Inr (a', r)"
  shows "arena_wf a'"
  using assms(1,2)
  by (cases rule: alloc_slice_cases) (use assms in \<open>auto simp: arena_wf_def\<close>)

section \<open>The interface: payloads stay readable\<close>

text \<open>
  \<open>alloc\<close> returns a handle or nothing, \<open>read\<close> the payload behind a handle; an allocation
  keeps every payload readable that was readable before.
\<close>

fun alloc_all :: "('s \<Rightarrow> 'p \<Rightarrow> 's \<times> 'h option) \<Rightarrow> 's \<Rightarrow> 'p list \<Rightarrow> 's \<times> ('h option \<times> 'p) list" where
  "alloc_all alloc s [] = (s, [])"
| "alloc_all alloc s (p # ps) =
     (let (s', h) = alloc s p; (s'', hs) = alloc_all alloc s' ps in (s'', (h, p) # hs))"

locale payload_store =
  fixes wf :: "'s \<Rightarrow> bool"
    and alloc :: "'s \<Rightarrow> 'p \<Rightarrow> 's \<times> 'h option"
    and reads :: "'s \<Rightarrow> 'h \<Rightarrow> 'p \<Rightarrow> bool"
    and admissible :: "'p \<Rightarrow> bool"
  assumes wf_alloc: "wf s \<Longrightarrow> admissible p \<Longrightarrow> wf (fst (alloc s p))"
    and alloc_reads: "wf s \<Longrightarrow> admissible p \<Longrightarrow> snd (alloc s p) = Some h \<Longrightarrow> reads (fst (alloc s p)) h p"
    and alloc_keeps: "wf s \<Longrightarrow> admissible p \<Longrightarrow> reads s h q \<Longrightarrow> reads (fst (alloc s p)) h q"
begin

lemma wf_alloc_all:
  "wf s \<Longrightarrow> \<forall>p\<in>set ps. admissible p \<Longrightarrow> wf (fst (alloc_all alloc s ps))"
  by (induction ps arbitrary: s) (auto simp: case_prod_beta Let_def intro: wf_alloc)

lemma alloc_all_keeps:
  "wf s \<Longrightarrow> \<forall>p\<in>set ps. admissible p \<Longrightarrow> reads s h q \<Longrightarrow> reads (fst (alloc_all alloc s ps)) h q"
proof (induction ps arbitrary: s)
  case (Cons p ps)
  then show ?case
    using wf_alloc [of s p] alloc_keeps [of s p h q]
    by (auto simp: case_prod_beta Let_def)
qed simp

lemma alloc_all_reads:
  "wf s \<Longrightarrow> \<forall>p\<in>set ps. admissible p \<Longrightarrow> (Some h, q) \<in> set (snd (alloc_all alloc s ps)) \<Longrightarrow>
     reads (fst (alloc_all alloc s ps)) h q"
proof (induction ps arbitrary: s)
  case (Cons p ps)
  show ?case
  proof (cases "snd (alloc s p) = Some h \<and> q = p")
    case True
    then have "reads (fst (alloc s p)) h p"
      using Cons.prems by (intro alloc_reads) auto
    then show ?thesis
      using True Cons.prems wf_alloc [of s p] alloc_all_keeps [of "fst (alloc s p)" ps h p]
      by (auto simp: case_prod_beta Let_def)
  next
    case False
    then show ?thesis
      using Cons.prems wf_alloc [of s p] Cons.IH [of "fst (alloc s p)"]
      by (auto simp: case_prod_beta Let_def)
  qed
qed simp

end

section \<open>The arena page implements it\<close>

text \<open>The page after an allocation, and its handle; a panic leaves the page alone.\<close>

definition arena_alloc :: "arena_page \<Rightarrow> bytes \<Rightarrow> arena_page \<times> u64 option" where
  "arena_alloc a bs = (case alloc_slice a bs of Inl e \<Rightarrow> (a, None) | Inr r \<Rightarrow> r)"

definition arena_reads :: "arena_page \<Rightarrow> u64 \<Rightarrow> bytes \<Rightarrow> bool" where
  "arena_reads a start bs \<longleftrightarrow>
     unat start + length bs \<le> unat (ar_offset a)
     \<and> get_slice a start (word_of_nat (length bs)) = Inr (Some bs)"

lemma get_slice_in_range:
  assumes "arena_wf a" and "unat start + n \<le> unat (ar_offset a)"
  shows "get_slice a start (word_of_nat n) = Inr (Some (take n (drop (unat start) (ar_data a))))"
proof -
  have "unat (start + word_of_nat n) = unat start + n"
    using assms by (intro unat_add_len) (auto simp: arena_wf_def)
  then show ?thesis
    using assms
    by (simp add: get_slice_def slice_range_def arena_wf_def word_less_nat_alt word_le_nat_alt)
qed

lemma arena_reads_iff:
  "arena_wf a \<Longrightarrow> arena_reads a start bs \<longleftrightarrow>
     unat start + length bs \<le> unat (ar_offset a)
     \<and> take (length bs) (drop (unat start) (ar_data a)) = bs"
  by (auto simp: arena_reads_def get_slice_in_range)

lemma arena_alloc_no_panic:
  assumes "arena_wf a" and "length bs < 2 ^ 63"
  shows "alloc_slice a bs = Inr (arena_alloc a bs)"
  using assms by (cases rule: alloc_slice_cases) (simp_all add: arena_alloc_def)

interpretation ar: payload_store arena_wf arena_alloc arena_reads "\<lambda>bs. length bs < 2 ^ 63"
proof unfold_locales
  fix a and bs :: bytes
  assume a: "arena_wf a" and len: "length bs < 2 ^ 63"
  show wf': "arena_wf (fst (arena_alloc a bs))"
    using alloc_slice_wf [OF a len] arena_alloc_no_panic [OF a len] by (metis prod.collapse)
  show "arena_reads (fst (arena_alloc a bs)) h bs" if "snd (arena_alloc a bs) = Some h" for h
    using a len
  proof (cases rule: alloc_slice_cases)
    case full
    with that show ?thesis by (simp add: arena_alloc_def)
  next
    case (fits a')
    then have "arena_alloc a bs = (a', Some (ar_offset a))" by (simp add: arena_alloc_def)
    then show ?thesis
      using that fits wf' a by (auto simp: arena_reads_iff arena_wf_def)
  qed
  show "arena_reads (fst (arena_alloc a bs)) h q" if "arena_reads a h q" for h q
    using a len
  proof (cases rule: alloc_slice_cases)
    case full
    with that show ?thesis by (simp add: arena_alloc_def)
  next
    case (fits a')
    then have "arena_alloc a bs = (a', Some (ar_offset a))" by (simp add: arena_alloc_def)
    then show ?thesis
      using that fits wf' a by (auto simp: arena_reads_iff arena_wf_def drop_take)
  qed
qed

section \<open>Properties\<close>

text \<open>
  From a well-formed page, allocate any list of payloads: no allocation panics, and
  every payload that got an offset reads back from the final page through \<open>get_slice\<close>,
  whatever was allocated after it.
\<close>

theorem arena_allocations_read_back:
  assumes "arena_wf a" and "\<forall>p\<in>set ps. length p < 2 ^ 63"
    and "alloc_all arena_alloc a ps = (a', hs)" and "(Some start, p) \<in> set hs"
  shows "arena_wf a' \<and> get_slice a' start (word_of_nat (length p)) = Inr (Some p)"
proof -
  have "arena_reads a' start p"
    using ar.alloc_all_reads [OF assms(1,2)] assms(3,4) by simp
  then show ?thesis
    using ar.wf_alloc_all [OF assms(1,2)] assms(3) by (simp add: arena_reads_def)
qed

theorem arena_allocations_read_back_witness:
  "get_slice (fst (alloc_all arena_alloc BumpArenaPage_new [[1, 2], [3]])) 0 2 = Inr (Some [1, 2])"
proof -
  obtain a' hs where run: "alloc_all arena_alloc BumpArenaPage_new [[1, 2], [3]] = (a', hs)"
    by (cases "alloc_all arena_alloc BumpArenaPage_new [[1, 2], [3]]")
  have "arena_alloc BumpArenaPage_new [1, 2] = (fst (arena_alloc BumpArenaPage_new [1, 2]), Some 0)"
    using alloc_slice_fits [OF arena_wf_new, of "[1, 2]"]
    by (simp add: arena_alloc_def BumpArenaPage_new_def)
  then have "(Some 0, [1, 2]) \<in> set hs"
    using run by (auto simp: case_prod_beta Let_def dest: arg_cong [where f = snd])
  from arena_allocations_read_back [OF arena_wf_new _ run this] run show ?thesis
    by simp
qed

end
