(* ===== verification/Slot_Array.thy ===== *)
theory Slot_Array
  imports Prelude
begin

text \<open>
  Fixed arrays of slots that hold keyed entries: the shape shared by the add-wins set, the
  slot maps and the workflow pools.  A \<open>view\<close> reads the key and value of an occupied slot
  and gives \<open>None\<close> on a free one; the lemmas say what overwriting one slot does to the map
  the array represents.  The interface \<open>kv_store\<close> is what the engine relies on.
\<close>

definition live :: "('e \<Rightarrow> ('k \<times> 'v) option) \<Rightarrow> 'e list \<Rightarrow> ('k \<times> 'v) list" where
  "live view es = List.map_filter view es"

lemma live_simps [simp]:
  "live view [] = []"
  "live view (e # es) = (case view e of None \<Rightarrow> live view es | Some kv \<Rightarrow> kv # live view es)"
  by (simp_all add: live_def map_filter_simps split: option.splits)

lemma live_append [simp]: "live view (es @ fs) = live view es @ live view fs"
  by (induction es) (auto split: option.splits)

lemma set_live: "set (live view es) = {kv. \<exists>e\<in>set es. view e = Some kv}"
  by (induction es) (auto split: option.splits)

lemma length_live: "length (live view es) \<le> length es"
  by (induction es) (auto split: option.splits)

lemma live_None: "(\<forall>e\<in>set es. view e = None) \<Longrightarrow> live view es = []"
  by (induction es) simp_all

lemma live_full: "(\<forall>e\<in>set es. view e \<noteq> None) \<Longrightarrow> length (live view es) = length es"
  by (induction es) (auto split: option.splits)

definition key_at :: "('e \<Rightarrow> ('k \<times> 'v) option) \<Rightarrow> 'k \<Rightarrow> 'e \<Rightarrow> bool" where
  "key_at view k e \<longleftrightarrow> (\<exists>v. view e = Some (k, v))"

lemma key_at_None: "(\<forall>e\<in>set es. \<not> key_at view k e) \<longleftrightarrow> k \<notin> fst ` set (live view es)"
  by (force simp: set_live key_at_def)

lemma map_of_insert_middle:
  "k \<notin> fst ` set xs \<Longrightarrow> map_of (xs @ (k, v) # ys) = (map_of (xs @ ys))(k \<mapsto> v)"
  by (induction xs) (auto simp: fun_eq_iff)

lemma map_of_delete_middle:
  "distinct (map fst (xs @ (k, v) # ys)) \<Longrightarrow> map_of (xs @ ys) = (map_of (xs @ (k, v) # ys))(k := None)"
  by (induction xs) (auto simp: fun_eq_iff map_of_eq_None_iff)

text \<open>The slot of a key, split out of the array.\<close>

lemma key_slot_split:
  assumes "position (key_at view k) es = Some i"
  obtains as e bs v where "es = as @ e # bs" "i = length as" "view e = Some (k, v)"
    "k \<notin> fst ` set (live view as)"
proof -
  obtain as e bs where "es = as @ e # bs" "i = length as" "key_at view k e" "\<forall>a\<in>set as. \<not> key_at view k a"
    using assms by (rule position_split)
  then show ?thesis using that by (auto simp: key_at_None) (auto simp: key_at_def)
qed

lemma live_lookup:
  assumes "position (key_at view k) es = Some i"
  shows "map_option (Pair k) (map_of (live view es) k) = view (es ! i)" and "view (es ! i) \<noteq> None"
proof -
  from assms obtain as e bs v where "es = as @ e # bs" "i = length as" "view e = Some (k, v)"
    "k \<notin> fst ` set (live view as)"
    by (rule key_slot_split)
  then show "map_option (Pair k) (map_of (live view es) k) = view (es ! i)" "view (es ! i) \<noteq> None"
    by (simp_all add: map_of_insert_middle del: map_of_append)
qed

lemma live_overwrite:
  assumes "position (key_at view k) es = Some i" and "view x = Some (k, v)"
  shows "map_of (live view (es[i := x])) = (map_of (live view es))(k \<mapsto> v)"
    and "map fst (live view (es[i := x])) = map fst (live view es)"
    and "length (live view (es[i := x])) = length (live view es)"
proof -
  from assms(1) obtain as e bs v' where "es = as @ e # bs" "i = length as" "view e = Some (k, v')"
    "k \<notin> fst ` set (live view as)"
    by (rule key_slot_split)
  then show "map_of (live view (es[i := x])) = (map_of (live view es))(k \<mapsto> v)"
    and "map fst (live view (es[i := x])) = map fst (live view es)"
    and "length (live view (es[i := x])) = length (live view es)"
    using assms(2) by (simp_all add: map_of_insert_middle del: map_of_append)
qed

lemma live_vacate:
  assumes "position (key_at view k) es = Some i" and "distinct (map fst (live view es))"
    and "view x = None"
  shows "map_of (live view (es[i := x])) = (map_of (live view es))(k := None)"
    and "Suc (length (live view (es[i := x]))) = length (live view es)"
    and "distinct (map fst (live view (es[i := x])))"
proof -
  from assms(1) obtain as e bs v where "es = as @ e # bs" "i = length as" "view e = Some (k, v)"
    "k \<notin> fst ` set (live view as)"
    by (rule key_slot_split)
  then show "map_of (live view (es[i := x])) = (map_of (live view es))(k := None)"
    and "Suc (length (live view (es[i := x]))) = length (live view es)"
    and "distinct (map fst (live view (es[i := x])))"
    using assms(2,3) by (auto simp: map_of_delete_middle [symmetric] simp del: map_of_append)
qed

lemma live_occupy:
  assumes "i < length es" and "view (es ! i) = None" and "k \<notin> fst ` set (live view es)"
    and "view x = Some (k, v)"
  shows "map_of (live view (es[i := x])) = (map_of (live view es))(k \<mapsto> v)"
    and "length (live view (es[i := x])) = Suc (length (live view es))"
    and "distinct (map fst (live view es)) \<Longrightarrow> distinct (map fst (live view (es[i := x])))"
proof -
  obtain as e bs where es: "es = as @ e # bs" "i = length as"
    using id_take_nth_drop [OF assms(1)] assms(1) by (metis length_take min.absorb4)
  then show "map_of (live view (es[i := x])) = (map_of (live view es))(k \<mapsto> v)"
    and "length (live view (es[i := x])) = Suc (length (live view es))"
    using assms by (simp_all add: map_of_insert_middle image_Un del: map_of_append)
  show "distinct (map fst (live view es)) \<Longrightarrow> distinct (map fst (live view (es[i := x])))"
    using assms es by auto
qed

section \<open>A store of keyed values\<close>

datatype ('k, 'v) kv_op = Put 'k 'v | Del 'k

fun kv_step :: "('k, 'v) kv_op \<Rightarrow> ('k \<rightharpoonup> 'v) \<Rightarrow> ('k \<rightharpoonup> 'v)" where
  "kv_step (Put k v) m = m(k \<mapsto> v)"
| "kv_step (Del k) m = m(k := None)"

text \<open>
  \<open>fits\<close> says when a key may join the keys already present; an operation list fits when
  every \<open>Put\<close> does at its time.
\<close>

fun kv_fits :: "('k set \<Rightarrow> 'k \<Rightarrow> bool) \<Rightarrow> ('k, 'v) kv_op list \<Rightarrow> ('k \<rightharpoonup> 'v) \<Rightarrow> bool" where
  "kv_fits fits [] m \<longleftrightarrow> True"
| "kv_fits fits (op # ops) m \<longleftrightarrow>
     (case op of Put k v \<Rightarrow> fits (dom m) k | Del k \<Rightarrow> True) \<and> kv_fits fits ops (kv_step op m)"

fun kv_exec :: "('s \<Rightarrow> 'k \<Rightarrow> 'v \<Rightarrow> 's) \<Rightarrow> ('s \<Rightarrow> 'k \<Rightarrow> 's) \<Rightarrow> ('k, 'v) kv_op \<Rightarrow> 's \<Rightarrow> 's" where
  "kv_exec put del (Put k v) s = put s k v"
| "kv_exec put del (Del k) s = del s k"

locale kv_store =
  fixes wf :: "'s \<Rightarrow> bool"
    and lookup :: "'s \<Rightarrow> 'k \<rightharpoonup> 'v"
    and put :: "'s \<Rightarrow> 'k \<Rightarrow> 'v \<Rightarrow> 's"
    and del :: "'s \<Rightarrow> 'k \<Rightarrow> 's"
    and fits :: "'k set \<Rightarrow> 'k \<Rightarrow> bool"
  assumes wf_put: "wf s \<Longrightarrow> fits (dom (lookup s)) k \<Longrightarrow> wf (put s k v)"
    and wf_del: "wf s \<Longrightarrow> wf (del s k)"
    and lookup_put: "wf s \<Longrightarrow> fits (dom (lookup s)) k \<Longrightarrow> lookup (put s k v) = (lookup s)(k \<mapsto> v)"
    and lookup_del: "wf s \<Longrightarrow> lookup (del s k) = (lookup s)(k := None)"
begin

lemma exec_refines:
  "wf s \<Longrightarrow> kv_fits fits ops (lookup s) \<Longrightarrow>
     wf (fold (kv_exec put del) ops s)
     \<and> lookup (fold (kv_exec put del) ops s) = fold kv_step ops (lookup s)"
proof (induction ops arbitrary: s)
  case (Cons op ops)
  have "wf (kv_exec put del op s)" and "lookup (kv_exec put del op s) = kv_step op (lookup s)"
    using Cons.prems by (cases op; simp add: wf_put wf_del lookup_put lookup_del)+
  then show ?case using Cons by simp
qed simp

end

end
