(* ===== verification/Crdt.thy ===== *)
theory Crdt
  imports Slot_Array
begin

text \<open>
  \<open>velocity-workflow-core/src/crdt.rs\<close>: the replicated counter and the add-wins set.  The
  counter is shown to be a state-based CRDT (interface \<open>state_crdt\<close>): replicas that have
  merged the same states agree.  For the set the theory gives the exact effect of every
  operation on the map from members to dots, the members two replicas agree on, and the
  removals they do not agree on.
\<close>

section \<open>Positive-negative counter\<close>

record pn_counter =
  pn_increments :: u64
  pn_decrements :: u64

definition PNCounter_new :: pn_counter where
  "PNCounter_new = \<lparr>pn_increments = 0, pn_decrements = 0\<rparr>"

text \<open>\<open>as i64\<close> reads the same 64 bits as two's complement and the subtraction wraps.\<close>

definition PNCounter_value :: "pn_counter \<Rightarrow> int" where
  "PNCounter_value c = sint (pn_increments c - pn_decrements c)"

definition PNCounter_inc :: "pn_counter \<Rightarrow> u64 \<Rightarrow> pn_counter" where
  "PNCounter_inc c delta = c\<lparr>pn_increments := saturating_add (pn_increments c) delta\<rparr>"

definition PNCounter_dec :: "pn_counter \<Rightarrow> u64 \<Rightarrow> pn_counter" where
  "PNCounter_dec c delta = c\<lparr>pn_decrements := saturating_add (pn_decrements c) delta\<rparr>"

definition PNCounter_merge :: "pn_counter \<Rightarrow> pn_counter \<Rightarrow> pn_counter" where
  "PNCounter_merge c other =
     (let c1 = (if pn_increments other > pn_increments c
                then c\<lparr>pn_increments := pn_increments other\<rparr> else c)
      in if pn_decrements other > pn_decrements c1
         then c1\<lparr>pn_decrements := pn_decrements other\<rparr> else c1)"

locale state_crdt =
  fixes merge :: "'s \<Rightarrow> 's \<Rightarrow> 's"
  assumes merge_comm: "merge a b = merge b a"
    and merge_assoc: "merge (merge a b) c = merge a (merge b c)"
    and merge_idem: "merge a a = a"
begin

lemma merge_left_comm: "merge a (merge b c) = merge b (merge a c)"
  by (metis merge_comm merge_assoc)

lemma merge_left_idem: "merge a (merge a b) = merge a b"
  by (metis merge_assoc merge_idem)

lemma comp_fun_idem_merge: "comp_fun_idem_on UNIV merge"
  by unfold_locales (auto simp: fun_eq_iff merge_left_comm merge_left_idem)

lemma merge_same_states:
  assumes "set xs = set ys"
  shows "fold merge xs s = fold merge ys s"
  using comp_fun_idem_on.fold_set_fold [OF comp_fun_idem_merge, of xs s]
    comp_fun_idem_on.fold_set_fold [OF comp_fun_idem_merge, of ys s] assms by simp

end

lemma PNCounter_merge_max:
  "PNCounter_merge c d =
     \<lparr>pn_increments = max (pn_increments c) (pn_increments d),
      pn_decrements = max (pn_decrements c) (pn_decrements d)\<rparr>"
  by (simp add: PNCounter_merge_def Let_def max_def not_less)

interpretation pn: state_crdt PNCounter_merge
  by unfold_locales (simp_all add: PNCounter_merge_max max.commute max.assoc max.left_commute)

section \<open>Add-wins observed-remove set\<close>

record dot =
  dot_replica_id :: u16
  dot_counter :: u64

record awor_entry =
  ae_key :: u64
  ae_dot :: dot
  ae_occupied :: bool

record aworset =
  aw_replica_id :: u16
  aw_local_counter :: u64
  aw_element_count :: u16
  aw_tombstone_count :: u16
  aw_elements :: "awor_entry list"
  aw_tombstones :: "dot list"

definition AWORSET_CAPACITY :: nat where
  "AWORSET_CAPACITY = 256"

definition AWORSET_TOMBSTONE_CAPACITY :: nat where
  "AWORSET_TOMBSTONE_CAPACITY = 128"

definition AWORSet_new :: "u16 \<Rightarrow> aworset" where
  "AWORSet_new replica_id =
     \<lparr>aw_replica_id = replica_id, aw_local_counter = 0, aw_element_count = 0,
      aw_tombstone_count = 0,
      aw_elements = replicate AWORSET_CAPACITY
        \<lparr>ae_key = 0, ae_dot = \<lparr>dot_replica_id = 0, dot_counter = 0\<rparr>, ae_occupied = False\<rparr>,
      aw_tombstones = replicate AWORSET_TOMBSTONE_CAPACITY \<lparr>dot_replica_id = 0, dot_counter = 0\<rparr>\<rparr>"

definition AWORSet_len :: "aworset \<Rightarrow> u16" where
  "AWORSet_len s = aw_element_count s"

definition AWORSet_is_empty :: "aworset \<Rightarrow> bool" where
  "AWORSet_is_empty s \<longleftrightarrow> aw_element_count s = 0"

definition AWORSet_contains :: "aworset \<Rightarrow> u64 \<Rightarrow> bool" where
  "AWORSet_contains s key = list_ex (\<lambda>e. ae_occupied e \<and> ae_key e = key) (aw_elements s)"

definition AWORSet_keys :: "aworset \<Rightarrow> u64 list" where
  "AWORSet_keys s = map ae_key (filter ae_occupied (aw_elements s))"

text \<open>The two scans of the element buffer: the slot of a key, and the first free slot.\<close>

definition key_slot :: "awor_entry list \<Rightarrow> u64 \<Rightarrow> nat option" where
  "key_slot es key = position (\<lambda>e. ae_occupied e \<and> ae_key e = key) es"

definition free_slot :: "awor_entry list \<Rightarrow> nat option" where
  "free_slot es = position (\<lambda>e. \<not> ae_occupied e) es"

definition AWORSet_add :: "aworset \<Rightarrow> u64 \<Rightarrow> aworset \<times> dot option" where
  "AWORSet_add s key =
     (let s = s\<lparr>aw_local_counter := saturating_add (aw_local_counter s) 1\<rparr>;
          d = \<lparr>dot_replica_id = aw_replica_id s, dot_counter = aw_local_counter s\<rparr>;
          es = aw_elements s
      in case key_slot es key of
           Some i \<Rightarrow> (s\<lparr>aw_elements := es[i := (es ! i)\<lparr>ae_dot := d\<rparr>]\<rparr>, Some d)
         | None \<Rightarrow>
             if unat (aw_element_count s) \<ge> AWORSET_CAPACITY then (s, None)
             else case free_slot es of
                    Some i \<Rightarrow>
                      (s\<lparr>aw_elements := es[i := \<lparr>ae_key = key, ae_dot = d, ae_occupied = True\<rparr>],
                         aw_element_count := aw_element_count s + 1\<rparr>, Some d)
                  | None \<Rightarrow> (s, None))"

definition AWORSet_remove :: "aworset \<Rightarrow> u64 \<Rightarrow> aworset \<times> bool" where
  "AWORSet_remove s key =
     (case key_slot (aw_elements s) key of
        Some idx \<Rightarrow>
          let es = aw_elements s;
              removed_dot = ae_dot (es ! idx);
              s = s\<lparr>aw_elements := es[idx := (es ! idx)\<lparr>ae_occupied := False, ae_key := 0\<rparr>],
                    aw_element_count := aw_element_count s - 1\<rparr>
          in (if unat (aw_tombstone_count s) < AWORSET_TOMBSTONE_CAPACITY
              then s\<lparr>aw_tombstones := (aw_tombstones s)[unat (aw_tombstone_count s) := removed_dot],
                     aw_tombstone_count := aw_tombstone_count s + 1\<rparr>
              else s, True)
      | None \<Rightarrow> (s, False))"

definition tombstoned :: "aworset \<Rightarrow> dot \<Rightarrow> bool" where
  "tombstoned s d = list_ex (\<lambda>t. dot_replica_id t = dot_replica_id d \<and> dot_counter t = dot_counter d)
     (take (unat (aw_tombstone_count s)) (aw_tombstones s))"

text \<open>One iteration of the first loop of \<open>merge\<close>, and one of the second.\<close>

definition merge_element :: "awor_entry \<Rightarrow> aworset \<Rightarrow> aworset" where
  "merge_element oe s =
     (if \<not> ae_occupied oe then s
      else let es = aw_elements s in
        case key_slot es (ae_key oe) of
          Some i \<Rightarrow>
            if dot_counter (ae_dot oe) > dot_counter (ae_dot (es ! i))
            then s\<lparr>aw_elements := es[i := (es ! i)\<lparr>ae_dot := ae_dot oe\<rparr>]\<rparr> else s
        | None \<Rightarrow>
            if tombstoned s (ae_dot oe) then s
            else if unat (aw_element_count s) < AWORSET_CAPACITY
            then (case free_slot es of
                    Some i \<Rightarrow>
                      s\<lparr>aw_elements :=
                          es[i := \<lparr>ae_key = ae_key oe, ae_dot = ae_dot oe, ae_occupied = True\<rparr>],
                        aw_element_count := aw_element_count s + 1\<rparr>
                  | None \<Rightarrow> s)
            else s)"

definition merge_tombstone :: "dot \<Rightarrow> aworset \<Rightarrow> aworset" where
  "merge_tombstone ts s =
     (if unat (aw_tombstone_count s) < AWORSET_TOMBSTONE_CAPACITY \<and> \<not> tombstoned s ts
      then s\<lparr>aw_tombstones := (aw_tombstones s)[unat (aw_tombstone_count s) := ts],
             aw_tombstone_count := aw_tombstone_count s + 1\<rparr>
      else s)"

definition AWORSet_merge :: "aworset \<Rightarrow> aworset \<Rightarrow> aworset" where
  "AWORSet_merge s other =
     (let s = fold merge_element (aw_elements other) s;
          s = fold merge_tombstone
                (take (unat (aw_tombstone_count other)) (aw_tombstones other)) s
      in if aw_local_counter other > aw_local_counter s
         then s\<lparr>aw_local_counter := aw_local_counter other\<rparr> else s)"

section \<open>The set as a map from members to dots\<close>

definition awor_view :: "awor_entry \<Rightarrow> (u64 \<times> dot) option" where
  "awor_view e = (if ae_occupied e then Some (ae_key e, ae_dot e) else None)"

definition live_pairs :: "awor_entry list \<Rightarrow> (u64 \<times> dot) list" where
  "live_pairs es = live awor_view es"

definition awor_map :: "aworset \<Rightarrow> u64 \<rightharpoonup> dot" where
  "awor_map s = map_of (live_pairs (aw_elements s))"

definition awor_dots :: "aworset \<Rightarrow> dot set" where
  "awor_dots s = set (take (unat (aw_tombstone_count s)) (aw_tombstones s))"

definition awor_wf :: "aworset \<Rightarrow> bool" where
  "awor_wf s \<longleftrightarrow>
     length (aw_elements s) = AWORSET_CAPACITY
     \<and> length (aw_tombstones s) = AWORSET_TOMBSTONE_CAPACITY
     \<and> unat (aw_tombstone_count s) \<le> AWORSET_TOMBSTONE_CAPACITY
     \<and> aw_element_count s = word_of_nat (length (live_pairs (aw_elements s)))
     \<and> distinct (map fst (live_pairs (aw_elements s)))"

lemma live_pairs_simps [simp]:
  "live_pairs [] = []"
  "live_pairs (e # es) = (if ae_occupied e then [(ae_key e, ae_dot e)] else []) @ live_pairs es"
  by (simp_all add: live_pairs_def awor_view_def)

lemma length_live_pairs: "length (live_pairs es) \<le> length es"
  by (simp add: live_pairs_def length_live)

lemma key_slot_view: "key_slot es k = position (key_at awor_view k) es"
  unfolding key_slot_def by (rule arg_cong [of _ _ "\<lambda>P. position P es"])
    (auto simp: fun_eq_iff key_at_def awor_view_def)

lemma key_slot_None: "key_slot es k = None \<longleftrightarrow> k \<notin> fst ` set (live_pairs es)"
  by (simp add: key_slot_view live_pairs_def key_at_None)

lemma free_slot_None: "free_slot es = None \<Longrightarrow> length (live_pairs es) = length es"
  by (simp add: free_slot_def live_pairs_def live_full awor_view_def)

lemma contains_iff: "AWORSet_contains s k \<longleftrightarrow> k \<in> dom (awor_map s)"
proof -
  have "AWORSet_contains s k \<longleftrightarrow> k \<in> fst ` set (live_pairs (aw_elements s))"
    by (force simp: AWORSet_contains_def live_pairs_def set_live awor_view_def list_ex_iff)
  then show ?thesis
    by (simp add: awor_map_def dom_map_of_conv_image_fst)
qed

lemma dot_eq_iff: "d = e \<longleftrightarrow> dot_replica_id d = dot_replica_id e \<and> dot_counter d = dot_counter e"
  for d e :: dot
  by (cases d; cases e) simp

lemma tombstoned_iff: "tombstoned s d \<longleftrightarrow> d \<in> awor_dots s"
  unfolding tombstoned_def dot_eq_iff [symmetric] by (auto simp: awor_dots_def list_ex_iff)

section \<open>What the operations do to the buffer\<close>

lemma redot_pairs:
  assumes "key_slot es k = Some i"
  shows "map_of (live_pairs (es[i := (es ! i)\<lparr>ae_dot := d\<rparr>])) = (map_of (live_pairs es))(k \<mapsto> d)"
    and "map fst (live_pairs (es[i := (es ! i)\<lparr>ae_dot := d\<rparr>])) = map fst (live_pairs es)"
proof -
  have "awor_view ((es ! i)\<lparr>ae_dot := d\<rparr>) = Some (k, d)"
    using position_SomeD(2) [OF assms [unfolded key_slot_def]] by (simp add: awor_view_def)
  from live_overwrite [OF assms [unfolded key_slot_view] this]
  show "map_of (live_pairs (es[i := (es ! i)\<lparr>ae_dot := d\<rparr>])) = (map_of (live_pairs es))(k \<mapsto> d)"
    and "map fst (live_pairs (es[i := (es ! i)\<lparr>ae_dot := d\<rparr>])) = map fst (live_pairs es)"
    by (simp_all add: live_pairs_def)
qed

lemma occupy_pairs:
  assumes "free_slot es = Some i" and "k \<notin> fst ` set (live_pairs es)"
    and "ae_occupied x" and "ae_key x = k"
  shows "map_of (live_pairs (es[i := x])) = (map_of (live_pairs es))(k \<mapsto> ae_dot x)"
    and "length (live_pairs (es[i := x])) = Suc (length (live_pairs es))"
    and "distinct (map fst (live_pairs es)) \<Longrightarrow> distinct (map fst (live_pairs (es[i := x])))"
  using position_SomeD(1,2) [OF assms(1) [unfolded free_slot_def]] assms(2-4)
    live_occupy [of i es awor_view k x "ae_dot x"]
  by (simp_all add: live_pairs_def awor_view_def)

lemma vacate_pairs:
  assumes "key_slot es k = Some i" and "distinct (map fst (live_pairs es))" and "\<not> ae_occupied x"
  shows "map_of (live_pairs (es[i := x])) = (map_of (live_pairs es))(k := None)"
    and "Suc (length (live_pairs (es[i := x]))) = length (live_pairs es)"
    and "distinct (map fst (live_pairs (es[i := x])))"
    and "map_of (live_pairs es) k = Some (ae_dot (es ! i))"
  using live_vacate [OF assms(1) [unfolded key_slot_view], of x] assms(2,3)
    live_lookup(1) [OF assms(1) [unfolded key_slot_view]]
    position_SomeD(2) [OF assms(1) [unfolded key_slot_def]]
  by (auto simp: live_pairs_def awor_view_def)

section \<open>The set operations\<close>

lemma live_count_less:
  assumes "awor_wf s"
  shows "unat (aw_element_count s) = length (live_pairs (aw_elements s))"
    and "length (live_pairs (aw_elements s)) \<le> 256"
  using assms length_live_pairs [of "aw_elements s"]
  by (auto simp: awor_wf_def AWORSET_CAPACITY_def unat_of_nat)

lemma card_dom_awor_map:
  assumes "awor_wf s"
  shows "card (dom (awor_map s)) = length (live_pairs (aw_elements s))"
proof -
  have "card (dom (awor_map s)) = card (set (map fst (live_pairs (aw_elements s))))"
    by (simp add: awor_map_def dom_map_of_conv_image_fst)
  also have "\<dots> = length (map fst (live_pairs (aw_elements s)))"
    using assms by (intro distinct_card) (simp add: awor_wf_def)
  finally show ?thesis by simp
qed

lemma dom_awor_map: "dom (awor_map s) = fst ` set (live_pairs (aw_elements s))"
  by (simp add: awor_map_def dom_map_of_conv_image_fst)

lemma finite_dom_awor_map [simp]: "finite (dom (awor_map s))"
  by (simp add: dom_awor_map)

lemma len_is_card:
  "awor_wf s \<Longrightarrow> unat (AWORSet_len s) = card (dom (awor_map s))"
  by (simp add: AWORSet_len_def live_count_less card_dom_awor_map)

lemma live_pairs_new [simp]: "live_pairs (aw_elements (AWORSet_new r)) = []"
  by (simp add: live_pairs_def AWORSet_new_def live_None awor_view_def)

lemma awor_wf_new [velocity_wf]: "awor_wf (AWORSet_new r)"
  unfolding awor_wf_def live_pairs_new by (simp add: AWORSet_new_def)

lemma awor_map_new [simp]: "awor_map (AWORSet_new r) = Map.empty"
  by (simp add: awor_map_def)

lemma awor_dots_new [simp]: "awor_dots (AWORSet_new r) = {}"
  by (simp add: awor_dots_def AWORSet_new_def)

text \<open>A well-formed set with fewer members than slots has a free slot.\<close>

lemma free_slot_ex:
  assumes "awor_wf s" and "card (dom (awor_map s)) < 256"
  obtains i where "free_slot (aw_elements s) = Some i"
  using assms free_slot_None [of "aw_elements s"]
  by (cases "free_slot (aw_elements s)")
     (auto simp: card_dom_awor_map awor_wf_def AWORSET_CAPACITY_def)

text \<open>The dot \<open>add\<close> assigns.\<close>

definition next_dot :: "aworset \<Rightarrow> dot" where
  "next_dot s = \<lparr>dot_replica_id = aw_replica_id s,
                 dot_counter = saturating_add (aw_local_counter s) 1\<rparr>"

lemma add_present:
  assumes "awor_wf s" and "k \<in> dom (awor_map s)" and "AWORSet_add s k = (s', r)"
  shows "r = Some (next_dot s)" and "awor_map s' = (awor_map s)(k \<mapsto> next_dot s)"
    and "awor_wf s'" and "awor_dots s' = awor_dots s"
proof -
  obtain i where i: "key_slot (aw_elements s) k = Some i"
    using assms(2) key_slot_None [of "aw_elements s" k] by (auto simp: dom_awor_map)
  then have s': "s' = s\<lparr>aw_local_counter := saturating_add (aw_local_counter s) 1,
      aw_elements := (aw_elements s)[i := (aw_elements s ! i)\<lparr>ae_dot := next_dot s\<rparr>]\<rparr>"
    and r: "r = Some (next_dot s)"
    using assms(3) by (auto simp: AWORSet_add_def Let_def next_dot_def)
  show "r = Some (next_dot s)" by (rule r)
  show "awor_map s' = (awor_map s)(k \<mapsto> next_dot s)"
    using redot_pairs(1) [OF i] by (simp add: s' awor_map_def)
  show "awor_wf s'"
    using assms(1) redot_pairs(2) [OF i, of "next_dot s"]
    by (auto simp: s' awor_wf_def dest: arg_cong [where f = length])
  show "awor_dots s' = awor_dots s" by (simp add: s' awor_dots_def)
qed

lemma add_absent:
  assumes "awor_wf s" and "k \<notin> dom (awor_map s)" and "card (dom (awor_map s)) < 256"
    and "AWORSet_add s k = (s', r)"
  shows "r = Some (next_dot s)" and "awor_map s' = (awor_map s)(k \<mapsto> next_dot s)"
    and "awor_wf s'" and "awor_dots s' = awor_dots s"
proof -
  obtain i where i: "free_slot (aw_elements s) = Some i"
    using assms(1,3) by (rule free_slot_ex)
  let ?x = "\<lparr>ae_key = k, ae_dot = next_dot s, ae_occupied = True\<rparr>"
  have k: "k \<notin> fst ` set (live_pairs (aw_elements s))"
    using assms(2) by (simp add: dom_awor_map)
  have count: "unat (aw_element_count s) < 256"
    using assms(1,3) by (simp add: live_count_less card_dom_awor_map)
  have s': "s' = s\<lparr>aw_local_counter := saturating_add (aw_local_counter s) 1,
      aw_elements := (aw_elements s)[i := ?x], aw_element_count := aw_element_count s + 1\<rparr>"
    and r: "r = Some (next_dot s)"
    using assms(4) i k count
    by (auto simp: AWORSet_add_def Let_def next_dot_def key_slot_None [symmetric] AWORSET_CAPACITY_def)
  note occ = occupy_pairs [OF i k, of ?x, simplified]
  show "r = Some (next_dot s)" by (rule r)
  show "awor_map s' = (awor_map s)(k \<mapsto> next_dot s)"
    using occ(1) by (simp add: s' awor_map_def)
  show "awor_wf s'"
    using assms(1) occ(2,3) by (simp add: s' awor_wf_def)
  show "awor_dots s' = awor_dots s" by (simp add: s' awor_dots_def)
qed

lemma add_full:
  assumes "awor_wf s" and "k \<notin> dom (awor_map s)" and "card (dom (awor_map s)) = 256"
    and "AWORSet_add s k = (s', r)"
  shows "r = None" and "awor_map s' = awor_map s" and "awor_wf s'" and "awor_dots s' = awor_dots s"
proof -
  have k: "key_slot (aw_elements s) k = None"
    using assms(2) by (simp add: dom_awor_map key_slot_None)
  have "256 \<le> unat (aw_element_count s)"
    using assms(1,3) by (simp add: live_count_less card_dom_awor_map)
  then have s': "s' = s\<lparr>aw_local_counter := saturating_add (aw_local_counter s) 1\<rparr>" and "r = None"
    using assms(4) k by (auto simp: AWORSet_add_def Let_def AWORSET_CAPACITY_def)
  then show "r = None" "awor_map s' = awor_map s" "awor_wf s'" "awor_dots s' = awor_dots s"
    using assms(1) by (simp_all add: awor_map_def awor_wf_def awor_dots_def)
qed

lemma dots_push:
  assumes "unat (aw_tombstone_count s) < 128" and "length (aw_tombstones s) = 128"
  shows "awor_dots (s\<lparr>aw_tombstones := (aw_tombstones s)[unat (aw_tombstone_count s) := d],
            aw_tombstone_count := aw_tombstone_count s + 1\<rparr>) = insert d (awor_dots s)"
proof -
  have "unat (aw_tombstone_count s + 1) = Suc (unat (aw_tombstone_count s))"
    using assms(1) by (simp add: unat_word_ariths)
  then show ?thesis
    using assms by (simp add: awor_dots_def take_Suc_conv_app_nth)
qed

lemma remove_present:
  assumes "awor_wf s" and "awor_map s k = Some d" and "AWORSet_remove s k = (s', r)"
  shows "r" and "awor_map s' = (awor_map s)(k := None)" and "awor_wf s'"
    and "awor_dots s' =
         (if unat (aw_tombstone_count s) < 128 then insert d (awor_dots s) else awor_dots s)"
proof -
  obtain i where i: "key_slot (aw_elements s) k = Some i"
    using assms(2) key_slot_None [of "aw_elements s" k] by (auto simp: dom_awor_map [symmetric])
  let ?x = "(aw_elements s ! i)\<lparr>ae_occupied := False, ae_key := 0\<rparr>"
  let ?s = "s\<lparr>aw_elements := (aw_elements s)[i := ?x], aw_element_count := aw_element_count s - 1\<rparr>"
  have dist: "distinct (map fst (live_pairs (aw_elements s)))"
    using assms(1) by (simp add: awor_wf_def)
  note vac = vacate_pairs [OF i dist, of ?x, simplified]
  have d: "d = ae_dot (aw_elements s ! i)"
    using vac(4) assms(2) by (simp add: awor_map_def)
  have s': "s' = (if unat (aw_tombstone_count s) < 128
       then ?s\<lparr>aw_tombstones := (aw_tombstones ?s)[unat (aw_tombstone_count ?s) := d],
               aw_tombstone_count := aw_tombstone_count ?s + 1\<rparr> else ?s)" and "r"
    using assms(3) i by (auto simp: AWORSet_remove_def Let_def AWORSET_TOMBSTONE_CAPACITY_def d)
  show r by fact
  have count: "aw_element_count s - 1 = word_of_nat (length (live_pairs ((aw_elements s)[i := ?x])))"
    using assms(1) unfolding awor_wf_def vac(2) [symmetric] by simp
  show "awor_map s' = (awor_map s)(k := None)"
    using vac(1) by (simp add: s' awor_map_def)
  have tc: "unat (aw_tombstone_count s + 1) \<le> 128" if "unat (aw_tombstone_count s) < 128"
    using that by (simp add: unat_word_ariths)
  show "awor_wf s'"
    using assms(1) vac(3) count tc
    by (auto simp: s' awor_wf_def AWORSET_TOMBSTONE_CAPACITY_def)
  have "awor_dots ?s = awor_dots s" by (simp add: awor_dots_def)
  then show "awor_dots s' =
         (if unat (aw_tombstone_count s) < 128 then insert d (awor_dots s) else awor_dots s)"
    using dots_push [of ?s d] assms(1)
    by (simp add: s' awor_wf_def AWORSET_TOMBSTONE_CAPACITY_def)
qed

lemma remove_absent:
  "k \<notin> dom (awor_map s) \<Longrightarrow> AWORSet_remove s k = (s, False)"
  by (simp add: AWORSet_remove_def dom_awor_map key_slot_None [symmetric])

section \<open>Merging\<close>

text \<open>
  What \<open>merge\<close> makes of one key, from the local dot, the remote dot and the local
  tombstones: the documented rule of the loop body.
\<close>

fun merge_cell :: "dot set \<Rightarrow> dot option \<Rightarrow> dot option \<Rightarrow> dot option" where
  "merge_cell T x None = x"
| "merge_cell T None (Some d') = (if d' \<in> T then None else Some d')"
| "merge_cell T (Some d) (Some d') = Some (if dot_counter d' > dot_counter d then d' else d)"

lemma merge_element_vacant [simp]: "\<not> ae_occupied oe \<Longrightarrow> merge_element oe s = s"
  by (simp add: merge_element_def)

lemma merge_element_spec:
  assumes "awor_wf s" and "ae_occupied oe" and "card (insert (ae_key oe) (dom (awor_map s))) \<le> 256"
  shows "awor_map (merge_element oe s) = (awor_map s)(ae_key oe :=
           merge_cell (awor_dots s) (awor_map s (ae_key oe)) (Some (ae_dot oe)))"
    and "awor_wf (merge_element oe s)" and "awor_dots (merge_element oe s) = awor_dots s"
    and "aw_local_counter (merge_element oe s) = aw_local_counter s"
proof -
  let ?k = "ae_key oe" and ?s' = "merge_element oe s"
  have "awor_map ?s' = (awor_map s)(?k := merge_cell (awor_dots s) (awor_map s ?k) (Some (ae_dot oe)))
      \<and> awor_wf ?s' \<and> awor_dots ?s' = awor_dots s \<and> aw_local_counter ?s' = aw_local_counter s"
  proof (cases "key_slot (aw_elements s) ?k")
    case (Some i)
    have dist: "distinct (map fst (live_pairs (aw_elements s)))"
      using assms(1) by (simp add: awor_wf_def)
    have d: "awor_map s ?k = Some (ae_dot (aw_elements s ! i))"
      using vacate_pairs(4) [OF Some dist, of "ae_occupied_update (\<lambda>_. False) oe"]
      by (simp add: awor_map_def)
    have len: "length (live_pairs ((aw_elements s)[i := (aw_elements s ! i)\<lparr>ae_dot := ae_dot oe\<rparr>]))
       = length (live_pairs (aw_elements s))"
      using redot_pairs(2) [OF Some, of "ae_dot oe"] by (metis length_map)
    show ?thesis
      using assms(1,2) redot_pairs [OF Some, of "ae_dot oe"] d len
      by (auto simp: merge_element_def Let_def Some awor_map_def awor_wf_def awor_dots_def fun_upd_idem)
  next
    case None
    then have k: "?k \<notin> dom (awor_map s)" and k': "?k \<notin> fst ` set (live_pairs (aw_elements s))"
      by (simp_all add: key_slot_None dom_awor_map)
    with assms(3) have room: "card (dom (awor_map s)) < 256" by simp
    then obtain i where i: "free_slot (aw_elements s) = Some i"
      using assms(1) by (metis free_slot_ex)
    have count: "unat (aw_element_count s) < 256"
      using assms(1) room by (simp add: live_count_less card_dom_awor_map)
    note occ = occupy_pairs [OF i k', of "\<lparr>ae_key = ?k, ae_dot = ae_dot oe, ae_occupied = True\<rparr>",
        simplified]
    have "awor_map s ?k = None" using k by auto
    then show ?thesis
      using assms(1,2) None i count occ
      by (auto simp: merge_element_def Let_def AWORSET_CAPACITY_def tombstoned_iff awor_map_def
          awor_wf_def awor_dots_def fun_upd_idem)
  qed
  then show "awor_map ?s' = (awor_map s)(?k := merge_cell (awor_dots s) (awor_map s ?k) (Some (ae_dot oe)))"
    and "awor_wf ?s'" and "awor_dots ?s' = awor_dots s"
    and "aw_local_counter ?s' = aw_local_counter s"
    by simp_all
qed

lemma dom_merge_element:
  assumes "awor_wf s" and "ae_occupied oe" and "card (insert (ae_key oe) (dom (awor_map s))) \<le> 256"
  shows "dom (awor_map (merge_element oe s)) \<subseteq> insert (ae_key oe) (dom (awor_map s))"
  by (auto simp: merge_element_spec [OF assms] split: if_splits)

lemma fold_merge_element_spec:
  assumes "awor_wf s" and "distinct (map fst (live_pairs oes))"
    and "card (dom (awor_map s) \<union> fst ` set (live_pairs oes)) \<le> 256"
  shows "awor_wf (fold merge_element oes s)
    \<and> awor_dots (fold merge_element oes s) = awor_dots s
    \<and> aw_local_counter (fold merge_element oes s) = aw_local_counter s
    \<and> (\<forall>k. awor_map (fold merge_element oes s) k =
           merge_cell (awor_dots s) (awor_map s k) (map_of (live_pairs oes) k))"
  using assms
proof (induction oes arbitrary: s)
  case Nil
  then show ?case by simp
next
  case (Cons oe oes)
  show ?case
  proof (cases "ae_occupied oe")
    case False
    then show ?thesis using Cons by simp
  next
    case True
    let ?k = "ae_key oe"
    have "card (insert ?k (dom (awor_map s)))
        \<le> card (dom (awor_map s) \<union> fst ` set (live_pairs (oe # oes)))"
      using True by (intro card_mono) auto
    then have room: "card (insert ?k (dom (awor_map s))) \<le> 256"
      using Cons.prems(3) by linarith
    note step = merge_element_spec [OF Cons.prems(1) True room]
    have "card (dom (awor_map (merge_element oe s)) \<union> fst ` set (live_pairs oes))
        \<le> card (dom (awor_map s) \<union> fst ` set (live_pairs (oe # oes)))"
      using True dom_merge_element [OF Cons.prems(1) True room] by (intro card_mono) auto
    then have room': "card (dom (awor_map (merge_element oe s)) \<union> fst ` set (live_pairs oes)) \<le> 256"
      using Cons.prems(3) by linarith
    have k: "?k \<notin> fst ` set (live_pairs oes)" and dist: "distinct (map fst (live_pairs oes))"
      using Cons.prems(2) True by auto
    have "map_of (live_pairs oes) ?k = None"
      using k by (simp add: map_of_eq_None_iff)
    then show ?thesis
      using Cons.IH [OF step(2) dist room'] step True by (auto simp: fun_upd_def)
  qed
qed

lemma merge_tombstone_frame [simp]:
  "aw_elements (merge_tombstone t s) = aw_elements s"
  "aw_element_count (merge_tombstone t s) = aw_element_count s"
  "aw_local_counter (merge_tombstone t s) = aw_local_counter s"
  by (simp_all add: merge_tombstone_def)

lemma fold_merge_tombstone_frame [simp]:
  "aw_elements (fold merge_tombstone ts s) = aw_elements s"
  "aw_element_count (fold merge_tombstone ts s) = aw_element_count s"
  "aw_local_counter (fold merge_tombstone ts s) = aw_local_counter s"
  by (induction ts arbitrary: s) simp_all

lemma merge_tombstone_wf:
  assumes "awor_wf s"
  shows "awor_wf (merge_tombstone t s)" and "awor_dots s \<subseteq> awor_dots (merge_tombstone t s)"
    and "awor_dots (merge_tombstone t s) \<subseteq> insert t (awor_dots s)"
proof -
  have "unat (aw_tombstone_count s + 1) \<le> 128" if "unat (aw_tombstone_count s) < 128"
    using that by (simp add: unat_word_ariths)
  then show "awor_wf (merge_tombstone t s)"
    using assms by (simp add: merge_tombstone_def awor_wf_def AWORSET_TOMBSTONE_CAPACITY_def)
  show "awor_dots s \<subseteq> awor_dots (merge_tombstone t s)"
    and "awor_dots (merge_tombstone t s) \<subseteq> insert t (awor_dots s)"
    using assms dots_push [of s t]
    by (auto simp: merge_tombstone_def awor_wf_def AWORSET_TOMBSTONE_CAPACITY_def)
qed

lemma fold_merge_tombstone_wf:
  "awor_wf s \<Longrightarrow> awor_wf (fold merge_tombstone ts s)
     \<and> awor_dots s \<subseteq> awor_dots (fold merge_tombstone ts s)
     \<and> awor_dots (fold merge_tombstone ts s) \<subseteq> awor_dots s \<union> set ts"
proof (induction ts arbitrary: s)
  case (Cons t ts)
  show ?case
    using Cons.IH [OF merge_tombstone_wf(1) [OF Cons.prems, of t]] merge_tombstone_wf(2,3) [OF Cons.prems, of t]
    by auto
qed simp

lemma awor_map_cong: "aw_elements s = aw_elements t \<Longrightarrow> awor_map s = awor_map t"
  by (simp add: awor_map_def)

lemma merge_spec:
  assumes "awor_wf a" and "awor_wf b" and "card (dom (awor_map a) \<union> dom (awor_map b)) \<le> 256"
  shows "awor_wf (AWORSet_merge a b)"
    and "awor_map (AWORSet_merge a b) k = merge_cell (awor_dots a) (awor_map a k) (awor_map b k)"
    and "awor_dots a \<subseteq> awor_dots (AWORSet_merge a b)"
    and "awor_dots (AWORSet_merge a b) \<subseteq> awor_dots a \<union> awor_dots b"
    and "aw_local_counter (AWORSet_merge a b) = max (aw_local_counter a) (aw_local_counter b)"
proof -
  let ?a1 = "fold merge_element (aw_elements b) a"
  let ?a2 = "fold merge_tombstone (take (unat (aw_tombstone_count b)) (aw_tombstones b)) ?a1"
  have el: "awor_wf ?a1 \<and> awor_dots ?a1 = awor_dots a \<and> aw_local_counter ?a1 = aw_local_counter a
    \<and> (\<forall>k. awor_map ?a1 k = merge_cell (awor_dots a) (awor_map a k) (awor_map b k))"
    using fold_merge_element_spec [of a "aw_elements b"] assms
    by (simp add: awor_map_def [of b] awor_wf_def [of b] dom_awor_map [of b] dom_map_of_conv_image_fst)
  have ts: "awor_wf ?a2 \<and> awor_dots ?a1 \<subseteq> awor_dots ?a2 \<and> awor_dots ?a2 \<subseteq> awor_dots ?a1 \<union> awor_dots b"
    using fold_merge_tombstone_wf [of ?a1] el by (simp add: awor_dots_def [of b])
  have m: "AWORSet_merge a b = ?a2\<lparr>aw_local_counter := max (aw_local_counter a) (aw_local_counter b)\<rparr>"
    using el by (simp add: AWORSet_merge_def Let_def max_def)
  have "awor_map ?a2 = awor_map ?a1" by (rule awor_map_cong) simp
  then show "awor_map (AWORSet_merge a b) k = merge_cell (awor_dots a) (awor_map a k) (awor_map b k)"
    using el by (simp add: m awor_map_def)
  show "awor_wf (AWORSet_merge a b)"
    using ts by (simp add: m awor_wf_def)
  show "awor_dots a \<subseteq> awor_dots (AWORSet_merge a b)"
    and "awor_dots (AWORSet_merge a b) \<subseteq> awor_dots a \<union> awor_dots b"
    using ts el by (auto simp: m awor_dots_def)
  show "aw_local_counter (AWORSet_merge a b) = max (aw_local_counter a) (aw_local_counter b)"
    by (simp add: m)
qed

lemma card_union_le_256:
  "awor_wf a \<Longrightarrow> dom (awor_map b) \<subseteq> dom (awor_map a) \<Longrightarrow> card (dom (awor_map a) \<union> dom (awor_map b)) \<le> 256"
  using live_count_less(2) [of a] by (simp add: Un_absorb2 card_dom_awor_map)

lemma merge_cell_None: "merge_cell T x y = None \<longleftrightarrow> x = None \<and> (case y of None \<Rightarrow> True | Some d \<Rightarrow> d \<in> T)"
  by (cases x; cases y) auto

section \<open>Properties\<close>

text \<open>
  Counter replicas converge: folding \<open>merge\<close> over two lists of received states gives
  the same counter, and so the same value, whenever the lists hold the same states, in
  whatever order and with whatever repetitions they arrived.
\<close>

theorem pn_counter_converges:
  assumes "set xs = set ys"
  shows "fold PNCounter_merge xs c = fold PNCounter_merge ys c
    \<and> PNCounter_value (fold PNCounter_merge xs c) = PNCounter_value (fold PNCounter_merge ys c)"
  using pn.merge_same_states [OF assms] by simp

theorem pn_counter_converges_witness:
  "PNCounter_value (fold PNCounter_merge
       [PNCounter_inc PNCounter_new 3, PNCounter_dec PNCounter_new 5] PNCounter_new) =
   PNCounter_value (fold PNCounter_merge
       [PNCounter_dec PNCounter_new 5, PNCounter_inc PNCounter_new 3, PNCounter_dec PNCounter_new 5]
       PNCounter_new)"
  using pn_counter_converges [of "[PNCounter_inc PNCounter_new 3, PNCounter_dec PNCounter_new 5]"
      "[PNCounter_dec PNCounter_new 5, PNCounter_inc PNCounter_new 3, PNCounter_dec PNCounter_new 5]"]
  by auto

text \<open>
  \<open>AWORSet::add\<close> on every branch.  A key that is already a member, or that finds one
  of the 256 slots free, becomes a member under a dot with the incremented counter; a new
  key in a full set is refused.  No other member changes, no tombstone is touched and the
  set stays well-formed.
\<close>

theorem awor_add_correct:
  assumes "awor_wf s" and "AWORSet_add s k = (s', r)"
  shows "awor_wf s' \<and> awor_dots s' = awor_dots s \<and>
    (if k \<in> dom (awor_map s) \<or> card (dom (awor_map s)) < 256
     then r = Some (next_dot s) \<and> awor_map s' = (awor_map s)(k \<mapsto> next_dot s)
     else r = None \<and> awor_map s' = awor_map s)"
proof -
  have "card (dom (awor_map s)) \<le> 256"
    using live_count_less [OF assms(1)] card_dom_awor_map [OF assms(1)] by simp
  then consider "k \<in> dom (awor_map s)" | "k \<notin> dom (awor_map s)" "card (dom (awor_map s)) < 256"
    | "k \<notin> dom (awor_map s)" "card (dom (awor_map s)) = 256"
    by linarith
  then show ?thesis
  proof cases
    case 1 then show ?thesis using add_present [OF assms(1) 1 assms(2)] by simp
  next
    case 2 then show ?thesis using add_absent [OF assms(1) 2 assms(2)] by simp
  next
    case 3 then show ?thesis using add_full [OF assms(1) 3 assms(2)] by simp
  qed
qed

theorem awor_add_correct_witness:
  "dom (awor_map (fst (AWORSet_add (AWORSet_new 3) 7))) = {7}"
  using awor_add_correct [OF awor_wf_new surjective_pairing, of 3 7] by simp

text \<open>
  C5.  Two replicas with at most 256 members between them, the capacity of a set, neither of which
  has removed a dot under which the other holds a member, agree on the members after merging in
  either direction: the union of their members.  Both results are well-formed.  Beyond the capacity
  a merge drops elements, and the two directions may keep different ones.
\<close>

theorem awor_merge_members_converge:
  assumes "awor_wf a" and "awor_wf b" and "card (dom (awor_map a) \<union> dom (awor_map b)) \<le> 256"
    and "ran (awor_map b) \<inter> awor_dots a = {}" and "ran (awor_map a) \<inter> awor_dots b = {}"
  shows "awor_wf (AWORSet_merge a b) \<and> awor_wf (AWORSet_merge b a)
    \<and> (\<forall>k. AWORSet_contains (AWORSet_merge a b) k \<longleftrightarrow> AWORSet_contains a k \<or> AWORSet_contains b k)
    \<and> (\<forall>k. AWORSet_contains (AWORSet_merge b a) k \<longleftrightarrow> AWORSet_contains a k \<or> AWORSet_contains b k)"
proof -
  have mem: "AWORSet_contains (AWORSet_merge a b) k \<longleftrightarrow> AWORSet_contains a k \<or> AWORSet_contains b k"
    if "awor_wf a" "awor_wf b" "card (dom (awor_map a) \<union> dom (awor_map b)) \<le> 256"
      "ran (awor_map b) \<inter> awor_dots a = {}" for a b k
    using that(4) merge_spec(2) [OF that(1-3), of k] merge_cell_None [of "awor_dots a" "awor_map a k"]
    by (auto simp: contains_iff domIff ran_def split: option.splits)
  show ?thesis
    using mem [OF assms(1-4)] mem [OF assms(2,1) _ assms(5)] merge_spec(1) [OF assms(1-3)]
      merge_spec(1) [OF assms(2,1)] assms(3) by (auto simp: Un_commute)
qed

theorem awor_merge_members_converge_witness:
  "AWORSet_contains (AWORSet_merge (fst (AWORSet_add (AWORSet_new 1) 7)) (fst (AWORSet_add (AWORSet_new 2) 8))) 8"
proof -
  let ?a = "fst (AWORSet_add (AWORSet_new 1) 7)" and ?b = "fst (AWORSet_add (AWORSet_new 2) 8)"
  have a: "awor_wf ?a" "awor_map ?a = [7 \<mapsto> next_dot (AWORSet_new 1)]" "awor_dots ?a = {}"
    using add_absent [OF awor_wf_new _ _ surjective_pairing, of 7 1] by simp_all
  have b: "awor_wf ?b" "awor_map ?b = [8 \<mapsto> next_dot (AWORSet_new 2)]" "awor_dots ?b = {}"
    using add_absent [OF awor_wf_new _ _ surjective_pairing, of 8 2] by simp_all
  show ?thesis
    using awor_merge_members_converge [OF a(1) b(1)] a b by (simp add: contains_iff)
qed

text \<open>
  What one replica removed does not come back from a replica that still holds the same
  dot, and does come back from one that re-added the key under another dot (add wins).
  The removal must have been recorded, which it is while fewer than 128 tombstones are held.
\<close>

theorem awor_remove_then_merge:
  assumes "awor_wf s" and "awor_map s k = Some d" and "unat (aw_tombstone_count s) < 128"
    and "AWORSet_remove s k = (s', r)" and "awor_wf t" and "awor_map t k = Some e"
    and "card (dom (awor_map s) \<union> dom (awor_map t)) \<le> 256" and "e \<notin> awor_dots s"
  shows "r \<and> \<not> AWORSet_contains s' k
    \<and> (AWORSet_contains (AWORSet_merge s' t) k \<longleftrightarrow> e \<noteq> d)"
proof -
  note rem = remove_present [OF assms(1,2,4)]
  have "card (dom (awor_map s') \<union> dom (awor_map t)) \<le> card (dom (awor_map s) \<union> dom (awor_map t))"
    by (intro card_mono) (auto simp: rem(2))
  then have room: "card (dom (awor_map s') \<union> dom (awor_map t)) \<le> 256"
    using assms(7) by linarith
  show ?thesis
    using rem merge_spec(2) [OF rem(3) assms(5) room, of k] assms(3,6,8)
    by (auto simp: contains_iff domIff)
qed

theorem awor_remove_then_merge_witness:
  "\<not> AWORSet_contains (AWORSet_merge (fst (AWORSet_remove (fst (AWORSet_add (AWORSet_new 1) 7)) 7))
        (fst (AWORSet_add (AWORSet_new 1) 7))) 7"
proof -
  let ?a = "fst (AWORSet_add (AWORSet_new 1) 7)"
  have a: "awor_wf ?a" "awor_map ?a = [7 \<mapsto> next_dot (AWORSet_new 1)]" "awor_dots ?a = {}"
    using add_absent [OF awor_wf_new _ _ surjective_pairing, of 7 1] by simp_all
  have tc: "aw_tombstone_count ?a = 0"
    by (simp add: AWORSet_add_def AWORSet_new_def Let_def split: option.splits)
  show ?thesis
    using awor_remove_then_merge [OF a(1) _ _ surjective_pairing a(1), of 7] a tc by simp
qed

text \<open>
  A removal never reaches a replica that still holds the key: whatever the other
  replica removed, and whatever tombstones it sends, a member of the local set is a member
  after \<open>merge\<close>.  Replicas that exchange states after a removal therefore stay apart, where
  the documentation of \<open>merge\<close> promises that the tombstoned element is removed.
\<close>

theorem awor_merge_keeps_removed_members:
  assumes "awor_wf s" and "awor_map s k = Some d" and "unat (aw_tombstone_count s) < 128"
    and "AWORSet_remove s k = (s', r)"
  shows "AWORSet_contains (AWORSet_merge s s') k \<and> \<not> AWORSet_contains (AWORSet_merge s' s) k"
proof -
  note rem = remove_present [OF assms(1,2,4)]
  have sub: "dom (awor_map s') \<subseteq> dom (awor_map s)" by (auto simp: rem(2))
  note room = card_union_le_256 [OF assms(1) sub]
  show ?thesis
    using rem assms(2,3) merge_spec(2) [OF assms(1) rem(3) room, of k]
      merge_spec(2) [OF rem(3) assms(1), of k] room
    by (auto simp: contains_iff domIff Un_commute)
qed

theorem awor_merge_keeps_removed_members_witness:
  "AWORSet_contains (AWORSet_merge (fst (AWORSet_add (AWORSet_new 1) 7))
     (fst (AWORSet_remove (fst (AWORSet_add (AWORSet_new 1) 7)) 7))) 7"
proof -
  let ?a = "fst (AWORSet_add (AWORSet_new 1) 7)"
  have a: "awor_wf ?a" "awor_map ?a = [7 \<mapsto> next_dot (AWORSet_new 1)]"
    using add_absent [OF awor_wf_new _ _ surjective_pairing, of 7 1] by simp_all
  have tc: "aw_tombstone_count ?a = 0"
    by (simp add: AWORSet_add_def AWORSet_new_def Let_def split: option.splits)
  show ?thesis
    using awor_merge_keeps_removed_members [OF a(1) _ _ surjective_pairing, of 7] a tc by simp
qed

end
