(* ===== verification/Vctp_Packet.thy ===== *)
theory Vctp_Packet
  imports Prelude
begin

text \<open>
  \<open>velocity-workflow-core/src/vctp.rs\<close>, framing: the packet header, the packet with its
  CRC-32, and the acknowledgement.  Encoding and decoding are shown to be inverse, and the
  checksum to reject every corruption of at most four consecutive bytes that leaves the
  length field alone.
\<close>

definition subslice :: "nat \<Rightarrow> nat \<Rightarrow> 'a list \<Rightarrow> 'a list" where
  "subslice a b xs = take (b - a) (drop a xs)"

lemma length_subslice [simp]: "length (subslice a b xs) = min (b - a) (length xs - a)"
  by (simp add: subslice_def)

section \<open>The header\<close>

definition VCTP_HEADER_SIZE :: nat where
  "VCTP_HEADER_SIZE = 28"

definition VCTP_MAGIC :: u32 where
  "VCTP_MAGIC = 0x50544356"

definition VCTP_ACK_MAGIC :: u32 where
  "VCTP_ACK_MAGIC = 0x4B435656"

record vctp_packet_header =
  vh_magic :: u32
  vh_sequence_number :: u64
  vh_workflow_id :: u64
  vh_slab_offset :: u32
  vh_payload_length :: u32

definition VctpPacketHeader_new :: "u64 \<Rightarrow> u64 \<Rightarrow> u32 \<Rightarrow> u32 \<Rightarrow> vctp_packet_header" where
  "VctpPacketHeader_new sequence_number workflow_id slab_offset payload_length =
     \<lparr>vh_magic = VCTP_MAGIC, vh_sequence_number = sequence_number, vh_workflow_id = workflow_id,
      vh_slab_offset = slab_offset, vh_payload_length = payload_length\<rparr>"

definition VctpPacketHeader_is_valid :: "vctp_packet_header \<Rightarrow> bool" where
  "VctpPacketHeader_is_valid h \<longleftrightarrow> vh_magic h = VCTP_MAGIC"

definition VctpPacketHeader_to_bytes :: "vctp_packet_header \<Rightarrow> bytes" where
  "VctpPacketHeader_to_bytes h =
     to_le_bytes (vh_magic h) @ to_le_bytes (vh_sequence_number h) @ to_le_bytes (vh_workflow_id h)
     @ to_le_bytes (vh_slab_offset h) @ to_le_bytes (vh_payload_length h)"

definition VctpPacketHeader_from_bytes :: "bytes \<Rightarrow> vctp_packet_header option" where
  "VctpPacketHeader_from_bytes buf =
     (if length buf < VCTP_HEADER_SIZE then None
      else let magic = from_le_bytes (subslice 0 4 buf) in
        if magic \<noteq> VCTP_MAGIC then None
        else Some \<lparr>vh_magic = magic,
                   vh_sequence_number = from_le_bytes (subslice 4 12 buf),
                   vh_workflow_id = from_le_bytes (subslice 12 20 buf),
                   vh_slab_offset = from_le_bytes (subslice 20 24 buf),
                   vh_payload_length = from_le_bytes (subslice 24 28 buf)\<rparr>)"

section \<open>The packet\<close>

record vctp_packet =
  vp_header :: vctp_packet_header
  vp_payload :: bytes
  vp_checksum :: u32

definition crc_bit :: "u32 \<Rightarrow> u32" where
  "crc_bit crc = (if crc AND 1 \<noteq> 0 then drop_bit 1 crc XOR 0xEDB88320 else drop_bit 1 crc)"

definition crc_byte :: "u8 \<Rightarrow> u32 \<Rightarrow> u32" where
  "crc_byte b crc = (crc_bit ^^ 8) (crc XOR ucast b)"

definition compute_checksum :: "vctp_packet_header \<Rightarrow> bytes \<Rightarrow> u32" where
  "compute_checksum header payload =
     NOT (fold crc_byte (VctpPacketHeader_to_bytes header @ payload) 0xFFFFFFFF)"

definition VctpPacket_new :: "vctp_packet_header \<Rightarrow> bytes \<Rightarrow> vctp_packet" where
  "VctpPacket_new header payload =
     \<lparr>vp_header = header, vp_payload = payload, vp_checksum = compute_checksum header payload\<rparr>"

definition VctpPacket_to_bytes :: "vctp_packet \<Rightarrow> bytes" where
  "VctpPacket_to_bytes p =
     VctpPacketHeader_to_bytes (vp_header p) @ vp_payload p @ to_le_bytes (vp_checksum p)"

definition verify_checksum :: "vctp_packet \<Rightarrow> bool" where
  "verify_checksum p \<longleftrightarrow> compute_checksum (vp_header p) (vp_payload p) = vp_checksum p"

definition VctpPacket_from_bytes :: "bytes \<Rightarrow> vctp_packet option" where
  "VctpPacket_from_bytes buf =
     (if length buf < VCTP_HEADER_SIZE + 4 then None
      else case VctpPacketHeader_from_bytes buf of
        None \<Rightarrow> None
      | Some header \<Rightarrow>
          let payload_end = VCTP_HEADER_SIZE + unat (vh_payload_length header) in
          if length buf < payload_end + 4 then None
          else let packet = \<lparr>vp_header = header,
                             vp_payload = subslice VCTP_HEADER_SIZE payload_end buf,
                             vp_checksum = from_le_bytes (subslice payload_end (payload_end + 4) buf)\<rparr>
               in if verify_checksum packet then Some packet else None)"

section \<open>The acknowledgement\<close>

record vctp_ack =
  va_magic :: u32
  va_ack_sequence :: u64
  va_receiver_workflow_id :: u64

definition VctpAck_new :: "u64 \<Rightarrow> u64 \<Rightarrow> vctp_ack" where
  "VctpAck_new ack_sequence workflow_id =
     \<lparr>va_magic = VCTP_ACK_MAGIC, va_ack_sequence = ack_sequence,
      va_receiver_workflow_id = workflow_id\<rparr>"

definition VctpAck_to_bytes :: "vctp_ack \<Rightarrow> bytes" where
  "VctpAck_to_bytes a =
     to_le_bytes (va_magic a) @ to_le_bytes (va_ack_sequence a)
     @ to_le_bytes (va_receiver_workflow_id a)"

definition VctpAck_from_bytes :: "bytes \<Rightarrow> vctp_ack option" where
  "VctpAck_from_bytes buf =
     (if length buf < 20 then None
      else let magic = from_le_bytes (subslice 0 4 buf) in
        if magic \<noteq> VCTP_ACK_MAGIC then None
        else Some \<lparr>va_magic = magic,
                   va_ack_sequence = from_le_bytes (subslice 4 12 buf),
                   va_receiver_workflow_id = from_le_bytes (subslice 12 20 buf)\<rparr>)"

section \<open>Framing\<close>

lemma length_header_bytes [simp]: "length (VctpPacketHeader_to_bytes h) = 28"
  by (simp add: VctpPacketHeader_to_bytes_def)

lemma header_from_to_bytes:
  "VctpPacketHeader_is_valid h \<Longrightarrow>
     VctpPacketHeader_from_bytes (VctpPacketHeader_to_bytes h @ rest) = Some h"
  by (simp add: VctpPacketHeader_from_bytes_def VctpPacketHeader_to_bytes_def subslice_def
      VCTP_HEADER_SIZE_def VctpPacketHeader_is_valid_def)

lemma le_bytes_of_slice:
  "length bs = 4 \<Longrightarrow> to_le_bytes (from_le_bytes bs :: u32) = bs"
  "length bs = 8 \<Longrightarrow> to_le_bytes (from_le_bytes bs :: u64) = bs"
  by (simp_all add: to_from_le_bytes)

lemma subslice_append:
  assumes "a \<le> b" and "b \<le> c"
  shows "subslice a b xs @ subslice b c xs = subslice a c xs"
proof -
  have "c - a = (b - a) + (c - b)" and "drop b xs = drop (b - a) (drop a xs)"
    using assms by simp_all
  then show ?thesis by (simp add: subslice_def take_add)
qed

lemma header_to_from_bytes:
  assumes "VctpPacketHeader_from_bytes buf = Some h"
  shows "VctpPacketHeader_to_bytes h = take 28 buf" and "VctpPacketHeader_is_valid h"
    and "28 \<le> length buf"
proof -
  from assms show len: "28 \<le> length buf" and "VctpPacketHeader_is_valid h"
    by (auto simp: VctpPacketHeader_from_bytes_def VctpPacketHeader_is_valid_def VCTP_HEADER_SIZE_def
        Let_def split: if_splits)
  have "to_le_bytes (vh_magic h) = subslice 0 4 buf"
    using assms len le_bytes_of_slice(1) [of "subslice 0 4 buf"]
    by (auto simp: VctpPacketHeader_from_bytes_def Let_def split: if_splits)
  then have "VctpPacketHeader_to_bytes h =
      subslice 0 4 buf @ subslice 4 12 buf @ subslice 12 20 buf @ subslice 20 24 buf @ subslice 24 28 buf"
    using assms len
    by (auto simp: VctpPacketHeader_from_bytes_def VctpPacketHeader_to_bytes_def le_bytes_of_slice
        Let_def split: if_splits)
  then show "VctpPacketHeader_to_bytes h = take 28 buf"
    by (simp add: subslice_append) (simp add: subslice_def)
qed

section \<open>The checksum as a linear map\<close>

lemma crc_bit_eq: "crc_bit c = drop_bit 1 c XOR (if bit c 0 then 0xEDB88320 else 0)"
proof -
  have "c AND 1 \<noteq> 0 \<longleftrightarrow> bit c 0"
    by (simp add: bit_0 and_one_eq mod_2_eq_odd)
  then show ?thesis by (simp add: crc_bit_def)
qed

lemma bit_crc_bit:
  "n < 32 \<Longrightarrow> bit (crc_bit c) n \<longleftrightarrow> (bit c (Suc n) \<noteq> (bit c 0 \<and> bit (0xEDB88320 :: u32) n))"
  by (auto simp: crc_bit_eq bit_simps)

lemma crc_bit_xor: "crc_bit (a XOR b) = crc_bit a XOR crc_bit b"
  by (rule bit_word_eqI) (auto simp: bit_crc_bit bit_simps)

lemma crc_bit_0 [simp]: "crc_bit 0 = 0"
  by (simp add: crc_bit_def)

lemma crc_bit_eq_0: "crc_bit a = 0 \<Longrightarrow> a = 0"
proof (rule bit_word_eqI)
  fix n
  assume a: "crc_bit a = 0" and n: "n < LENGTH(32)"
  have "bit (0xEDB88320 :: u32) 31" by simp
  moreover have "\<not> bit a 32" using bit_imp_le_length [of a 32] by auto
  ultimately have 0: "\<not> bit a 0" using a bit_crc_bit [of 31 a] by simp
  show "bit a n \<longleftrightarrow> bit 0 n"
    using 0 a n bit_crc_bit [of "n - 1" a] by (cases n) auto
qed

lemma crc_bits_xor: "(crc_bit ^^ n) (a XOR b) = (crc_bit ^^ n) a XOR (crc_bit ^^ n) b"
  by (induction n) (simp_all add: crc_bit_xor)

lemma crc_bits_eq_0: "(crc_bit ^^ n) a = 0 \<Longrightarrow> a = 0"
  by (induction n) (auto dest: crc_bit_eq_0)

lemma crc_bits_inj: "(crc_bit ^^ n) a = (crc_bit ^^ n) b \<longleftrightarrow> a = b"
proof
  assume "(crc_bit ^^ n) a = (crc_bit ^^ n) b"
  then have "(crc_bit ^^ n) (a XOR b) = 0" by (simp add: crc_bits_xor)
  then have "a XOR b = 0" by (rule crc_bits_eq_0)
  then show "a = b" by simp
qed simp

lemma crc_bit_push: "\<not> bit w 31 \<Longrightarrow> crc_bit (push_bit 1 w) = w"
proof (rule bit_word_eqI)
  fix n
  assume w: "\<not> bit w 31" and n: "n < LENGTH(32)"
  have push: "bit (push_bit 1 w) m \<longleftrightarrow> 1 \<le> m \<and> m < LENGTH(32) \<and> bit w (m - 1)" for m
    by (simp only: bit_push_bit_iff possible_bit_word)
  show "bit (crc_bit (push_bit 1 w)) n \<longleftrightarrow> bit w n"
    using n w bit_crc_bit [of n "push_bit 1 w"] push [of 0] push [of "Suc n"]
    by (cases "n = 31") auto
qed

lemma crc_bits_push:
  "n \<le> 32 \<Longrightarrow> \<forall>i. 32 - n \<le> i \<longrightarrow> \<not> bit w i \<Longrightarrow> (crc_bit ^^ n) (push_bit n w) = w"
proof (induction n)
  case (Suc n)
  have "\<not> bit (push_bit n w) 31"
    using Suc.prems by (auto simp: bit_simps)
  then have "crc_bit (push_bit (Suc n) w) = push_bit n w"
    using crc_bit_push [of "push_bit n w"] by (simp add: add.commute)
  then show ?case
    using Suc by (simp add: funpow_swap1)
qed simp

text \<open>Up to four bytes act on the register as one xor, followed by the shifts.\<close>

lemma fold_crc_byte_short:
  "length xs \<le> 4 \<Longrightarrow> fold crc_byte xs c = (crc_bit ^^ (8 * length xs)) (c XOR from_le_bytes xs)"
proof (induction xs arbitrary: c)
  case (Cons b bs)
  have "\<not> bit (from_le_bytes bs :: u32) i" if "24 \<le> i" for i
    using that Cons.prems by (auto simp: bit_from_le_bytes)
  then have push: "(crc_bit ^^ 8) (push_bit 8 (from_le_bytes bs)) = (from_le_bytes bs :: u32)"
    by (intro crc_bits_push) auto
  have disj: "ucast b OR push_bit 8 (from_le_bytes bs :: u32) = ucast b XOR push_bit 8 (from_le_bytes bs)"
    by (rule bit_word_eqI) (auto simp: bit_simps dest: bit_imp_le_length)
  have "fold crc_byte (b # bs) c =
      (crc_bit ^^ (8 * length bs)) ((crc_bit ^^ 8) (c XOR ucast b) XOR (crc_bit ^^ 8) (push_bit 8 (from_le_bytes bs)))"
    using Cons.IH [of "crc_byte b c"] Cons.prems by (simp add: crc_byte_def [of b] push)
  also have "\<dots> = (crc_bit ^^ (8 * length bs + 8)) (c XOR from_le_bytes (b # bs))"
    by (simp add: crc_bits_xor [symmetric] funpow_add disj xor.assoc)
  finally show ?case by (simp add: add.commute)
qed simp

lemma crc_byte_inj: "crc_byte b c = crc_byte b d \<longleftrightarrow> c = d"
  by (simp add: crc_byte_def crc_bits_inj)

lemma fold_crc_byte_inj: "fold crc_byte xs c = fold crc_byte xs d \<longleftrightarrow> c = d"
  by (induction xs arbitrary: c d) (simp_all add: crc_byte_inj)

lemma from_le_bytes_u32_inj:
  assumes "length xs = length ys" and "length xs \<le> 4" and "from_le_bytes xs = (from_le_bytes ys :: u32)"
  shows "xs = ys"
proof (rule nth_equalityI)
  fix i assume i: "i < length xs"
  show "xs ! i = ys ! i"
  proof (rule bit_word_eqI)
    fix j assume j: "j < LENGTH(8)"
    have "8 * i + j < 32" "(8 * i + j) div 8 = i" "(8 * i + j) mod 8 = j"
      using i j assms(2) by auto
    then show "bit (xs ! i) j \<longleftrightarrow> bit (ys ! i) j"
      using bit_from_le_bytes [where 'a = 32, of xs "8 * i + j"]
        bit_from_le_bytes [where 'a = 32, of ys "8 * i + j"] assms i by simp
  qed
qed (rule assms)

lemma crc_burst:
  assumes "length xs = length ys" and "length xs \<le> 4" and "xs \<noteq> ys"
  shows "fold crc_byte (as @ xs @ bs) c \<noteq> fold crc_byte (as @ ys @ bs) c"
proof
  let ?d = "fold crc_byte as c"
  assume "fold crc_byte (as @ xs @ bs) c = fold crc_byte (as @ ys @ bs) c"
  then have "from_le_bytes xs = (from_le_bytes ys :: u32)"
    using assms by (simp add: fold_crc_byte_inj fold_crc_byte_short crc_bits_inj)
  then show False using from_le_bytes_u32_inj assms by blast
qed

text \<open>A frame verifies exactly when the register ends in a fixed residue.\<close>

definition crc_residue :: u32 where
  "crc_residue = (crc_bit ^^ 32) (- 1)"

lemma verify_checksum_residue:
  "verify_checksum p \<longleftrightarrow> fold crc_byte (VctpPacket_to_bytes p) 0xFFFFFFFF = crc_residue"
proof -
  let ?c = "fold crc_byte (VctpPacketHeader_to_bytes (vp_header p) @ vp_payload p) 0xFFFFFFFF"
  have "fold crc_byte (VctpPacket_to_bytes p) 0xFFFFFFFF = (crc_bit ^^ 32) (?c XOR vp_checksum p)"
    by (simp add: VctpPacket_to_bytes_def fold_crc_byte_short)
  also have "\<dots> = crc_residue \<longleftrightarrow> ?c XOR vp_checksum p = - 1"
    by (simp add: crc_residue_def crc_bits_inj)
  also have "\<dots> \<longleftrightarrow> NOT ?c = vp_checksum p"
    by (rule xor_eq_ones)
  finally show ?thesis by (simp add: verify_checksum_def compute_checksum_def)
qed

section \<open>Decoding is the inverse of encoding\<close>

lemma length_packet_bytes [simp]: "length (VctpPacket_to_bytes p) = 32 + length (vp_payload p)"
  by (simp add: VctpPacket_to_bytes_def)

text \<open>The packets the encoder is used on.\<close>

definition packet_wf :: "vctp_packet \<Rightarrow> bool" where
  "packet_wf p \<longleftrightarrow> VctpPacketHeader_is_valid (vp_header p)
     \<and> unat (vh_payload_length (vp_header p)) = length (vp_payload p) \<and> verify_checksum p"

lemma packet_from_to_bytes:
  assumes "packet_wf p"
  shows "VctpPacket_from_bytes (VctpPacket_to_bytes p @ rest) = Some p"
proof -
  let ?buf = "VctpPacket_to_bytes p @ rest"
  have h: "VctpPacketHeader_from_bytes ?buf = Some (vp_header p)"
    using assms header_from_to_bytes [of "vp_header p"]
    by (simp add: packet_wf_def VctpPacket_to_bytes_def)
  have "subslice 28 (28 + length (vp_payload p)) ?buf = vp_payload p"
    and "subslice (28 + length (vp_payload p)) (32 + length (vp_payload p)) ?buf = to_le_bytes (vp_checksum p)"
    by (simp_all add: subslice_def VctpPacket_to_bytes_def)
  then show ?thesis
    using assms h
    by (cases p) (simp add: VctpPacket_from_bytes_def packet_wf_def VCTP_HEADER_SIZE_def Let_def)
qed

lemma packet_to_from_bytes:
  assumes "VctpPacket_from_bytes buf = Some p"
  shows "packet_wf p" and "VctpPacket_to_bytes p = take (32 + length (vp_payload p)) buf"
    and "32 + length (vp_payload p) \<le> length buf"
proof -
  from assms obtain h where h: "VctpPacketHeader_from_bytes buf = Some h"
    by (auto simp: VctpPacket_from_bytes_def split: if_splits option.splits)
  let ?n = "unat (vh_payload_length h)"
  have len: "32 + ?n \<le> length buf"
    and p: "p = \<lparr>vp_header = h, vp_payload = subslice 28 (28 + ?n) buf,
      vp_checksum = from_le_bytes (subslice (28 + ?n) (32 + ?n) buf)\<rparr>" and v: "verify_checksum p"
    using assms h
    by (auto simp: VctpPacket_from_bytes_def VCTP_HEADER_SIZE_def Let_def split: if_splits)
  have n: "length (vp_payload p) = ?n" using len by (simp add: p)
  with v show "packet_wf p" using header_to_from_bytes [OF h] by (simp add: packet_wf_def p)
  show "32 + length (vp_payload p) \<le> length buf" using len n by simp
  have "VctpPacket_to_bytes p = subslice 0 28 buf @ subslice 28 (28 + ?n) buf @ subslice (28 + ?n) (32 + ?n) buf"
    using header_to_from_bytes(1) [OF h] len
    by (simp add: VctpPacket_to_bytes_def p le_bytes_of_slice) (simp add: subslice_def)
  also have "\<dots> = take (32 + ?n) buf"
    by (simp add: subslice_append) (simp add: subslice_def)
  finally show "VctpPacket_to_bytes p = take (32 + length (vp_payload p)) buf" by (simp add: n)
qed

lemma packet_length_field:
  "to_le_bytes (vh_payload_length (vp_header p)) = subslice 24 28 (VctpPacket_to_bytes p)"
  by (simp add: VctpPacket_to_bytes_def VctpPacketHeader_to_bytes_def subslice_def)

lemma subslice_same:
  assumes "length xs = length ys" and "b \<le> length as \<or> length as + length xs \<le> a"
  shows "subslice a b (as @ xs @ bs) = subslice a b (as @ ys @ bs)"
  using assms by (auto simp: subslice_def)

lemma subslice_take: "b \<le> n \<Longrightarrow> subslice a b (take n xs) = subslice a b xs"
  by (simp add: subslice_def drop_take min_def)

lemma burst_rejected:
  assumes "VctpPacket_from_bytes (as @ xs @ bs) = Some p"
    and "length (as @ xs @ bs) = 32 + length (vp_payload p)"
    and "length ys = length xs" and "length xs \<le> 4" and "xs \<noteq> ys"
    and "length as + length xs \<le> 24 \<or> 28 \<le> length as"
  shows "VctpPacket_from_bytes (as @ ys @ bs) = None"
proof (rule ccontr)
  assume "VctpPacket_from_bytes (as @ ys @ bs) \<noteq> None"
  then obtain q where q: "VctpPacket_from_bytes (as @ ys @ bs) = Some q" by blast
  note P = packet_to_from_bytes [OF assms(1)] and Q = packet_to_from_bytes [OF q]
  have p: "VctpPacket_to_bytes p = as @ xs @ bs" using P(2) assms(2) by simp
  have "subslice 24 28 (VctpPacket_to_bytes q) = subslice 24 28 (as @ ys @ bs)"
    unfolding Q(2) by (rule subslice_take) simp
  also have "\<dots> = subslice 24 28 (VctpPacket_to_bytes p)"
    using subslice_same [of xs ys 28 as 24 bs] assms(3,6) p by auto
  finally have "vh_payload_length (vp_header q) = vh_payload_length (vp_header p)"
    by (simp add: packet_length_field [symmetric])
  then have "length (vp_payload q) = length (vp_payload p)"
    using P(1) Q(1) by (simp add: packet_wf_def)
  then have "VctpPacket_to_bytes q = as @ ys @ bs" using Q(2) assms(2,3) by simp
  then have "fold crc_byte (as @ xs @ bs) 0xFFFFFFFF = fold crc_byte (as @ ys @ bs) 0xFFFFFFFF"
    using P(1) Q(1) p unfolding packet_wf_def verify_checksum_residue by metis
  with crc_burst assms(3-5) show False by metis
qed

section \<open>Properties\<close>

text \<open>
  \<open>VctpPacket::from_bytes\<close> accepts exactly the encodings of well-formed packets (valid
  magic, the length field equal to the payload's length, matching checksum), possibly
  followed by other bytes, and returns the packet that was encoded.
\<close>

theorem packet_decode_iff_encoding:
  "VctpPacket_from_bytes buf = Some p \<longleftrightarrow>
     packet_wf p \<and> (\<exists>rest. buf = VctpPacket_to_bytes p @ rest)"
  using packet_from_to_bytes packet_to_from_bytes(1,2) [of buf p] by (metis append_take_drop_id)

text \<open>
  C4.  The checksum catches bursts: replace at most four consecutive bytes anywhere in the
  frame of an accepted packet by different ones, the length field excepted, and
  \<open>from_bytes\<close> rejects the result.
\<close>

theorem packet_burst_detected:
  assumes "VctpPacket_from_bytes (as @ xs @ bs) = Some p"
    and "length (as @ xs @ bs) = 32 + length (vp_payload p)"
    and "length ys = length xs" and "length xs \<le> 4" and "xs \<noteq> ys"
    and "length as + length xs \<le> 24 \<or> 28 \<le> length as"
  shows "VctpPacket_from_bytes (as @ ys @ bs) = None"
  using burst_rejected assms by blast

lemma packet_wf_new:
  "VctpPacketHeader_is_valid h \<Longrightarrow> unat (vh_payload_length h) = length bs \<Longrightarrow> packet_wf (VctpPacket_new h bs)"
  by (simp add: packet_wf_def VctpPacket_new_def verify_checksum_def)

theorem packet_burst_detected_witness:
  "VctpPacket_from_bytes
     (VctpPacketHeader_to_bytes (VctpPacketHeader_new 1 2 3 2) @ [9, 9] @
      to_le_bytes (compute_checksum (VctpPacketHeader_new 1 2 3 2) [7, 8])) = None"
proof -
  let ?h = "VctpPacketHeader_new 1 2 3 2"
  have "packet_wf (VctpPacket_new ?h [7, 8])"
    by (rule packet_wf_new) (simp_all add: VctpPacketHeader_is_valid_def VctpPacketHeader_new_def)
  then have "VctpPacket_from_bytes (VctpPacketHeader_to_bytes ?h @ [7, 8] @
      to_le_bytes (compute_checksum ?h [7, 8])) = Some (VctpPacket_new ?h [7, 8])"
    using packet_from_to_bytes [of "VctpPacket_new ?h [7, 8]" "[]"]
    by (simp add: VctpPacket_to_bytes_def VctpPacket_new_def)
  from packet_burst_detected [OF this, of "[9, 9]"] show ?thesis
    by (simp add: VctpPacket_new_def)
qed

text \<open>
  \<open>VctpAck::from_bytes\<close> accepts exactly the buffers that start with the encoding of an
  acknowledgement carrying the ACK magic, and returns that acknowledgement.
\<close>

theorem ack_decode_iff_encoding:
  "VctpAck_from_bytes buf = Some a \<longleftrightarrow>
     va_magic a = VCTP_ACK_MAGIC \<and> (\<exists>rest. buf = VctpAck_to_bytes a @ rest)"
proof
  assume ok: "VctpAck_from_bytes buf = Some a"
  then have len: "20 \<le> length buf" and magic: "va_magic a = VCTP_ACK_MAGIC"
    by (auto simp: VctpAck_from_bytes_def Let_def split: if_splits)
  have "to_le_bytes (va_magic a) = subslice 0 4 buf"
    using ok len le_bytes_of_slice(1) [of "subslice 0 4 buf"]
    by (auto simp: VctpAck_from_bytes_def Let_def split: if_splits)
  then have "VctpAck_to_bytes a = subslice 0 4 buf @ subslice 4 12 buf @ subslice 12 20 buf"
    using ok len
    by (auto simp: VctpAck_from_bytes_def VctpAck_to_bytes_def le_bytes_of_slice Let_def split: if_splits)
  also have "\<dots> = take 20 buf" by (simp add: subslice_append) (simp add: subslice_def)
  finally show "va_magic a = VCTP_ACK_MAGIC \<and> (\<exists>rest. buf = VctpAck_to_bytes a @ rest)"
    using magic by (metis append_take_drop_id)
next
  assume "va_magic a = VCTP_ACK_MAGIC \<and> (\<exists>rest. buf = VctpAck_to_bytes a @ rest)"
  then show "VctpAck_from_bytes buf = Some a"
    by (auto simp: VctpAck_from_bytes_def VctpAck_to_bytes_def subslice_def)
qed

end
