(* ===== verification/Vctp_Transport.thy ===== *)
theory Vctp_Transport
  imports Prelude "HOL-Library.Log_Nat"
begin

text \<open>
  \<open>velocity-workflow-core/src/vctp.rs\<close>, reliable delivery: the AIMD pacing controller and
  the retransmission tracker.  The single-precision arithmetic of the controller is modelled
  exactly (round to nearest, ties to even, 24 significant bits).
\<close>

section \<open>AIMD pacing\<close>

record aimd_controller =
  ai_pacing_rate_mbps :: u32
  ai_loss_threshold_percent :: u32

definition AimdController_new :: aimd_controller where
  "AimdController_new = \<lparr>ai_pacing_rate_mbps = 100, ai_loss_threshold_percent = 2\<rparr>"

text \<open>The nearest single-precision value of a natural number, as a natural number.\<close>

definition round_f32 :: "nat \<Rightarrow> nat" where
  "round_f32 n =
     (if n < 2 ^ 24 then n
      else let e = floorlog 2 n - 24; q = n div 2 ^ e; r = n mod 2 ^ e; half = 2 ^ (e - 1)
           in (if r > half \<or> r = half \<and> odd q then q + 1 else q) * 2 ^ e)"

text \<open>
  \<open>(rate as f32 * 0.85) as u32\<close>: the literal \<open>0.85\<close> is the single-precision number
  \<open>14260634 / 2^24\<close>; the exact product is rounded once and then truncated, and the cast
  saturates.
\<close>

definition scale_0_85 :: "u32 \<Rightarrow> u32" where
  "scale_0_85 rate =
     word_of_nat (min (round_f32 (round_f32 (unat rate) * 14260634) div 2 ^ 24) (2 ^ 32 - 1))"

definition AimdController_update :: "aimd_controller \<Rightarrow> u32 \<Rightarrow> aimd_controller" where
  "AimdController_update c loss_percent =
     (if loss_percent > ai_loss_threshold_percent c
      then let c = c\<lparr>ai_pacing_rate_mbps := scale_0_85 (ai_pacing_rate_mbps c)\<rparr>
           in if ai_pacing_rate_mbps c < 10 then c\<lparr>ai_pacing_rate_mbps := 10\<rparr> else c
      else c\<lparr>ai_pacing_rate_mbps := saturating_add (ai_pacing_rate_mbps c) 10\<rparr>)"

lemma round_f32_le: "round_f32 n * 2 ^ 24 \<le> n * (2 ^ 24 + 1)"
proof (cases "n < 2 ^ 24")
  case True
  then show ?thesis by (simp add: round_f32_def)
next
  case False
  define e where "e = floorlog 2 n - 24"
  define q r where "q = n div 2 ^ e" and "r = n mod 2 ^ e"
  have n: "n = q * 2 ^ e + r" by (simp only: q_def r_def div_mult_mod_eq)
  have lo: "2 ^ (floorlog 2 n - 1) \<le> n" and hi: "n < 2 ^ floorlog 2 n"
    using False floorlog_bounds [where b = 2 and x = n] by auto
  have "(2::nat) ^ 24 < 2 ^ floorlog 2 n" using hi False by linarith
  then have fl: "24 < floorlog 2 n" using power_less_imp_less_exp [of 2 24 "floorlog 2 n"] by simp
  then have e: "floorlog 2 n - 1 = (e - 1) + 24" "e = Suc (e - 1)" by (simp_all add: e_def)
  have half: "2 ^ (e - 1) * 2 ^ 24 \<le> n" using lo unfolding e(1) power_add .
  have pe: "(2::nat) ^ e = 2 * 2 ^ (e - 1)" using e(2) by (metis power_Suc)
  have rr: "round_f32 n = (if r > 2 ^ (e - 1) \<or> r = 2 ^ (e - 1) \<and> odd q then q + 1 else q) * 2 ^ e"
    using False by (simp add: round_f32_def Let_def e_def q_def r_def)
  have "round_f32 n \<le> n + 2 ^ (e - 1)"
    unfolding rr using n pe by (auto simp: algebra_simps)
  then have "round_f32 n * 2 ^ 24 \<le> n * 2 ^ 24 + 2 ^ (e - 1) * 2 ^ 24"
    by (metis add_mult_distrib mult_le_mono1)
  with half show ?thesis by simp
qed

lemma scale_0_85_le: "10 * unat (scale_0_85 r) \<le> 9 * unat r"
proof -
  let ?a = "round_f32 (unat r)"
  let ?b = "round_f32 (?a * 14260634)"
  have "?b * 2 ^ 24 * 2 ^ 24 \<le> ?a * 14260634 * (2 ^ 24 + 1) * 2 ^ 24"
    using round_f32_le [of "?a * 14260634"] by (rule mult_le_mono1)
  also have "\<dots> = ?a * 2 ^ 24 * (14260634 * (2 ^ 24 + 1))" by simp
  also have "\<dots> \<le> unat r * (2 ^ 24 + 1) * (14260634 * (2 ^ 24 + 1))"
    using round_f32_le [of "unat r"] by (rule mult_le_mono1)
  finally have "10 * ?b \<le> 9 * unat r * 2 ^ 24" by simp
  moreover have "unat (scale_0_85 r) \<le> ?b div 2 ^ 24"
    by (simp add: scale_0_85_def unat_of_nat)
  then have "unat (scale_0_85 r) * 2 ^ 24 \<le> ?b"
    by (simp add: less_eq_div_iff_mult_less_eq)
  ultimately show ?thesis by simp
qed

lemma aimd_loss:
  assumes "ai_loss_threshold_percent c < loss"
  shows "ai_loss_threshold_percent (AimdController_update c loss) = ai_loss_threshold_percent c"
    and "unat (ai_pacing_rate_mbps (AimdController_update c loss)) =
           max 10 (unat (scale_0_85 (ai_pacing_rate_mbps c)))"
  using assms by (auto simp: AimdController_update_def Let_def word_less_nat_alt)

lemma aimd_losses:
  assumes "ai_loss_threshold_percent c < loss"
  shows "ai_loss_threshold_percent (((\<lambda>c. AimdController_update c loss) ^^ n) c) = ai_loss_threshold_percent c
    \<and> unat (ai_pacing_rate_mbps (((\<lambda>c. AimdController_update c loss) ^^ n) c)) * 10 ^ n
        \<le> max (10 * 10 ^ n) (unat (ai_pacing_rate_mbps c) * 9 ^ n)"
proof (induction n)
  case (Suc n)
  let ?c = "((\<lambda>c. AimdController_update c loss) ^^ n) c"
  let ?s = "unat (scale_0_85 (ai_pacing_rate_mbps ?c))"
  have thr: "ai_loss_threshold_percent ?c < loss" using Suc assms by simp
  have "?s * 10 ^ Suc n = 10 * ?s * 10 ^ n" by simp
  also have "\<dots> \<le> 9 * unat (ai_pacing_rate_mbps ?c) * 10 ^ n"
    using scale_0_85_le by (rule mult_le_mono1)
  also have "\<dots> \<le> 9 * max (10 * 10 ^ n) (unat (ai_pacing_rate_mbps c) * 9 ^ n)"
    using Suc by simp
  also have "\<dots> \<le> max (10 * 10 ^ Suc n) (unat (ai_pacing_rate_mbps c) * 9 ^ Suc n)"
    by (auto simp: max_def)
  finally show ?case
    using Suc aimd_loss [OF thr] by (auto simp: max_def)
qed simp

section \<open>Retransmission\<close>

record pending_packet =
  pp_seq :: u64
  pp_bytes :: bytes
  pp_send_time :: u64
  pp_retries :: u32

record retransmit_tracker =
  rt_pending :: "pending_packet list"
  rt_rtt_ms :: u64
  rt_max_retries :: u32
  rt_rto_multiplier :: u32

definition VctpRetransmitTracker_new :: retransmit_tracker where
  "VctpRetransmitTracker_new =
     \<lparr>rt_pending = [], rt_rtt_ms = 50, rt_max_retries = 5, rt_rto_multiplier = 2\<rparr>"

definition track_send :: "retransmit_tracker \<Rightarrow> u64 \<Rightarrow> bytes \<Rightarrow> u64 \<Rightarrow> retransmit_tracker" where
  "track_send t sequence packet_bytes now_ms =
     t\<lparr>rt_pending := rt_pending t @
         [\<lparr>pp_seq = sequence, pp_bytes = packet_bytes, pp_send_time = now_ms, pp_retries = 0\<rparr>]\<rparr>"

definition process_ack :: "retransmit_tracker \<Rightarrow> u64 \<Rightarrow> u64 \<Rightarrow> retransmit_tracker \<times> u64 option" where
  "process_ack t ack_sequence now_ms =
     (case position (\<lambda>e. pp_seq e = ack_sequence) (rt_pending t) of
        Some pos \<Rightarrow>
          let send_time = pp_send_time (rt_pending t ! pos);
              rtt = saturating_sub now_ms send_time
          in (t\<lparr>rt_pending := take pos (rt_pending t) @ drop (Suc pos) (rt_pending t),
                rt_rtt_ms := (rt_rtt_ms t * 7 + rtt) div 8\<rparr>, Some rtt)
      | None \<Rightarrow> (t, None))"

text \<open>The loop body of \<open>get_retransmissions\<close>: whether an entry is due, and its update.\<close>

definition rto_due :: "retransmit_tracker \<Rightarrow> u64 \<Rightarrow> pending_packet \<Rightarrow> bool" where
  "rto_due t now_ms e \<longleftrightarrow>
     saturating_sub now_ms (pp_send_time e) > rt_rtt_ms t * ucast (rt_rto_multiplier t)
     \<and> pp_retries e < rt_max_retries t"

definition get_retransmissions ::
    "retransmit_tracker \<Rightarrow> u64 \<Rightarrow> retransmit_tracker \<times> (u64 \<times> bytes) list" where
  "get_retransmissions t now_ms =
     (t\<lparr>rt_pending := map (\<lambda>e. if rto_due t now_ms e
                                then e\<lparr>pp_retries := pp_retries e + 1, pp_send_time := now_ms\<rparr>
                                else e) (rt_pending t)\<rparr>,
      map (\<lambda>e. (pp_seq e, pp_bytes e)) (filter (rto_due t now_ms) (rt_pending t)))"

definition remove_expired :: "retransmit_tracker \<Rightarrow> retransmit_tracker \<times> u64 list" where
  "remove_expired t =
     (t\<lparr>rt_pending := filter (\<lambda>e. \<not> pp_retries e \<ge> rt_max_retries t) (rt_pending t)\<rparr>,
      map pp_seq (filter (\<lambda>e. pp_retries e \<ge> rt_max_retries t) (rt_pending t)))"

definition pending_count :: "retransmit_tracker \<Rightarrow> nat" where
  "pending_count t = length (rt_pending t)"

section \<open>Any use of the tracker\<close>

datatype rt_op = Send u64 bytes u64 | Ack u64 u64 | Tick u64 | Expire

fun rt_step :: "rt_op \<Rightarrow> retransmit_tracker \<Rightarrow> retransmit_tracker \<times> u64 list" where
  "rt_step (Send s bs now) t = (track_send t s bs now, [])"
| "rt_step (Ack s now) t = (fst (process_ack t s now), [])"
| "rt_step (Tick now) t =
     (fst (get_retransmissions t now), map fst (snd (get_retransmissions t now)))"
| "rt_step Expire t = (fst (remove_expired t), [])"

text \<open>The tracker after a list of operations and the sequence numbers retransmitted.\<close>

fun rt_run :: "rt_op list \<Rightarrow> retransmit_tracker \<Rightarrow> retransmit_tracker \<times> u64 list" where
  "rt_run [] t = (t, [])"
| "rt_run (op # ops) t =
     (let (t, out) = rt_step op t; (t, outs) = rt_run ops t in (t, out @ outs))"

fun sends :: "u64 \<Rightarrow> rt_op list \<Rightarrow> nat" where
  "sends s [] = 0"
| "sends s (Send s' bs now # ops) = (if s' = s then 1 else 0) + sends s ops"
| "sends s (_ # ops) = sends s ops"

text \<open>The retransmissions the pending entries of a sequence number can still cause.\<close>

definition entry_credit :: "u32 \<Rightarrow> u64 \<Rightarrow> pending_packet \<Rightarrow> nat" where
  "entry_credit m s e = (if pp_seq e = s then unat m - unat (pp_retries e) else 0)"

definition rt_credit :: "u64 \<Rightarrow> retransmit_tracker \<Rightarrow> nat" where
  "rt_credit s t = sum_list (map (entry_credit (rt_max_retries t) s) (rt_pending t))"

lemma credit_ack: "rt_credit s (fst (process_ack t s' now)) \<le> rt_credit s t"
proof (cases "position (\<lambda>e. pp_seq e = s') (rt_pending t)")
  case (Some i)
  then obtain as e bs where "rt_pending t = as @ e # bs" "i = length as"
    by (rule position_split)
  with Some show ?thesis by (simp add: process_ack_def rt_credit_def Let_def)
next
  case None
  show ?thesis by (simp add: process_ack_def None)
qed

lemma credit_tick_entries:
  "count_list (map pp_seq (filter (rto_due t now) es)) s
     + sum_list (map (entry_credit (rt_max_retries t) s)
         (map (\<lambda>e. if rto_due t now e then e\<lparr>pp_retries := pp_retries e + 1, pp_send_time := now\<rparr> else e) es))
   = sum_list (map (entry_credit (rt_max_retries t) s) es)"
proof (induction es)
  case (Cons e es)
  have "unat (pp_retries e + 1) = unat (pp_retries e) + 1" "unat (pp_retries e) < unat (rt_max_retries t)"
    if "rto_due t now e"
  proof -
    show less: "unat (pp_retries e) < unat (rt_max_retries t)"
      using that by (simp add: rto_due_def word_less_nat_alt)
    have "unat (rt_max_retries t) < 2 ^ 32" using unsigned_less [of "rt_max_retries t"] by simp
    then show "unat (pp_retries e + 1) = unat (pp_retries e) + 1"
      using less by (simp add: unat_word_ariths)
  qed
  then show ?case using Cons by (cases "rto_due t now e") (auto simp: entry_credit_def)
qed simp

lemma credit_step:
  "count_list (snd (rt_step op t)) s + rt_credit s (fst (rt_step op t))
     \<le> rt_credit s t + unat (rt_max_retries t) * sends s [op]"
proof (cases op)
  case (Tick now)
  then show ?thesis
    using credit_tick_entries [of t now "rt_pending t" s]
    by (simp add: get_retransmissions_def rt_credit_def comp_def)
next
  case Expire
  have "sum_list (map (entry_credit m s) (filter P es)) \<le> sum_list (map (entry_credit m s) es)"
    for m P es by (induction es) auto
  then show ?thesis using Expire by (simp add: remove_expired_def rt_credit_def)
qed (simp_all add: track_send_def rt_credit_def [of _ "track_send _ _ _ _"] rt_credit_def
      entry_credit_def credit_ack [unfolded rt_credit_def])

lemma max_retries_step [simp]: "rt_max_retries (fst (rt_step op t)) = rt_max_retries t"
  by (cases op) (auto simp: track_send_def process_ack_def get_retransmissions_def
      remove_expired_def Let_def split: option.splits)

lemma sends_Cons: "sends s (op # ops) = sends s [op] + sends s ops"
  by (cases op) simp_all

lemma credit_run:
  "count_list (snd (rt_run ops t)) s + rt_credit s (fst (rt_run ops t))
     \<le> rt_credit s t + unat (rt_max_retries t) * sends s ops"
proof (induction ops arbitrary: t)
  case (Cons op ops)
  show ?case
    using Cons [of "fst (rt_step op t)"] credit_step [of op t s] sends_Cons [of s op ops]
    by (simp add: case_prod_beta Let_def add_mult_distrib2 del: sends.simps)
qed simp

lemma ack_removes:
  assumes "distinct (map pp_seq (rt_pending t))" and "process_ack t s now = (t', r)"
  shows "map pp_seq (rt_pending t') = filter (\<lambda>q. q \<noteq> s) (map pp_seq (rt_pending t))"
proof (cases "position (\<lambda>e. pp_seq e = s) (rt_pending t)")
  case None
  have "\<forall>e\<in>set (rt_pending t). pp_seq e \<noteq> s" using None by simp
  then show ?thesis using assms(2) by (auto simp: process_ack_def None filter_id_conv)
next
  case (Some i)
  then obtain as e bs where p: "rt_pending t = as @ e # bs" "i = length as" "pp_seq e = s"
    "\<forall>a\<in>set as. pp_seq a \<noteq> s"
    by (rule position_split)
  have "filter (\<lambda>q. q \<noteq> s) (map pp_seq as) = map pp_seq as"
    using p by (simp add: filter_id_conv)
  moreover have "filter (\<lambda>q. q \<noteq> s) (map pp_seq bs) = map pp_seq bs"
    using p assms(1) by (auto simp: filter_id_conv image_iff)
  ultimately show ?thesis using Some assms(2) p by (auto simp: process_ack_def Let_def)
qed

section \<open>Properties\<close>

text \<open>
  C22.  Whatever the interleaving of sends, acknowledgements, retransmission rounds and
  expiries, a sequence number is retransmitted at most five times per time it was sent.
\<close>

theorem retransmissions_bounded:
  "count_list (snd (rt_run ops VctpRetransmitTracker_new)) s \<le> 5 * sends s ops"
  using credit_run [of ops VctpRetransmitTracker_new s]
  by (simp add: VctpRetransmitTracker_new_def rt_credit_def)

text \<open>
  An acknowledgement of a tracked packet removes it and no other, reports the time
  since it was last sent, and the packet is not offered for retransmission again.
\<close>

theorem acked_packet_not_retransmitted:
  assumes "distinct (map pp_seq (rt_pending t))" and "e \<in> set (rt_pending t)"
    and "process_ack t (pp_seq e) now = (t', r)"
  shows "r = Some (saturating_sub now (pp_send_time e))
    \<and> map pp_seq (rt_pending t') = filter (\<lambda>q. q \<noteq> pp_seq e) (map pp_seq (rt_pending t))
    \<and> pp_seq e \<notin> fst ` set (snd (get_retransmissions t' later))"
proof (intro conjI)
  show removed: "map pp_seq (rt_pending t') = filter (\<lambda>q. q \<noteq> pp_seq e) (map pp_seq (rt_pending t))"
    using ack_removes [OF assms(1,3)] .
  then have "pp_seq e \<notin> set (map pp_seq (rt_pending t'))" by simp
  then show "pp_seq e \<notin> fst ` set (snd (get_retransmissions t' later))"
    by (auto simp: get_retransmissions_def)
  obtain i where i: "position (\<lambda>e'. pp_seq e' = pp_seq e) (rt_pending t) = Some i"
    using position_ex [of "rt_pending t" "\<lambda>e'. pp_seq e' = pp_seq e"] assms(2) by blast
  have "rt_pending t ! i = e"
    using position_SomeD [OF i] assms(1,2) by (auto simp: distinct_map dest: inj_onD)
  then show "r = Some (saturating_sub now (pp_send_time e))"
    using assms(3) i by (auto simp: process_ack_def Let_def)
qed

theorem acked_packet_not_retransmitted_witness:
  "snd (process_ack (track_send VctpRetransmitTracker_new 7 [1, 2] 100) 7 130) = Some 30"
  using acked_packet_not_retransmitted [OF _ _ surjective_pairing,
      of "track_send VctpRetransmitTracker_new 7 [1, 2] 100"
         "\<lparr>pp_seq = 7, pp_bytes = [1, 2], pp_send_time = 100, pp_retries = 0\<rparr>" 130]
  by (simp add: track_send_def VctpRetransmitTracker_new_def saturating_sub_def)

text \<open>
  The pacing rate never falls below 10 Mbps, backs off by at least a tenth on a loss
  report (down to that floor), otherwise grows by 10 up to the end of the range, and from
  any rate whatever 190 loss reports in a row bring it to the floor.
\<close>

theorem aimd_pacing:
  assumes "10 \<le> ai_pacing_rate_mbps c"
  shows "10 \<le> ai_pacing_rate_mbps (AimdController_update c loss)
    \<and> (if ai_loss_threshold_percent c < loss
       then 10 * unat (ai_pacing_rate_mbps (AimdController_update c loss))
              \<le> max 100 (9 * unat (ai_pacing_rate_mbps c))
         \<and> ai_pacing_rate_mbps (((\<lambda>c. AimdController_update c loss) ^^ 190) c) = 10
       else unat (ai_pacing_rate_mbps (AimdController_update c loss))
              = min (unat (ai_pacing_rate_mbps c) + 10) (2 ^ 32 - 1))"
proof (cases "ai_loss_threshold_percent c < loss")
  case True
  let ?c = "((\<lambda>c. AimdController_update c loss) ^^ 190) c"
  have "unat (ai_pacing_rate_mbps ?c) * 10 ^ 190 \<le> max (10 * 10 ^ 190) (unat (ai_pacing_rate_mbps c) * 9 ^ 190)"
    using aimd_losses [OF True, of 190] by simp
  also have "unat (ai_pacing_rate_mbps c) * 9 ^ 190 \<le> 2 ^ 32 * 9 ^ 190"
    using unat_less_exp [of "ai_pacing_rate_mbps c"] by simp
  finally have le: "unat (ai_pacing_rate_mbps ?c) \<le> 10" by simp
  have "?c = AimdController_update (((\<lambda>c. AimdController_update c loss) ^^ 189) c) loss"
    by (simp add: numeral_eq_Suc)
  then have "10 \<le> unat (ai_pacing_rate_mbps ?c)"
    using aimd_loss(2) [of "((\<lambda>c. AimdController_update c loss) ^^ 189) c" loss]
      aimd_losses [OF True, of 189] True by simp
  with le have "ai_pacing_rate_mbps ?c = 10" by (simp add: word_unat_eq_iff)
  then show ?thesis
    using True aimd_loss(2) [OF True] scale_0_85_le [of "ai_pacing_rate_mbps c"]
    by (simp add: word_le_nat_alt max_def)
next
  case False
  then show ?thesis
    using assms
    by (simp add: AimdController_update_def word_le_nat_alt unat_saturating_add)
qed

theorem aimd_pacing_witness:
  "ai_pacing_rate_mbps (((\<lambda>c. AimdController_update c 3) ^^ 190) AimdController_new) = 10"
  using aimd_pacing [of AimdController_new 3] by (simp add: AimdController_new_def)

end
