(* ===== verification/Core_Ffi.thy ===== *)
theory Core_Ffi
  imports Slab Nda Arena Crdt Vctp_Packet Vctp_Transport
begin

text \<open>
  \<open>velocity-workflow-core/src/ffi.rs\<close>: the C interface of the core.  A pointer parameter is
  an option, \<open>None\<close> for null; an \<open>out\<close> or in-out pointer is returned with the cell it
  points to updated, and the \<open>i32\<close> result is an integer.
\<close>

definition velocity_slab_create ::
    "digest_fn \<Rightarrow> u64 \<Rightarrow> u64 \<Rightarrow> u32 \<Rightarrow> slab_header option \<Rightarrow> slab_header option \<times> int" where
  "velocity_slab_create sha workflow_id run_id total_steps out_header =
     (case out_header of
        None \<Rightarrow> (None, - 1)
      | Some _ \<Rightarrow> (Some (SlabHeader_new sha workflow_id run_id total_steps), 0))"

definition velocity_slab_mark_step ::
    "digest_fn \<Rightarrow> slab_header option \<Rightarrow> u32 \<Rightarrow> slab_header option \<times> int" where
  "velocity_slab_mark_step sha header step_index =
     (case header of
        None \<Rightarrow> (None, - 1)
      | Some h \<Rightarrow>
          (case mark_step_completed sha h (unat step_index) of
             (h, True) \<Rightarrow> (Some h, 0)
           | (h, False) \<Rightarrow> (Some h, - 2)))"

definition velocity_slab_verify :: "digest_fn \<Rightarrow> slab_header option \<Rightarrow> int" where
  "velocity_slab_verify sha header =
     (case header of None \<Rightarrow> - 1 | Some h \<Rightarrow> if verify_merkle_root sha h then 1 else 0)"

definition velocity_slab_merge_crdt ::
    "pn_counter option \<Rightarrow> pn_counter option \<Rightarrow> pn_counter option \<times> int" where
  "velocity_slab_merge_crdt target source =
     (case (target, source) of
        (Some t, Some s) \<Rightarrow> (Some (PNCounter_merge t s), 0)
      | _ \<Rightarrow> (target, - 1))"

definition velocity_nda_verify :: "digest_fn \<Rightarrow> nda_header option \<Rightarrow> int" where
  "velocity_nda_verify sha header =
     (case header of None \<Rightarrow> - 1 | Some h \<Rightarrow> if verify_merkle sha h then 1 else 0)"

definition velocity_arena_alloc ::
    "arena_page option \<Rightarrow> bytes option \<Rightarrow> u64 option \<Rightarrow> panic + (arena_page option \<times> u64 option \<times> int)" where
  "velocity_arena_alloc arena payload out_offset =
     (case (arena, payload, out_offset) of
        (Some a, Some bs, Some out) \<Rightarrow>
          (case alloc_slice a bs of
             Inl p \<Rightarrow> Inl p
           | Inr (a, Some offset) \<Rightarrow> Inr (Some a, Some offset, 0)
           | Inr (a, None) \<Rightarrow> Inr (Some a, Some out, - 2))
      | _ \<Rightarrow> Inr (arena, out_offset, - 1))"

definition velocity_vctp_packet_create ::
    "u64 \<Rightarrow> u64 \<Rightarrow> u32 \<Rightarrow> u32 \<Rightarrow> vctp_packet_header option \<Rightarrow> vctp_packet_header option \<times> int" where
  "velocity_vctp_packet_create sequence_number workflow_id slab_offset payload_length out_header =
     (case out_header of
        None \<Rightarrow> (None, - 1)
      | Some _ \<Rightarrow>
          (Some (VctpPacketHeader_new sequence_number workflow_id slab_offset payload_length), 0))"

definition velocity_vctp_aimd_update ::
    "aimd_controller option \<Rightarrow> u32 \<Rightarrow> aimd_controller option \<times> int" where
  "velocity_vctp_aimd_update controller loss_percent =
     (case controller of
        None \<Rightarrow> (None, - 1)
      | Some c \<Rightarrow> (Some (AimdController_update c loss_percent), 0))"

definition velocity_wal_write_step ::
    "digest_fn \<Rightarrow> slab_header option \<Rightarrow> u32 \<Rightarrow> slab_header option \<times> int" where
  "velocity_wal_write_step sha header step_index =
     (case header of
        None \<Rightarrow> (None, - 1)
      | Some h \<Rightarrow>
          (case wal_append_step sha h step_index of
             (h, Inr _) \<Rightarrow> (Some h, 0)
           | (h, Inl err) \<Rightarrow> (Some h, err)))"

section \<open>A session of a C caller on one header\<close>

datatype ffi_call = MarkStep u32 | WalWriteStep u32

fun slab_call :: "digest_fn \<Rightarrow> ffi_call \<Rightarrow> slab_header option \<Rightarrow> slab_header option" where
  "slab_call sha (MarkStep i) h = fst (velocity_slab_mark_step sha h i)"
| "slab_call sha (WalWriteStep i) h = fst (velocity_wal_write_step sha h i)"

lemma slab_call_ok:
  assumes "digest32 sha" and "slab_ok sha h"
  shows "\<exists>h'. slab_call sha c (Some h) = Some h' \<and> slab_ok sha h' \<and>
     steps_of (sh_step_bitmask h) \<subseteq> steps_of (sh_step_bitmask h')"
proof -
  have wf: "bitmask_wf (sh_step_bitmask h)" using assms by (simp add: slab_ok_def slab_wf_def)
  have m: "steps_of (sh_step_bitmask h) \<subseteq> steps_of (sh_step_bitmask (fst (mark_step_completed sha h i)))" for i
    using steps_of_set_step [OF wf, of i] by auto
  show ?thesis
  proof (cases c)
    case (MarkStep i)
    have "slab_call sha c (Some h) = Some (fst (mark_step_completed sha h (unat i)))"
      by (simp add: MarkStep velocity_slab_mark_step_def split: prod.splits bool.splits)
    then show ?thesis using m slab_ok_mark [OF assms] by blast
  next
    case (WalWriteStep i)
    have "slab_call sha c (Some h) = Some (fst (wal_append_step sha h i))"
      by (simp add: WalWriteStep velocity_wal_write_step_def split: prod.splits sum.splits)
    then show ?thesis
      using m slab_ok_wal_append [OF assms] wal_append_step_cases [of sha h i] by force
  qed
qed

lemma slab_calls_ok:
  assumes "digest32 sha" and "slab_ok sha h"
  shows "\<exists>h'. fold (slab_call sha) cs (Some h) = Some h' \<and> slab_ok sha h' \<and>
     steps_of (sh_step_bitmask h) \<subseteq> steps_of (sh_step_bitmask h')"
  using assms(2)
proof (induction cs arbitrary: h)
  case (Cons c cs)
  obtain h1 where h1: "slab_call sha c (Some h) = Some h1" "slab_ok sha h1"
    "steps_of (sh_step_bitmask h) \<subseteq> steps_of (sh_step_bitmask h1)"
    using slab_call_ok [OF assms(1) Cons.prems, of c] by blast
  then show ?case using Cons.IH [OF h1(2)] by auto
qed auto

section \<open>Properties\<close>

text \<open>
  C21.  Whatever sequence of step calls a C caller makes on a header that
  \<open>velocity_slab_create\<close> filled in, with whatever indices, no completed step is lost and
  \<open>velocity_slab_verify\<close> answers 1 at every point.
\<close>

theorem ffi_slab_session_verifies:
  assumes "digest32 sha"
  shows "velocity_slab_verify sha
      (fold (slab_call sha) (cs @ ds) (fst (velocity_slab_create sha w r t (Some h0)))) = 1
    \<and> (\<exists>h h'. fold (slab_call sha) cs (fst (velocity_slab_create sha w r t (Some h0))) = Some h
         \<and> fold (slab_call sha) ds (Some h) = Some h'
         \<and> steps_of (sh_step_bitmask h) \<subseteq> steps_of (sh_step_bitmask h'))"
proof -
  obtain h where h: "fold (slab_call sha) cs (Some (SlabHeader_new sha w r t)) = Some h" "slab_ok sha h"
    using slab_calls_ok [OF assms slab_ok_new [OF assms]] by blast
  obtain h' where h': "fold (slab_call sha) ds (Some h) = Some h'" "slab_ok sha h'"
    "steps_of (sh_step_bitmask h) \<subseteq> steps_of (sh_step_bitmask h')"
    using slab_calls_ok [OF assms h(2), of ds] by blast
  show ?thesis
    using h h' by (simp add: velocity_slab_create_def velocity_slab_verify_def slab_ok_def)
qed

theorem ffi_slab_session_verifies_witness:
  "velocity_slab_verify (\<lambda>_. replicate 32 7)
     (fold (slab_call (\<lambda>_. replicate 32 7)) [MarkStep 3, WalWriteStep 900, WalWriteStep 1]
       (fst (velocity_slab_create (\<lambda>_. replicate 32 7) 1 2 9
          (Some (SlabHeader_new (\<lambda>_. replicate 32 7) 0 0 0))))) = 1"
  using ffi_slab_session_verifies [of "\<lambda>_. replicate 32 7" "[MarkStep 3]" "[WalWriteStep 900, WalWriteStep 1]"
      1 2 9 "SlabHeader_new (\<lambda>_. replicate 32 7) 0 0 0"]
  by (simp add: digest32_def)

end
