(* ===== verification/Vctp_Cipher.thy ===== *)
theory Vctp_Cipher
  imports Vctp_Packet Slab
begin

text \<open>
  \<open>velocity-workflow-core/src/vctp.rs\<close>, encryption: the XOR stream cipher with its MAC and
  the AES-256-GCM packet cipher.  SHA-256 (crate \<open>sha2\<close>) and the AEAD (crate \<open>aes_gcm\<close>)
  are parameters: a digest function, and an encryption and a decryption that may fail.  The
  AEAD is assumed to decrypt what it encrypted under the same key and nonce (\<open>aead_correct\<close>).
\<close>

section \<open>XOR stream cipher\<close>

record vctp_cipher =
  vc_key :: bytes
  vc_nonce :: u64

definition VctpCipher_new :: "bytes \<Rightarrow> u64 \<Rightarrow> vctp_cipher" where
  "VctpCipher_new key nonce = \<lparr>vc_key = key, vc_nonce = nonce\<rparr>"

definition VctpCipher_from_passphrase :: "digest_fn \<Rightarrow> bytes \<Rightarrow> u64 \<Rightarrow> vctp_cipher" where
  "VctpCipher_from_passphrase sha passphrase nonce = \<lparr>vc_key = sha passphrase, vc_nonce = nonce\<rparr>"

definition keystream :: "vctp_cipher \<Rightarrow> u64 \<Rightarrow> nat \<Rightarrow> u8" where
  "keystream c sequence i =
     (let combined_nonce = vc_nonce c XOR sequence;
          key_idx = i mod 32;
          round = word_of_nat (i div 32) :: u64
      in (vc_key c ! key_idx)
         XOR ucast (drop_bit ((key_idx mod 8) * 8)
               (combined_nonce * 0x9E3779B97F4A7C15 + round * 0x517CC1B727220A95)))"

definition VctpCipher_apply :: "vctp_cipher \<Rightarrow> bytes \<Rightarrow> u64 \<Rightarrow> bytes" where
  "VctpCipher_apply c data sequence =
     map (\<lambda>(i, b). b XOR keystream c sequence i) (enumerate 0 data)"

definition VctpCipher_encrypt_packet :: "vctp_cipher \<Rightarrow> vctp_packet \<Rightarrow> u64 \<Rightarrow> vctp_packet" where
  "VctpCipher_encrypt_packet c packet sequence =
     packet\<lparr>vp_payload := VctpCipher_apply c (vp_payload packet) sequence\<rparr>"

definition VctpCipher_decrypt_packet :: "vctp_cipher \<Rightarrow> vctp_packet \<Rightarrow> u64 \<Rightarrow> vctp_packet" where
  "VctpCipher_decrypt_packet c packet sequence =
     packet\<lparr>vp_payload := VctpCipher_apply c (vp_payload packet) sequence\<rparr>"

definition compute_mac :: "digest_fn \<Rightarrow> vctp_cipher \<Rightarrow> bytes \<Rightarrow> u64 \<Rightarrow> bytes" where
  "compute_mac sha c data sequence =
     (let inner_hash = sha (vc_key c @ to_le_bytes sequence @ data)
      in sha (vc_key c @ inner_hash))"

definition verify_mac :: "digest_fn \<Rightarrow> vctp_cipher \<Rightarrow> bytes \<Rightarrow> u64 \<Rightarrow> bytes \<Rightarrow> bool" where
  "verify_mac sha c data sequence expected_mac \<longleftrightarrow>
     fold (\<lambda>(a, b) diff. diff OR (a XOR b)) (zip (compute_mac sha c data sequence) expected_mac) 0
       = (0 :: u8)"

section \<open>AES-256-GCM\<close>

text \<open>The AEAD of the crate: key, 12-byte nonce, data; \<open>None\<close> for its error result.\<close>

type_synonym aead = "bytes \<Rightarrow> bytes \<Rightarrow> bytes \<Rightarrow> bytes option"

record aes256gcm_cipher =
  ac_key :: bytes

definition Aes256GcmCipher_new :: "bytes \<Rightarrow> aes256gcm_cipher" where
  "Aes256GcmCipher_new key = \<lparr>ac_key = key\<rparr>"

definition Aes256GcmCipher_from_passphrase :: "digest_fn \<Rightarrow> bytes \<Rightarrow> aes256gcm_cipher" where
  "Aes256GcmCipher_from_passphrase sha passphrase = \<lparr>ac_key = sha passphrase\<rparr>"

definition derive_nonce :: "u64 \<Rightarrow> bytes" where
  "derive_nonce sequence = to_le_bytes sequence @ replicate 4 0"

definition Aes256GcmCipher_encrypt ::
    "aead \<Rightarrow> aes256gcm_cipher \<Rightarrow> bytes \<Rightarrow> u64 \<Rightarrow> panic + bytes" where
  "Aes256GcmCipher_encrypt enc c data sequence =
     (if length (ac_key c) \<noteq> 32 then Inl UnwrapPanic
      else case enc (ac_key c) (derive_nonce sequence) data of
             Some ct \<Rightarrow> Inr ct
           | None \<Rightarrow> Inl UnwrapPanic)"

definition Aes256GcmCipher_decrypt ::
    "aead \<Rightarrow> aes256gcm_cipher \<Rightarrow> bytes \<Rightarrow> u64 \<Rightarrow> panic + bytes option" where
  "Aes256GcmCipher_decrypt dec c data sequence =
     (if length (ac_key c) \<noteq> 32 then Inl UnwrapPanic
      else Inr (dec (ac_key c) (derive_nonce sequence) data))"

text \<open>Both packet operations replace the payload and recompute length and checksum.\<close>

definition replace_payload :: "vctp_packet \<Rightarrow> bytes \<Rightarrow> vctp_packet" where
  "replace_payload packet bs =
     (let header = (vp_header packet)\<lparr>vh_payload_length := word_of_nat (length bs)\<rparr>
      in \<lparr>vp_header = header, vp_payload = bs, vp_checksum = compute_checksum header bs\<rparr>)"

definition Aes256GcmCipher_encrypt_packet ::
    "aead \<Rightarrow> aes256gcm_cipher \<Rightarrow> vctp_packet \<Rightarrow> u64 \<Rightarrow> panic + vctp_packet" where
  "Aes256GcmCipher_encrypt_packet enc c packet sequence =
     map_sum id (replace_payload packet) (Aes256GcmCipher_encrypt enc c (vp_payload packet) sequence)"

definition Aes256GcmCipher_decrypt_packet ::
    "aead \<Rightarrow> aes256gcm_cipher \<Rightarrow> vctp_packet \<Rightarrow> u64 \<Rightarrow> panic + (vctp_packet \<times> bool)" where
  "Aes256GcmCipher_decrypt_packet dec c packet sequence =
     map_sum id (\<lambda>r. case r of Some plaintext \<Rightarrow> (replace_payload packet plaintext, True)
                             | None \<Rightarrow> (packet, False))
       (Aes256GcmCipher_decrypt dec c (vp_payload packet) sequence)"

section \<open>Lemmas\<close>

lemma length_apply [simp]: "length (VctpCipher_apply c data s) = length data"
  by (simp add: VctpCipher_apply_def)

lemma nth_apply: "i < length data \<Longrightarrow> VctpCipher_apply c data s ! i = data ! i XOR keystream c s i"
  by (simp add: VctpCipher_apply_def nth_enumerate_eq)

lemma apply_apply [simp]: "VctpCipher_apply c (VctpCipher_apply c data s) s = data"
  by (rule nth_equalityI) (simp_all add: nth_apply xor.assoc)

lemma or_eq_0: "a OR b = 0 \<longleftrightarrow> a = 0 \<and> b = 0" for a b :: "'a::len word"
  by (auto simp: bit_eq_iff bit_simps)

lemma fold_diff_0:
  "length xs = length ys \<Longrightarrow>
     fold (\<lambda>(a, b) diff. diff OR (a XOR b)) (zip xs ys) d = (0 :: u8) \<longleftrightarrow> d = 0 \<and> xs = ys"
  by (induction xs ys arbitrary: d rule: list_induct2) (auto simp: or_eq_0)

lemma length_compute_mac [simp]: "digest32 sha \<Longrightarrow> length (compute_mac sha c data s) = 32"
  by (simp add: compute_mac_def Let_def)

lemma verify_mac_iff:
  "digest32 sha \<Longrightarrow> length tag = 32 \<Longrightarrow> verify_mac sha c data s tag \<longleftrightarrow> tag = compute_mac sha c data s"
  by (auto simp: verify_mac_def fold_diff_0)

definition aead_correct :: "aead \<Rightarrow> aead \<Rightarrow> bool" where
  "aead_correct enc dec \<longleftrightarrow> (\<forall>k n p ct. enc k n p = Some ct \<longrightarrow> dec k n ct = Some p)"

lemma packet_wf_replace_payload:
  assumes "VctpPacketHeader_is_valid (vp_header p)" and "length bs < 2 ^ 32"
  shows "packet_wf (replace_payload p bs)"
  using assms
  by (simp add: packet_wf_def replace_payload_def Let_def verify_checksum_def
      VctpPacketHeader_is_valid_def unat_of_nat)

lemma replace_payload_back:
  assumes "packet_wf p"
  shows "replace_payload (replace_payload p bs) (vp_payload p) = p"
proof -
  have "length (vp_payload p) = unat (vh_payload_length (vp_header p))"
    using assms by (simp add: packet_wf_def)
  then have "word_of_nat (length (vp_payload p)) = vh_payload_length (vp_header p)"
    by simp
  then show ?thesis
    using assms by (cases p) (auto simp: replace_payload_def Let_def packet_wf_def verify_checksum_def)
qed

section \<open>Properties\<close>

text \<open>
  C6.  A packet encrypted under AES-256-GCM, sent as bytes and decoded, passes the frame
  check and decrypts to the packet that was encrypted, header and checksum included; no
  step panics.  The ciphertext must fit the 32-bit length field.
\<close>

theorem aes_packet_end_to_end:
  assumes "aead_correct enc dec" and "length (ac_key c) = 32" and "packet_wf p"
    and "enc (ac_key c) (derive_nonce s) (vp_payload p) = Some ct" and "length ct < 2 ^ 32"
  shows "\<exists>q. Aes256GcmCipher_encrypt_packet enc c p s = Inr q
    \<and> VctpPacket_from_bytes (VctpPacket_to_bytes q) = Some q
    \<and> Aes256GcmCipher_decrypt_packet dec c q s = Inr (p, True)"
proof (intro exI conjI)
  let ?q = "replace_payload p ct"
  show "Aes256GcmCipher_encrypt_packet enc c p s = Inr ?q"
    using assms by (simp add: Aes256GcmCipher_encrypt_packet_def Aes256GcmCipher_encrypt_def)
  have "packet_wf ?q"
    using assms by (intro packet_wf_replace_payload) (simp_all add: packet_wf_def)
  from packet_from_to_bytes [OF this, of "[]"]
  show "VctpPacket_from_bytes (VctpPacket_to_bytes ?q) = Some ?q" by simp
  have "vp_payload ?q = ct" by (simp add: replace_payload_def Let_def)
  then show "Aes256GcmCipher_decrypt_packet dec c ?q s = Inr (p, True)"
    using assms replace_payload_back [OF assms(3), of ct]
    by (simp add: Aes256GcmCipher_decrypt_packet_def Aes256GcmCipher_decrypt_def aead_correct_def)
qed

theorem aes_packet_end_to_end_witness:
  "\<exists>q. Aes256GcmCipher_encrypt_packet (\<lambda>k n p. Some (p @ replicate 16 0))
         (Aes256GcmCipher_new (replicate 32 1)) (VctpPacket_new (VctpPacketHeader_new 1 2 3 2) [7, 8]) 5 = Inr q
     \<and> Aes256GcmCipher_decrypt_packet (\<lambda>k n c. Some (take (length c - 16) c))
         (Aes256GcmCipher_new (replicate 32 1)) q 5
       = Inr (VctpPacket_new (VctpPacketHeader_new 1 2 3 2) [7, 8], True)"
proof -
  let ?p = "VctpPacket_new (VctpPacketHeader_new 1 2 3 2) [7, 8]"
  let ?enc = "\<lambda>k n p. Some (p @ replicate 16 (0::u8))"
  let ?dec = "\<lambda>k n c. Some (take (length c - 16) (c :: bytes))"
  have wf: "packet_wf ?p"
    by (rule packet_wf_new) (simp_all add: VctpPacketHeader_is_valid_def VctpPacketHeader_new_def)
  have len: "length (vp_payload ?p @ replicate 16 (0::u8)) < 2 ^ 32" by (simp add: VctpPacket_new_def)
  have corr: "aead_correct ?enc ?dec" by (simp add: aead_correct_def)
  have key: "length (ac_key (Aes256GcmCipher_new (replicate 32 1))) = 32"
    by (simp add: Aes256GcmCipher_new_def)
  show ?thesis
    using aes_packet_end_to_end [OF corr key wf refl len, of 5] by blast
qed

text \<open>
  The MAC binds message and sequence number: if \<open>verify_mac\<close> accepts a tag computed
  for other data or another sequence number under the same key, then SHA-256 collides on
  the two inner messages or on the two outer ones.
\<close>

theorem mac_binds_message:
  assumes "digest32 sha" and "verify_mac sha c data' s' (compute_mac sha c data s)"
    and "(data', s') \<noteq> (data, s)"
  shows "\<exists>x y. x \<noteq> y \<and> sha x = sha y \<and>
     ((x, y) = (vc_key c @ to_le_bytes s' @ data', vc_key c @ to_le_bytes s @ data)
      \<or> (x, y) = (vc_key c @ sha (vc_key c @ to_le_bytes s' @ data'),
                  vc_key c @ sha (vc_key c @ to_le_bytes s @ data)))"
proof -
  let ?i' = "vc_key c @ to_le_bytes s' @ data'" and ?i = "vc_key c @ to_le_bytes s @ data"
  have "compute_mac sha c data s = compute_mac sha c data' s'"
    using assms(1,2) by (simp add: verify_mac_iff)
  then have outer: "sha (vc_key c @ sha ?i') = sha (vc_key c @ sha ?i)"
    by (simp add: compute_mac_def)
  have inner: "?i' \<noteq> ?i" using assms(3) by auto
  show ?thesis
  proof (cases "sha ?i' = sha ?i")
    case True with inner show ?thesis by blast
  next
    case False
    then have "vc_key c @ sha ?i' \<noteq> vc_key c @ sha ?i" by simp
    with outer show ?thesis by blast
  qed
qed

theorem mac_binds_message_witness:
  "\<exists>x y. x \<noteq> y \<and> (\<lambda>_. replicate 32 0) x = (\<lambda>_ :: bytes. replicate 32 (0::u8)) y \<and>
     ((x, y) = (vc_key (VctpCipher_new [1] 2) @ to_le_bytes (3 :: u64) @ [4], vc_key (VctpCipher_new [1] 2) @ to_le_bytes (3 :: u64) @ [5])
      \<or> (x, y) = (vc_key (VctpCipher_new [1] 2) @ replicate 32 0, vc_key (VctpCipher_new [1] 2) @ replicate 32 0))"
proof -
  let ?sha = "\<lambda>_ :: bytes. replicate 32 (0::u8)"
  have "digest32 ?sha" by (simp add: digest32_def)
  moreover have "verify_mac ?sha (VctpCipher_new [1] 2) [4] 3 (compute_mac ?sha (VctpCipher_new [1] 2) [5] 3)"
    using \<open>digest32 ?sha\<close> by (simp add: verify_mac_iff) (simp add: compute_mac_def)
  ultimately show ?thesis
    using mac_binds_message [of ?sha "VctpCipher_new [1] 2" "[4]" 3 "[5]" 3] by simp
qed

text \<open>
  The XOR cipher is its own inverse on data and on packets, under any key and nonce,
  when the same sequence number is used; it never changes the length.
\<close>

theorem xor_cipher_round_trip:
  "VctpCipher_apply c (VctpCipher_apply c data s) s = data
   \<and> length (VctpCipher_apply c data s) = length data
   \<and> VctpCipher_decrypt_packet c (VctpCipher_encrypt_packet c p s) s = p"
  by (simp add: VctpCipher_decrypt_packet_def VctpCipher_encrypt_packet_def)

text \<open>
  \<open>VctpCipher::encrypt_packet\<close> leaves the checksum of the plaintext in the packet, so
  an encrypted packet does not survive transport: for a payload of at most four bytes that
  encryption changes at all, the receiver's \<open>from_bytes\<close> rejects the frame.
\<close>

theorem xor_encrypted_packet_rejected:
  assumes "packet_wf p" and "length (vp_payload p) \<le> 4"
    and "VctpCipher_apply c (vp_payload p) s \<noteq> vp_payload p"
  shows "VctpPacket_from_bytes (VctpPacket_to_bytes (VctpCipher_encrypt_packet c p s)) = None"
proof -
  let ?h = "VctpPacketHeader_to_bytes (vp_header p)" and ?k = "to_le_bytes (vp_checksum p)"
  let ?ct = "VctpCipher_apply c (vp_payload p) s"
  have "VctpPacket_from_bytes (?h @ vp_payload p @ ?k) = Some p"
    using packet_from_to_bytes [OF assms(1), of "[]"] by (simp add: VctpPacket_to_bytes_def)
  then have "VctpPacket_from_bytes (?h @ ?ct @ ?k) = None"
    using burst_rejected [of ?h "vp_payload p" ?k p ?ct] assms by auto
  then show ?thesis by (simp add: VctpPacket_to_bytes_def VctpCipher_encrypt_packet_def)
qed

theorem xor_encrypted_packet_rejected_witness:
  "VctpPacket_from_bytes (VctpPacket_to_bytes (VctpCipher_encrypt_packet (VctpCipher_new (replicate 32 5) 0)
      (VctpPacket_new (VctpPacketHeader_new 1 2 3 2) [7, 8]) 0)) = None"
proof (rule xor_encrypted_packet_rejected)
  show "packet_wf (VctpPacket_new (VctpPacketHeader_new 1 2 3 2) [7, 8])"
    by (rule packet_wf_new) (simp_all add: VctpPacketHeader_is_valid_def VctpPacketHeader_new_def)
qed (simp_all add: VctpPacket_new_def VctpCipher_apply_def keystream_def VctpCipher_new_def Let_def)

end
