(* ===== verification/Vctp_Replay.thy ===== *)
theory Vctp_Replay
  imports Prelude
begin

text \<open>
  \<open>velocity-workflow-core/src/vctp.rs\<close>, replay protection: the sliding window over packet
  sequence numbers.  For windows up to 64, the width of the bit mask, the window is shown to
  accept exactly the fresh sequence numbers; for a larger one it accepts a replay.
\<close>

record vctp_replay_window =
  rw_highest_seq :: u64
  rw_window_mask :: u64
  rw_window_size :: u64

definition VctpReplayWindow_new :: "u64 \<Rightarrow> vctp_replay_window" where
  "VctpReplayWindow_new window_size =
     \<lparr>rw_highest_seq = 0, rw_window_mask = 0, rw_window_size = window_size\<rparr>"

text \<open>
  \<open>1 << offset\<close> on a \<open>u64\<close> shifts by the low six bits of the offset when overflow checks
  are off.
\<close>

definition check_and_record :: "vctp_replay_window \<Rightarrow> u64 \<Rightarrow> vctp_replay_window \<times> bool" where
  "check_and_record w seq =
     (if seq = 0 \<and> rw_highest_seq w = 0 \<and> rw_window_mask w = 0
      then (w\<lparr>rw_highest_seq := 0, rw_window_mask := 1\<rparr>, True)
      else if seq > rw_highest_seq w
      then let shift = seq - rw_highest_seq w in
        ((if shift \<ge> 64 then w\<lparr>rw_window_mask := 1\<rparr>
          else w\<lparr>rw_window_mask := push_bit (unat shift) (rw_window_mask w) OR 1\<rparr>)
           \<lparr>rw_highest_seq := seq\<rparr>, True)
      else let offset = rw_highest_seq w - seq in
        if offset \<ge> rw_window_size w then (w, False)
        else if rw_window_mask w AND push_bit (unat offset mod 64) 1 \<noteq> 0 then (w, False)
        else (w\<lparr>rw_window_mask := rw_window_mask w OR push_bit (unat offset mod 64) 1\<rparr>, True))"

definition tracked_count :: "vctp_replay_window \<Rightarrow> u32" where
  "tracked_count w = count_ones (rw_window_mask w)"

definition highest_sequence :: "vctp_replay_window \<Rightarrow> u64" where
  "highest_sequence w = rw_highest_seq w"

text \<open>A stream of packets: the window after it and the sequence numbers accepted, in order.\<close>

fun replay_run :: "vctp_replay_window \<Rightarrow> u64 list \<Rightarrow> vctp_replay_window \<times> u64 list" where
  "replay_run w [] = (w, [])"
| "replay_run w (seq # seqs) =
     (let (w, ok) = check_and_record w seq; (w, acc) = replay_run w seqs
      in (w, if ok then seq # acc else acc))"

section \<open>The window represents the accepted sequence numbers\<close>

definition replay_inv :: "u64 \<Rightarrow> vctp_replay_window \<Rightarrow> u64 set \<Rightarrow> bool" where
  "replay_inv ws w S \<longleftrightarrow> rw_window_size w = ws
     \<and> (S = {} \<longrightarrow> rw_highest_seq w = 0)
     \<and> (S \<noteq> {} \<longrightarrow> rw_highest_seq w \<in> S)
     \<and> (\<forall>s\<in>S. s \<le> rw_highest_seq w)
     \<and> (\<forall>i<64. bit (rw_window_mask w) i \<longleftrightarrow> (\<exists>s\<in>S. unat s + i = unat (rw_highest_seq w)))"

text \<open>When a sequence number is fresh, given the ones accepted before.\<close>

definition replay_fresh :: "u64 \<Rightarrow> u64 set \<Rightarrow> u64 \<Rightarrow> bool" where
  "replay_fresh ws S seq \<longleftrightarrow>
     S = {} \<or> Max S < seq \<or> seq \<notin> S \<and> unat (Max S) - unat seq < unat ws"

lemma replay_inv_new: "replay_inv ws (VctpReplayWindow_new ws) {}"
  by (simp add: replay_inv_def VctpReplayWindow_new_def)

lemma replay_inv_Max:
  assumes "replay_inv ws w S" and "S \<noteq> {}"
  shows "Max S = rw_highest_seq w"
  by (rule Max_eqI) (use assms in \<open>auto simp: replay_inv_def\<close>)

lemma replay_inv_mask_0:
  assumes "replay_inv ws w S"
  shows "rw_window_mask w = 0 \<longleftrightarrow> S = {}"
proof
  assume "rw_window_mask w = 0"
  then have "\<not> bit (rw_window_mask w) 0" by simp
  then show "S = {}" using assms by (force simp: replay_inv_def)
next
  assume "S = {}"
  then have "\<not> bit (rw_window_mask w) i" if "i < 64" for i
    using assms that by (auto simp: replay_inv_def)
  then show "rw_window_mask w = 0" by (intro bit_word_eqI) simp
qed

lemma replay_inv_seen:
  assumes "replay_inv ws w S" and "seq \<le> rw_highest_seq w" and "unat (rw_highest_seq w - seq) < 64"
  shows "bit (rw_window_mask w) (unat (rw_highest_seq w - seq)) \<longleftrightarrow> seq \<in> S"
proof -
  have "unat (rw_highest_seq w - seq) = unat (rw_highest_seq w) - unat seq"
    using assms(2) by (rule unat_sub)
  moreover have "unat seq \<le> unat (rw_highest_seq w)"
    using assms(2) by (simp add: word_le_nat_alt)
  ultimately have "unat s + unat (rw_highest_seq w - seq) = unat (rw_highest_seq w) \<longleftrightarrow> s = seq" for s
    by (auto simp: word_unat_eq_iff)
  then show ?thesis using assms(1,3) by (simp add: replay_inv_def)
qed

lemma replay_inv_first:
  "replay_inv ws w {} \<Longrightarrow> replay_inv ws (w\<lparr>rw_highest_seq := 0, rw_window_mask := 1\<rparr>) {0}"
  by (auto simp: replay_inv_def bit_1_iff)

lemma replay_inv_advance:
  assumes inv: "replay_inv ws w S" and less: "rw_highest_seq w < seq"
  defines "shift \<equiv> seq - rw_highest_seq w"
  shows "replay_inv ws ((if shift \<ge> 64 then w\<lparr>rw_window_mask := 1\<rparr>
       else w\<lparr>rw_window_mask := push_bit (unat shift) (rw_window_mask w) OR 1\<rparr>)\<lparr>rw_highest_seq := seq\<rparr>)
     (insert seq S)"
proof -
  let ?h = "unat (rw_highest_seq w)" and ?q = "unat seq"
  have q: "?h < ?q" using less by (simp add: word_less_nat_alt)
  have sh: "unat shift = ?q - ?h" using less by (simp add: shift_def unat_sub)
  have le: "unat s \<le> ?h" if "s \<in> S" for s
    using inv that by (auto simp: replay_inv_def word_le_nat_alt)
  have old: "bit (rw_window_mask w) i \<longleftrightarrow> (\<exists>s\<in>S. unat s + i = ?h)" if "i < 64" for i
    using inv that by (auto simp: replay_inv_def)
  have far: "bit (1 :: u64) i \<longleftrightarrow> (\<exists>s\<in>insert seq S. unat s + i = ?q)" if "i < 64" "64 \<le> shift" for i
    using that sh q le by (force simp: bit_1_iff word_le_nat_alt)
  have near: "bit (push_bit (unat shift) (rw_window_mask w) OR 1) i \<longleftrightarrow>
      (\<exists>s\<in>insert seq S. unat s + i = ?q)" if "i < 64" for i
  proof -
    have "bit (push_bit (unat shift) (rw_window_mask w) OR 1) i \<longleftrightarrow>
        (?q - ?h \<le> i \<and> bit (rw_window_mask w) (i - (?q - ?h))) \<or> i = 0"
      using that by (auto simp: bit_simps sh)
    also have "\<dots> \<longleftrightarrow> (?q - ?h \<le> i \<and> (\<exists>s\<in>S. unat s + (i - (?q - ?h)) = ?h)) \<or> i = 0"
      using that old [of "i - (?q - ?h)"] by auto
    also have "\<dots> \<longleftrightarrow> (\<exists>s\<in>insert seq S. unat s + i = ?q)"
      using q le by force
    finally show ?thesis .
  qed
  have "s \<le> seq" if "s \<in> S" for s
    using le [OF that] q by (simp add: word_le_nat_alt)
  then show ?thesis
    using inv far near by (auto simp: replay_inv_def)
qed

lemma replay_inv_mark:
  assumes inv: "replay_inv ws w S" and le: "seq \<le> rw_highest_seq w" and "S \<noteq> {}"
    and off: "unat (rw_highest_seq w - seq) < 64"
  shows "replay_inv ws
     (w\<lparr>rw_window_mask := rw_window_mask w OR push_bit (unat (rw_highest_seq w - seq)) 1\<rparr>) (insert seq S)"
proof -
  have "unat (rw_highest_seq w - seq) = unat (rw_highest_seq w) - unat seq"
    "unat seq \<le> unat (rw_highest_seq w)"
    using le by (simp_all add: unat_sub word_le_nat_alt)
  then have "bit (rw_window_mask w OR push_bit (unat (rw_highest_seq w - seq)) 1) i \<longleftrightarrow>
      (\<exists>s\<in>insert seq S. unat s + i = unat (rw_highest_seq w))" if "i < 64" for i
    using inv that off by (auto simp: replay_inv_def bit_simps)
  then show ?thesis
    using inv le \<open>S \<noteq> {}\<close> by (auto simp: replay_inv_def)
qed

lemma check_and_record_spec:
  assumes inv: "replay_inv ws w S" and ws: "ws \<le> 64" and step: "check_and_record w seq = (w', ok)"
  shows "ok \<longleftrightarrow> replay_fresh ws S seq" and "replay_inv ws w' (if ok then insert seq S else S)"
    and "ok \<Longrightarrow> seq \<notin> S"
proof -
  let ?h = "rw_highest_seq w"
  have "(ok \<longleftrightarrow> replay_fresh ws S seq) \<and> replay_inv ws w' (if ok then insert seq S else S) \<and> (ok \<longrightarrow> seq \<notin> S)"
  proof (cases "seq = 0 \<and> ?h = 0 \<and> rw_window_mask w = 0")
    case True
    then have S: "S = {}" using replay_inv_mask_0 [OF inv] by simp
    then show ?thesis
      using step True inv replay_inv_first [of ws w]
      by (auto simp: check_and_record_def replay_fresh_def)
  next
    case nz: False
    show ?thesis
    proof (cases "?h < seq")
      case True
      then have "seq \<notin> S" using inv by (auto simp: replay_inv_def)
      moreover have "replay_fresh ws S seq"
        using True replay_inv_Max [OF inv] by (cases "S = {}") (simp_all add: replay_fresh_def)
      ultimately show ?thesis
        using step nz True replay_inv_advance [OF inv True] by (auto simp: check_and_record_def Let_def)
    next
      case False
      then have le: "seq \<le> ?h" by simp
      have S: "S \<noteq> {}"
        using nz replay_inv_mask_0 [OF inv] le inv by (auto simp: replay_inv_def)
      have off: "unat (?h - seq) = unat ?h - unat seq" using le by (rule unat_sub)
      have fresh: "replay_fresh ws S seq \<longleftrightarrow> seq \<notin> S \<and> unat (?h - seq) < unat ws"
        using S False by (simp add: replay_fresh_def replay_inv_Max [OF inv S] off)
      have sz: "rw_window_size w = ws" using inv by (simp add: replay_inv_def)
      show ?thesis
      proof (cases "ws \<le> ?h - seq")
        case True
        then show ?thesis
          using step nz False inv by (auto simp: check_and_record_def Let_def sz fresh word_le_nat_alt)
      next
        case in_window: False
        then have o64: "unat (?h - seq) < 64" and ows: "unat (?h - seq) < unat ws"
          using ws by (simp_all add: word_le_nat_alt)
        show ?thesis
          using step nz False in_window o64 ows fresh inv replay_inv_seen [OF inv le o64]
            replay_inv_mark [OF inv le S o64]
          by (auto simp: check_and_record_def Let_def sz and_exp_eq_0_iff_not_bit split: if_splits)
      qed
    qed
  qed
  then show "ok \<longleftrightarrow> replay_fresh ws S seq" and "replay_inv ws w' (if ok then insert seq S else S)"
    and "ok \<Longrightarrow> seq \<notin> S" by blast+
qed

lemma replay_run_spec:
  assumes "replay_inv ws w S" and "ws \<le> 64" and "replay_run w seqs = (w', acc)"
  shows "replay_inv ws w' (S \<union> set acc) \<and> distinct acc \<and> S \<inter> set acc = {}"
  using assms
proof (induction seqs arbitrary: w S acc)
  case (Cons seq seqs)
  obtain w1 ok where st: "check_and_record w seq = (w1, ok)" by (cases "check_and_record w seq")
  obtain acc1 where r: "replay_run w1 seqs = (w', acc1)" and acc: "acc = (if ok then seq # acc1 else acc1)"
    using Cons.prems(3) st by (auto split: prod.splits)
  note spec = check_and_record_spec [OF Cons.prems(1,2) st]
  show ?case using Cons.IH [OF spec(2) Cons.prems(2) r] spec(3) acc by (auto split: if_splits)
qed simp

section \<open>Properties\<close>

text \<open>
  C3.  With a window of at most 64, no stream of packets makes the receiver accept a
  sequence number twice, and after any stream the decision on the next one is exactly
  freshness: it is above everything accepted so far, or unseen and less than the window
  size behind the highest accepted one.
\<close>

theorem replay_window_exact:
  assumes "ws \<le> 64" and "replay_run (VctpReplayWindow_new ws) seqs = (w, acc)"
  shows "distinct acc \<and> (snd (check_and_record w seq) \<longleftrightarrow> replay_fresh ws (set acc) seq)"
proof -
  have "replay_inv ws w (set acc)" "distinct acc"
    using replay_run_spec [OF replay_inv_new assms] by simp_all
  then show ?thesis
    using check_and_record_spec(1) [OF _ assms(1) surjective_pairing, of w "set acc" seq] by blast
qed

theorem replay_window_exact_witness:
  "snd (check_and_record (fst (replay_run (VctpReplayWindow_new 64) [5, 3])) 4)
   \<longleftrightarrow> replay_fresh 64 (set (snd (replay_run (VctpReplayWindow_new 64) [5, 3]))) 4"
  using replay_window_exact [OF _ surjective_pairing, of 64 "[5, 3]" 4] by simp

text \<open>
  With a window of 128, one of the sizes the constructor's documentation names as
  typical, a replay is accepted: after 10 and 80, the packet 10 passes a second time.
\<close>

theorem replay_window_128_accepts_replay:
  "snd (replay_run (VctpReplayWindow_new 128) [10, 80, 10]) = [10, 80, 10]"
  by code_simp

end
