(* ===== verification/Slab_Pool.thy ===== *)
theory Slab_Pool
  imports Slab Slot_Array
begin

text \<open>
  \<open>velocity-workflow-engine/src/workflow_slab_pool.rs\<close>: the fixed pool of slab slots and the
  pool of workflow contexts that replaces the concurrent map.  Every operation of the context
  pool holds its mutex throughout, so operations are single steps.  The pool is shown to be a
  map of \<open>kv_store\<close> as long as no two live keys share a bucket of the key index; with a
  shared bucket a live workflow can be lost.
\<close>

section \<open>Slab pool\<close>

definition SLAB_POOL_CAPACITY :: nat where
  "SLAB_POOL_CAPACITY = 65536"

text \<open>The padding bytes of the C layout are left out.\<close>

record slot_meta =
  me_workflow_type_id :: u64
  me_namespace_id :: u64
  me_task_queue_hash :: u64
  me_status :: u8
  me_start_time_ms :: u64
  me_close_time_ms :: u64
  me_event_sequence :: u64
  me_parent_key :: u64
  me_child_count :: u32
  me_child_keys :: "u64 list"
  me_result_offset :: u32
  me_result_len :: u32
  me_input_offset :: u32
  me_input_len :: u32
  me_arena_page_index :: u16

definition SlotMeta_empty :: slot_meta where
  "SlotMeta_empty =
     \<lparr>me_workflow_type_id = 0, me_namespace_id = 0, me_task_queue_hash = 0, me_status = 0,
      me_start_time_ms = 0, me_close_time_ms = 0, me_event_sequence = 0, me_parent_key = 0,
      me_child_count = 0, me_child_keys = replicate 4 0, me_result_offset = 0, me_result_len = 0,
      me_input_offset = 0, me_input_len = 0, me_arena_page_index = 0\<rparr>"

definition is_free :: "slot_meta \<Rightarrow> bool" where
  "is_free m \<longleftrightarrow> me_status m = 0"

definition is_active :: "slot_meta \<Rightarrow> bool" where
  "is_active m \<longleftrightarrow> me_status m = 1"

record slab_slot =
  ss_header :: slab_header
  ss_meta :: slot_meta

definition SlabSlot_empty :: slab_slot where
  "SlabSlot_empty =
     \<lparr>ss_header = \<lparr>sh_magic = 0, sh_schema_version = 0, sh_workflow_id = 0, sh_run_id = 0,
        sh_current_step = 0, sh_total_steps = 0, sh_merkle_root = replicate 32 0,
        sh_step_bitmask = Bitmask256_new, sh_prev_merkle_root = replicate 32 0\<rparr>,
      ss_meta = SlotMeta_empty\<rparr>"

record slab_pool =
  sp_slots :: "slab_slot list"
  sp_free_cursor :: u16
  sp_active_count :: u64
  sp_total_allocated :: u64
  sp_total_evicted :: u64

definition WorkflowSlabPool_new :: slab_pool where
  "WorkflowSlabPool_new =
     \<lparr>sp_slots = replicate SLAB_POOL_CAPACITY SlabSlot_empty, sp_free_cursor = 0,
      sp_active_count = 0, sp_total_allocated = 0, sp_total_evicted = 0\<rparr>"

definition allocate :: "slab_pool \<Rightarrow> slab_header \<Rightarrow> slot_meta \<Rightarrow> slab_pool \<times> nat option" where
  "allocate p header meta =
     (let start = unat (sp_free_cursor p) in
      case find (\<lambda>idx. is_free (ss_meta (sp_slots p ! idx)))
             (map (\<lambda>i. (start + i) mod SLAB_POOL_CAPACITY) [0..<SLAB_POOL_CAPACITY]) of
        Some idx \<Rightarrow>
          (p\<lparr>sp_slots := (sp_slots p)[idx := \<lparr>ss_header = header, ss_meta = meta\<rparr>],
             sp_free_cursor := word_of_nat ((idx + 1) mod SLAB_POOL_CAPACITY),
             sp_active_count := sp_active_count p + 1,
             sp_total_allocated := sp_total_allocated p + 1\<rparr>, Some idx)
      | None \<Rightarrow> (p, None))"

definition find_by_workflow_id :: "slab_pool \<Rightarrow> u64 \<Rightarrow> nat option" where
  "find_by_workflow_id p workflow_id =
     position (\<lambda>s. \<not> is_free (ss_meta s) \<and> sh_workflow_id (ss_header s) = workflow_id) (sp_slots p)"

definition find_by_run_id :: "slab_pool \<Rightarrow> u64 \<Rightarrow> nat option" where
  "find_by_run_id p run_id =
     position (\<lambda>s. \<not> is_free (ss_meta s) \<and> sh_run_id (ss_header s) = run_id) (sp_slots p)"

text \<open>Zeroing the bytes of a slot gives the empty slot.\<close>

definition evict :: "slab_pool \<Rightarrow> nat \<Rightarrow> slab_pool" where
  "evict p idx =
     (if idx \<ge> length (sp_slots p) then p
      else p\<lparr>sp_slots := (sp_slots p)[idx := SlabSlot_empty],
             sp_free_cursor := word_of_nat idx,
             sp_active_count := sp_active_count p - 1,
             sp_total_evicted := sp_total_evicted p + 1\<rparr>)"

definition evict_completed_at :: "nat \<Rightarrow> slab_pool \<times> nat \<Rightarrow> slab_pool \<times> nat" where
  "evict_completed_at idx = (\<lambda>(p, count).
     let status = me_status (ss_meta (sp_slots p ! idx))
     in if status = 2 \<or> status = 3 \<or> status = 4 then (evict p idx, count + 1) else (p, count))"

definition evict_completed :: "slab_pool \<Rightarrow> slab_pool \<times> nat" where
  "evict_completed p = fold evict_completed_at [0..<length (sp_slots p)] (p, 0)"

definition get_header :: "slab_pool \<Rightarrow> nat \<Rightarrow> slab_header option" where
  "get_header p idx =
     (if idx < length (sp_slots p) \<and> \<not> is_free (ss_meta (sp_slots p ! idx))
      then Some (ss_header (sp_slots p ! idx)) else None)"

definition get_meta :: "slab_pool \<Rightarrow> nat \<Rightarrow> slot_meta option" where
  "get_meta p idx =
     (if idx < length (sp_slots p) \<and> \<not> is_free (ss_meta (sp_slots p ! idx))
      then Some (ss_meta (sp_slots p ! idx)) else None)"

text \<open>Writing through the mutable references.\<close>

definition get_header_mut :: "slab_pool \<Rightarrow> nat \<Rightarrow> (slab_header \<Rightarrow> slab_header) \<Rightarrow> slab_pool" where
  "get_header_mut p idx f =
     (if idx \<ge> length (sp_slots p) \<or> is_free (ss_meta (sp_slots p ! idx)) then p
      else p\<lparr>sp_slots := (sp_slots p)[idx :=
              (sp_slots p ! idx)\<lparr>ss_header := f (ss_header (sp_slots p ! idx))\<rparr>]\<rparr>)"

definition get_meta_mut :: "slab_pool \<Rightarrow> nat \<Rightarrow> (slot_meta \<Rightarrow> slot_meta) \<Rightarrow> slab_pool" where
  "get_meta_mut p idx f =
     (if idx \<ge> length (sp_slots p) \<or> is_free (ss_meta (sp_slots p ! idx)) then p
      else p\<lparr>sp_slots := (sp_slots p)[idx :=
              (sp_slots p ! idx)\<lparr>ss_meta := f (ss_meta (sp_slots p ! idx))\<rparr>]\<rparr>)"

definition active_slots :: "slab_pool \<Rightarrow> nat list" where
  "active_slots p = filter (\<lambda>idx. \<not> is_free (ss_meta (sp_slots p ! idx))) [0..<length (sp_slots p)]"

section \<open>Context pool\<close>

definition WORKFLOW_POOL_CAPACITY :: nat where
  "WORKFLOW_POOL_CAPACITY = 8192"

definition KEY_SLOT_EMPTY :: u16 where
  "KEY_SLOT_EMPTY = - 1"

record pool_slot =
  ps_key :: u64
  ps_active :: bool

definition PoolSlot_empty :: pool_slot where
  "PoolSlot_empty = \<lparr>ps_key = 0, ps_active = False\<rparr>"

record 'c ctx_pool =
  cp_key_index :: "u16 list"
  cp_slots :: "pool_slot list"
  cp_contexts :: "'c option list"
  cp_free_list :: "u16 list"
  cp_active_count :: u64
  cp_total_inserted :: u64
  cp_total_removed :: u64

definition WorkflowContextPool_new :: "'c ctx_pool" where
  "WorkflowContextPool_new =
     \<lparr>cp_key_index = replicate WORKFLOW_POOL_CAPACITY KEY_SLOT_EMPTY,
      cp_slots = replicate WORKFLOW_POOL_CAPACITY PoolSlot_empty,
      cp_contexts = replicate WORKFLOW_POOL_CAPACITY None,
      cp_free_list = rev (map word_of_nat [0..<WORKFLOW_POOL_CAPACITY]),
      cp_active_count = 0, cp_total_inserted = 0, cp_total_removed = 0\<rparr>"

definition bucket :: "u64 \<Rightarrow> nat" where
  "bucket key = unat key mod WORKFLOW_POOL_CAPACITY"

definition find_key_slot_linear :: "'c ctx_pool \<Rightarrow> u64 \<Rightarrow> nat option" where
  "find_key_slot_linear p key = position (\<lambda>s. ps_active s \<and> ps_key s = key) (cp_slots p)"

definition find_key_slot :: "'c ctx_pool \<Rightarrow> u64 \<Rightarrow> nat option" where
  "find_key_slot p key =
     (let idx = cp_key_index p ! bucket key in
      if idx = KEY_SLOT_EMPTY then None
      else let idx = unat idx in
        if ps_active (cp_slots p ! idx) \<and> ps_key (cp_slots p ! idx) = key then Some idx
        else find_key_slot_linear p key)"

text \<open>Taking a slot from the free list (a stack whose top is the last element) for a key.\<close>

definition occupy_slot :: "'c ctx_pool \<Rightarrow> u64 \<Rightarrow> 'c \<Rightarrow> 'c ctx_pool \<times> nat" where
  "occupy_slot p key ctx =
     (let idx = unat (last (cp_free_list p)) in
      (p\<lparr>cp_free_list := butlast (cp_free_list p),
         cp_slots := (cp_slots p)[idx := \<lparr>ps_key = key, ps_active = True\<rparr>],
         cp_key_index := (cp_key_index p)[bucket key := word_of_nat idx],
         cp_contexts := (cp_contexts p)[idx := Some ctx],
         cp_active_count := cp_active_count p + 1,
         cp_total_inserted := cp_total_inserted p + 1\<rparr>, idx))"

definition WorkflowContextPool_insert :: "'c ctx_pool \<Rightarrow> u64 \<Rightarrow> 'c \<Rightarrow> 'c ctx_pool \<times> nat option" where
  "WorkflowContextPool_insert p key ctx =
     (case find_key_slot p key of
        Some idx \<Rightarrow> (p\<lparr>cp_contexts := (cp_contexts p)[idx := Some ctx]\<rparr>, Some idx)
      | None \<Rightarrow>
          if cp_free_list p = [] then (p, None)
          else map_prod id Some (occupy_slot p key ctx))"

definition insert_if_absent :: "'c ctx_pool \<Rightarrow> u64 \<Rightarrow> 'c \<Rightarrow> 'c ctx_pool \<times> bool" where
  "insert_if_absent p key ctx =
     (if find_key_slot p key \<noteq> None then (p, False)
      else if cp_free_list p = [] then (p, False)
      else (fst (occupy_slot p key ctx), True))"

definition WorkflowContextPool_with :: "'c ctx_pool \<Rightarrow> u64 \<Rightarrow> ('c option \<Rightarrow> 'r) \<Rightarrow> 'r" where
  "WorkflowContextPool_with p key f =
     f (case find_key_slot p key of Some idx \<Rightarrow> cp_contexts p ! idx | None \<Rightarrow> None)"

text \<open>The closure of \<open>with_mut\<close>: its result on \<open>None\<close>, and its effect and result on a context.\<close>

definition WorkflowContextPool_with_mut ::
    "'c ctx_pool \<Rightarrow> u64 \<Rightarrow> 'r \<Rightarrow> ('c \<Rightarrow> 'c \<times> 'r) \<Rightarrow> 'c ctx_pool \<times> 'r" where
  "WorkflowContextPool_with_mut p key f_none f_some =
     (case find_key_slot p key of
        None \<Rightarrow> (p, f_none)
      | Some idx \<Rightarrow>
          (case cp_contexts p ! idx of
             None \<Rightarrow> (p, f_none)
           | Some ctx \<Rightarrow>
               (p\<lparr>cp_contexts := (cp_contexts p)[idx := Some (fst (f_some ctx))]\<rparr>, snd (f_some ctx))))"

definition WorkflowContextPool_remove :: "'c ctx_pool \<Rightarrow> u64 \<Rightarrow> 'c ctx_pool \<times> 'c option" where
  "WorkflowContextPool_remove p key =
     (case find_key_slot p key of
        None \<Rightarrow> (p, None)
      | Some idx \<Rightarrow>
          (p\<lparr>cp_contexts := (cp_contexts p)[idx := None],
             cp_slots := (cp_slots p)[idx := PoolSlot_empty],
             cp_key_index := (cp_key_index p)[bucket key := KEY_SLOT_EMPTY],
             cp_free_list := cp_free_list p @ [word_of_nat idx],
             cp_active_count := cp_active_count p - 1,
             cp_total_removed := cp_total_removed p + 1\<rparr>, cp_contexts p ! idx))"

definition WorkflowContextPool_for_each_mut :: "'c ctx_pool \<Rightarrow> (u64 \<Rightarrow> 'c \<Rightarrow> 'c) \<Rightarrow> 'c ctx_pool" where
  "WorkflowContextPool_for_each_mut p f =
     p\<lparr>cp_contexts := map2 (\<lambda>s c. if ps_active s then map_option (f (ps_key s)) c else c)
          (cp_slots p) (cp_contexts p)\<rparr>"

definition WorkflowContextPool_keys :: "'c ctx_pool \<Rightarrow> u64 list" where
  "WorkflowContextPool_keys p = map ps_key (filter ps_active (cp_slots p))"

definition WorkflowContextPool_len :: "'c ctx_pool \<Rightarrow> nat" where
  "WorkflowContextPool_len p = unat (cp_active_count p)"

definition WorkflowContextPool_available :: "'c ctx_pool \<Rightarrow> nat" where
  "WorkflowContextPool_available p = length (cp_free_list p)"

section \<open>The context pool without shared buckets\<close>

definition pool_view :: "pool_slot \<times> 'c option \<Rightarrow> (u64 \<times> 'c) option" where
  "pool_view = (\<lambda>(s, c). if ps_active s then map_option (Pair (ps_key s)) c else None)"

abbreviation pool_zip :: "'c ctx_pool \<Rightarrow> (pool_slot \<times> 'c option) list" where
  "pool_zip p \<equiv> zip (cp_slots p) (cp_contexts p)"

definition pool_map :: "'c ctx_pool \<Rightarrow> u64 \<rightharpoonup> 'c" where
  "pool_map p = map_of (live pool_view (pool_zip p))"

text \<open>A slot is live at an index, with a key.\<close>

definition slot_holds :: "'c ctx_pool \<Rightarrow> nat \<Rightarrow> u64 \<Rightarrow> bool" where
  "slot_holds p i k \<longleftrightarrow> i < WORKFLOW_POOL_CAPACITY \<and> ps_active (cp_slots p ! i) \<and> ps_key (cp_slots p ! i) = k"

definition ctx_pool_wf :: "'c ctx_pool \<Rightarrow> bool" where
  "ctx_pool_wf p \<longleftrightarrow>
     length (cp_key_index p) = WORKFLOW_POOL_CAPACITY
     \<and> length (cp_slots p) = WORKFLOW_POOL_CAPACITY
     \<and> length (cp_contexts p) = WORKFLOW_POOL_CAPACITY
     \<and> distinct (cp_free_list p)
     \<and> unat ` set (cp_free_list p) = {i. i < WORKFLOW_POOL_CAPACITY \<and> \<not> ps_active (cp_slots p ! i)}
     \<and> (\<forall>i<WORKFLOW_POOL_CAPACITY. ps_active (cp_slots p ! i) \<longleftrightarrow> cp_contexts p ! i \<noteq> None)
     \<and> (\<forall>i k. slot_holds p i k \<longrightarrow> cp_key_index p ! bucket k = word_of_nat i)
     \<and> (\<forall>b<WORKFLOW_POOL_CAPACITY. cp_key_index p ! b \<noteq> KEY_SLOT_EMPTY \<longrightarrow>
          (\<exists>k. slot_holds p (unat (cp_key_index p ! b)) k \<and> bucket k = b))
     \<and> distinct (map fst (live pool_view (pool_zip p)))
     \<and> cp_active_count p = word_of_nat (length (live pool_view (pool_zip p)))"

definition pool_fits :: "u64 set \<Rightarrow> u64 \<Rightarrow> bool" where
  "pool_fits D k \<longleftrightarrow> (\<forall>k'\<in>D. bucket k' = bucket k \<longrightarrow> k' = k)"

lemma bucket_less [simp]: "bucket k < WORKFLOW_POOL_CAPACITY"
  by (simp add: bucket_def WORKFLOW_POOL_CAPACITY_def)

lemma unat_slot_index [simp]: "i < WORKFLOW_POOL_CAPACITY \<Longrightarrow> unat (word_of_nat i :: u16) = i"
  by (simp add: unat_of_nat WORKFLOW_POOL_CAPACITY_def)

lemma slot_index_not_empty [simp]: "i < WORKFLOW_POOL_CAPACITY \<Longrightarrow> word_of_nat i \<noteq> KEY_SLOT_EMPTY"
proof
  assume i: "i < WORKFLOW_POOL_CAPACITY" and "word_of_nat i = KEY_SLOT_EMPTY"
  then have "unat (word_of_nat i :: u16) = unat KEY_SLOT_EMPTY" by simp
  moreover have "unat KEY_SLOT_EMPTY = 65535"
    by (simp add: KEY_SLOT_EMPTY_def unsigned_minus_1_eq_mask mask_eq_exp_minus_1)
  ultimately show False using i by (simp add: WORKFLOW_POOL_CAPACITY_def)
qed

lemma ctx_pool_wfD:
  assumes "ctx_pool_wf p"
  shows "length (cp_key_index p) = WORKFLOW_POOL_CAPACITY" "length (cp_slots p) = WORKFLOW_POOL_CAPACITY"
    "length (cp_contexts p) = WORKFLOW_POOL_CAPACITY" "distinct (cp_free_list p)"
    "unat ` set (cp_free_list p) = {i. i < WORKFLOW_POOL_CAPACITY \<and> \<not> ps_active (cp_slots p ! i)}"
    "i < WORKFLOW_POOL_CAPACITY \<Longrightarrow> ps_active (cp_slots p ! i) \<longleftrightarrow> cp_contexts p ! i \<noteq> None"
    "slot_holds p i k \<Longrightarrow> cp_key_index p ! bucket k = word_of_nat i"
    "b < WORKFLOW_POOL_CAPACITY \<Longrightarrow> cp_key_index p ! b \<noteq> KEY_SLOT_EMPTY \<Longrightarrow>
       \<exists>k. slot_holds p (unat (cp_key_index p ! b)) k \<and> bucket k = b"
    "distinct (map fst (live pool_view (pool_zip p)))"
    "cp_active_count p = word_of_nat (length (live pool_view (pool_zip p)))"
  using assms by (simp_all add: ctx_pool_wf_def)

lemma slot_holds_inj:
  assumes "ctx_pool_wf p" and "slot_holds p i k" and "slot_holds p j k'" and "bucket k = bucket k'"
  shows "i = j" and "k = k'"
proof -
  have "word_of_nat i = (word_of_nat j :: u16)"
    using ctx_pool_wfD(7) [OF assms(1,2)] ctx_pool_wfD(7) [OF assms(1,3)] assms(4) by simp
  then have "unat (word_of_nat i :: u16) = unat (word_of_nat j :: u16)" by (rule arg_cong)
  moreover have "i < WORKFLOW_POOL_CAPACITY" "j < WORKFLOW_POOL_CAPACITY"
    using assms(2,3) by (simp_all add: slot_holds_def)
  ultimately show "i = j" by (simp only: unat_slot_index)
  then show "k = k'" using assms(2,3) by (simp add: slot_holds_def)
qed

lemma key_at_slot:
  assumes "ctx_pool_wf p" and "i < WORKFLOW_POOL_CAPACITY"
  shows "key_at pool_view k (pool_zip p ! i) \<longleftrightarrow> slot_holds p i k"
  using assms(2) ctx_pool_wfD(2,3) [OF assms(1)] ctx_pool_wfD(6) [OF assms]
  by (auto simp: key_at_def pool_view_def slot_holds_def)

lemma dom_pool_map:
  assumes "ctx_pool_wf p"
  shows "k \<in> dom (pool_map p) \<longleftrightarrow> (\<exists>i. slot_holds p i k)"
proof -
  have "k \<in> dom (pool_map p) \<longleftrightarrow> (\<exists>e\<in>set (pool_zip p). key_at pool_view k e)"
    using key_at_None [of "pool_zip p" pool_view k]
    by (auto simp: pool_map_def dom_map_of_conv_image_fst)
  also have "\<dots> \<longleftrightarrow> (\<exists>i<WORKFLOW_POOL_CAPACITY. key_at pool_view k (pool_zip p ! i))"
    using ctx_pool_wfD(2,3) [OF assms] by (simp add: ex_set_nth del: nth_zip)
  finally show ?thesis using key_at_slot [OF assms] by (metis slot_holds_def)
qed

lemma position_unique:
  assumes "i < length xs" and "P (xs ! i)" and "\<And>j. j < length xs \<Longrightarrow> P (xs ! j) \<Longrightarrow> j = i"
  shows "position P xs = Some i"
proof -
  have "\<not> P (xs ! j)" if "j < i" for j
    using assms(3) [of j] that assms(1) by linarith
  with assms(1,2) show ?thesis by (simp add: position_Some)
qed

lemma find_key_slot_position:
  assumes wf: "ctx_pool_wf p"
  shows "find_key_slot p k = position (key_at pool_view k) (pool_zip p)"
proof -
  have len: "length (pool_zip p) = WORKFLOW_POOL_CAPACITY" using ctx_pool_wfD(2,3) [OF wf] by simp
  have at: "position (key_at pool_view k) (pool_zip p) = Some i" if h: "slot_holds p i k" for i
  proof (rule position_unique)
    have i: "i < WORKFLOW_POOL_CAPACITY" using h by (simp add: slot_holds_def)
    then show "i < length (pool_zip p)" using len by simp
    show "key_at pool_view k (pool_zip p ! i)" using key_at_slot [OF wf i] h by (simp del: nth_zip)
    show "j = i" if j: "j < length (pool_zip p)" "key_at pool_view k (pool_zip p ! j)" for j
    proof -
      have "slot_holds p j k" using key_at_slot [OF wf, of j k] j len by (simp del: nth_zip)
      then show ?thesis using slot_holds_inj(1) [OF wf _ h refl] by blast
    qed
  qed
  have absent: "position (key_at pool_view k) (pool_zip p) = None" if "\<And>i. \<not> slot_holds p i k"
    using that key_at_slot [OF wf] len by (metis position_None in_set_conv_nth)
  have linear: "find_key_slot_linear p k = None" if "\<And>i. \<not> slot_holds p i k"
    unfolding find_key_slot_linear_def position_None
    using that ctx_pool_wfD(2) [OF wf] unfolding slot_holds_def by (metis in_set_conv_nth)
  show ?thesis
  proof (cases "cp_key_index p ! bucket k = KEY_SLOT_EMPTY")
    case True
    then have "\<not> slot_holds p i k" for i
      using ctx_pool_wfD(7) [OF wf, of i k] slot_index_not_empty [of i] unfolding slot_holds_def by metis
    then have "position (key_at pool_view k) (pool_zip p) = None" by (rule absent)
    moreover have "find_key_slot p k = None" using True by (simp add: find_key_slot_def)
    ultimately show ?thesis by metis
  next
    case False
    let ?i = "unat (cp_key_index p ! bucket k)"
    obtain k' where k': "slot_holds p ?i k'" "bucket k' = bucket k"
      using ctx_pool_wfD(8) [OF wf bucket_less False] by blast
    show ?thesis
    proof (cases "k' = k")
      case True
      then show ?thesis using k' at [of ?i] False by (simp add: find_key_slot_def slot_holds_def)
    next
      case other: False
      then have "\<not> slot_holds p i k" for i using slot_holds_inj(2) [OF wf k'(1) _ k'(2)] by blast
      then have "position (key_at pool_view k) (pool_zip p) = None" and "find_key_slot_linear p k = None"
        by (rule absent, rule linear)
      moreover have "find_key_slot p k = find_key_slot_linear p k"
        using False other k' by (simp add: find_key_slot_def slot_holds_def)
      ultimately show ?thesis by metis
    qed
  qed
qed

lemma find_key_slot_SomeD:
  assumes "ctx_pool_wf p" and "find_key_slot p k = Some i"
  shows "slot_holds p i k" and "pool_map p k = cp_contexts p ! i" and "cp_contexts p ! i \<noteq> None"
proof -
  have pos: "position (key_at pool_view k) (pool_zip p) = Some i"
    using assms by (simp add: find_key_slot_position)
  have i: "i < WORKFLOW_POOL_CAPACITY"
    using position_SomeD(1) [OF pos] ctx_pool_wfD(2,3) [OF assms(1)] by simp
  show h: "slot_holds p i k"
    using position_SomeD(2) [OF pos] key_at_slot [OF assms(1) i] by simp
  then show c: "cp_contexts p ! i \<noteq> None"
    using ctx_pool_wfD(6) [OF assms(1) i] by (simp add: slot_holds_def)
  show "pool_map p k = cp_contexts p ! i"
    using live_lookup(1) [OF pos] i h c ctx_pool_wfD(2,3) [OF assms(1)]
    by (auto simp: pool_map_def pool_view_def slot_holds_def)
qed

lemma find_key_slot_None:
  "ctx_pool_wf p \<Longrightarrow> find_key_slot p k = None \<longleftrightarrow> k \<notin> dom (pool_map p)"
  by (simp add: find_key_slot_position key_at_None pool_map_def dom_map_of_conv_image_fst)

lemma with_pool_map:
  assumes "ctx_pool_wf p"
  shows "WorkflowContextPool_with p k f = f (pool_map p k)"
  using find_key_slot_None [OF assms, of k] find_key_slot_SomeD(2) [OF assms, of k]
  by (cases "find_key_slot p k") (simp_all add: WorkflowContextPool_with_def domIff)

lemma pool_has_room:
  assumes wf: "ctx_pool_wf p" and k: "k \<notin> dom (pool_map p)" and fits: "pool_fits (dom (pool_map p)) k"
  shows "cp_free_list p \<noteq> []"
proof
  assume "cp_free_list p = []"
  then have act: "slot_holds p i (ps_key (cp_slots p ! i))" if "i < WORKFLOW_POOL_CAPACITY" for i
    using ctx_pool_wfD(5) [OF wf] that by (auto simp: slot_holds_def)
  let ?b = "\<lambda>i. bucket (ps_key (cp_slots p ! i))"
  have "inj_on ?b {..<WORKFLOW_POOL_CAPACITY}"
    using slot_holds_inj(1) [OF wf act act] by (auto intro!: inj_onI)
  moreover have "?b i \<noteq> bucket k" if "i < WORKFLOW_POOL_CAPACITY" for i
    using act [OF that] dom_pool_map [OF wf] k fits by (auto simp: pool_fits_def)
  then have "?b ` {..<WORKFLOW_POOL_CAPACITY} \<subseteq> {..<WORKFLOW_POOL_CAPACITY} - {bucket k}" by auto
  ultimately have "card {..<WORKFLOW_POOL_CAPACITY} \<le> card ({..<WORKFLOW_POOL_CAPACITY} - {bucket k})"
    by (intro card_inj_on_le) auto
  also have "\<dots> < card {..<WORKFLOW_POOL_CAPACITY}"
    by (rule card_Diff1_less) simp_all
  finally show False by simp
qed

lemma free_list_last:
  assumes wf: "ctx_pool_wf p" and "cp_free_list p \<noteq> []"
  defines "i \<equiv> unat (last (cp_free_list p))"
  shows "i < WORKFLOW_POOL_CAPACITY" and "\<not> ps_active (cp_slots p ! i)"
    and "distinct (butlast (cp_free_list p))"
    and "unat ` set (butlast (cp_free_list p)) =
      {j. j < WORKFLOW_POOL_CAPACITY \<and> \<not> ps_active (cp_slots p ! j)} - {i}"
proof -
  obtain fs f where fl: "cp_free_list p = fs @ [f]" using assms(2) by (metis append_butlast_last_id)
  note free = ctx_pool_wfD(5) [OF wf, unfolded fl]
  have "i \<in> unat ` set (fs @ [f])" by (simp add: i_def fl)
  then show "i < WORKFLOW_POOL_CAPACITY" and "\<not> ps_active (cp_slots p ! i)" unfolding free by simp_all
  have dist: "distinct fs" "f \<notin> set fs" using ctx_pool_wfD(4) [OF wf] by (simp_all add: fl)
  then show "distinct (butlast (cp_free_list p))" by (simp add: fl)
  have "unat f \<notin> unat ` set fs" using dist(2) by (metis image_iff word_unat_eq_iff)
  then show "unat ` set (butlast (cp_free_list p)) =
      {j. j < WORKFLOW_POOL_CAPACITY \<and> \<not> ps_active (cp_slots p ! j)} - {i}"
    unfolding free [symmetric] by (auto simp: fl i_def)
qed

lemma occupy_slot_spec:
  assumes wf: "ctx_pool_wf p" and k: "k \<notin> dom (pool_map p)" and fits: "pool_fits (dom (pool_map p)) k"
    and "cp_free_list p \<noteq> []" and occ: "occupy_slot p k c = (p', i)"
  shows "ctx_pool_wf p'" and "pool_map p' = (pool_map p)(k \<mapsto> c)"
proof -
  note len = ctx_pool_wfD(1-3) [OF wf]
  note fl = free_list_last [OF wf assms(4)]
  let ?x = "\<lparr>ps_key = k, ps_active = True\<rparr>"
  have i: "i = unat (last (cp_free_list p))" using occ by (simp add: occupy_slot_def Let_def)
  have p': "p' = p\<lparr>cp_free_list := butlast (cp_free_list p),
      cp_slots := (cp_slots p)[i := ?x], cp_key_index := (cp_key_index p)[bucket k := word_of_nat i],
      cp_contexts := (cp_contexts p)[i := Some c], cp_active_count := cp_active_count p + 1,
      cp_total_inserted := cp_total_inserted p + 1\<rparr>"
    using occ by (simp add: occupy_slot_def Let_def i)
  have ic: "i < WORKFLOW_POOL_CAPACITY" "\<not> ps_active (cp_slots p ! i)" using fl(1,2) by (simp_all add: i)
  have zip: "pool_zip p' = (pool_zip p)[i := (?x, Some c)]" by (simp add: p' update_zip)
  have none: "pool_view (pool_zip p ! i) = None" using ic len by (simp add: pool_view_def)
  have nk: "k \<notin> fst ` set (live pool_view (pool_zip p))"
    using k by (simp add: pool_map_def dom_map_of_conv_image_fst)
  have some: "pool_view (?x, Some c) = Some (k, c)" by (simp add: pool_view_def)
  have il: "i < length (pool_zip p)" using ic len by simp
  note live = live_occupy [OF il none nk some]
  show "pool_map p' = (pool_map p)(k \<mapsto> c)" using live(1) by (simp add: pool_map_def zip)
  have holds: "slot_holds p' j k' \<longleftrightarrow> (if j = i then k' = k else slot_holds p j k')" for j k'
    using ic len by (auto simp: slot_holds_def p' nth_list_update)
  have ok: "bucket k' \<noteq> bucket k" if "slot_holds p j k'" for j k'
    using that dom_pool_map [OF wf, of k'] k fits by (auto simp: pool_fits_def)
  have idx: "cp_key_index p' ! b = (if b = bucket k then word_of_nat i else cp_key_index p ! b)" for b
    using len(1) by (simp add: p' nth_list_update)
  show "ctx_pool_wf p'"
    unfolding ctx_pool_wf_def
  proof (intro conjI allI impI)
    show "unat ` set (cp_free_list p') = {j. j < WORKFLOW_POOL_CAPACITY \<and> \<not> ps_active (cp_slots p' ! j)}"
      using fl(4) ic len by (auto simp: p' i [symmetric] nth_list_update)
    show "ps_active (cp_slots p' ! j) \<longleftrightarrow> cp_contexts p' ! j \<noteq> None" if "j < WORKFLOW_POOL_CAPACITY" for j
      using ctx_pool_wfD(6) [OF wf that] ic len by (simp add: p' nth_list_update)
    show "cp_key_index p' ! bucket k' = word_of_nat j" if "slot_holds p' j k'" for j k'
      using that ctx_pool_wfD(7) [OF wf, of j k'] ok [of j k'] by (auto simp: holds idx split: if_splits)
    show "\<exists>k'. slot_holds p' (unat (cp_key_index p' ! b)) k' \<and> bucket k' = b"
      if b: "b < WORKFLOW_POOL_CAPACITY" "cp_key_index p' ! b \<noteq> KEY_SLOT_EMPTY" for b
    proof (cases "b = bucket k")
      case True then show ?thesis using ic by (auto simp: holds idx)
    next
      case False
      then obtain k' where "slot_holds p (unat (cp_key_index p ! b)) k'" "bucket k' = b"
        using ctx_pool_wfD(8) [OF wf b(1)] b(2) by (auto simp: idx)
      moreover from this have "unat (cp_key_index p ! b) \<noteq> i" using ic(2) by (auto simp: slot_holds_def)
      ultimately show ?thesis using False by (auto simp: holds idx)
    qed
    show "distinct (map fst (live pool_view (pool_zip p')))"
      using live(3) ctx_pool_wfD(9) [OF wf] by (simp add: zip)
    show "cp_active_count p' = word_of_nat (length (live pool_view (pool_zip p')))"
      using live(2) ctx_pool_wfD(10) [OF wf] by (simp only: zip) (simp add: p')
  qed (use fl(3) len in \<open>simp_all add: p'\<close>)
qed

lemma pool_insert_spec:
  assumes wf: "ctx_pool_wf p" and fits: "pool_fits (dom (pool_map p)) k"
  shows "ctx_pool_wf (fst (WorkflowContextPool_insert p k c))"
    and "pool_map (fst (WorkflowContextPool_insert p k c)) = (pool_map p)(k \<mapsto> c)"
    and "snd (WorkflowContextPool_insert p k c) \<noteq> None"
proof -
  let ?p = "fst (WorkflowContextPool_insert p k c)"
  have "ctx_pool_wf ?p \<and> pool_map ?p = (pool_map p)(k \<mapsto> c) \<and> snd (WorkflowContextPool_insert p k c) \<noteq> None"
  proof (cases "find_key_slot p k")
    case None
    then have k: "k \<notin> dom (pool_map p)" using find_key_slot_None [OF wf] by simp
    note room = pool_has_room [OF wf k fits]
    obtain p' i where occ: "occupy_slot p k c = (p', i)" by (cases "occupy_slot p k c")
    show ?thesis
      using occupy_slot_spec [OF wf k fits room occ] room
      by (simp add: WorkflowContextPool_insert_def None occ)
  next
    case (Some i)
    have h: "slot_holds p i k" using find_key_slot_SomeD(1) [OF wf Some] .
    have pos: "position (key_at pool_view k) (pool_zip p) = Some i"
      using Some find_key_slot_position [OF wf] by simp
    have view: "pool_view (cp_slots p ! i, Some c) = Some (k, c)"
      using h by (simp add: pool_view_def slot_holds_def)
    note ow = live_overwrite [OF pos view]
    have zip: "zip (cp_slots p) ((cp_contexts p)[i := Some c]) = (pool_zip p)[i := (cp_slots p ! i, Some c)]"
      by (simp add: update_zip)
    have "ps_active (cp_slots p ! j) \<longleftrightarrow> (cp_contexts p)[i := Some c] ! j \<noteq> None"
      if "j < WORKFLOW_POOL_CAPACITY" for j
      using ctx_pool_wfD(6) [OF wf that] h that ctx_pool_wfD(3) [OF wf]
      by (auto simp: nth_list_update slot_holds_def)
    moreover have "slot_holds (p\<lparr>cp_contexts := (cp_contexts p)[i := Some c]\<rparr>) = slot_holds p"
      by (simp add: slot_holds_def fun_eq_iff)
    ultimately have "ctx_pool_wf (p\<lparr>cp_contexts := (cp_contexts p)[i := Some c]\<rparr>)"
      using ow ctx_pool_wfD [OF wf] by (simp add: ctx_pool_wf_def zip)
    then show ?thesis
      using ow(1) by (simp add: WorkflowContextPool_insert_def Some pool_map_def zip)
  qed
  then show "ctx_pool_wf ?p" "pool_map ?p = (pool_map p)(k \<mapsto> c)"
    "snd (WorkflowContextPool_insert p k c) \<noteq> None" by blast+
qed

lemma pool_remove_spec:
  assumes wf: "ctx_pool_wf p"
  shows "ctx_pool_wf (fst (WorkflowContextPool_remove p k))"
    and "pool_map (fst (WorkflowContextPool_remove p k)) = (pool_map p)(k := None)"
    and "snd (WorkflowContextPool_remove p k) = pool_map p k"
proof -
  let ?r = "WorkflowContextPool_remove p k"
  have "ctx_pool_wf (fst ?r) \<and> pool_map (fst ?r) = (pool_map p)(k := None) \<and> snd ?r = pool_map p k"
  proof (cases "find_key_slot p k")
    case None
    then have "pool_map p k = None" using find_key_slot_None [OF wf] by (simp add: domIff)
    then show ?thesis using wf by (simp add: WorkflowContextPool_remove_def None fun_upd_idem)
  next
    case (Some i)
    define p' where "p' = fst ?r"
    have p': "p' = p\<lparr>cp_contexts := (cp_contexts p)[i := None], cp_slots := (cp_slots p)[i := PoolSlot_empty],
        cp_key_index := (cp_key_index p)[bucket k := KEY_SLOT_EMPTY],
        cp_free_list := cp_free_list p @ [word_of_nat i], cp_active_count := cp_active_count p - 1,
        cp_total_removed := cp_total_removed p + 1\<rparr>"
      by (simp add: p'_def WorkflowContextPool_remove_def Some)
    note len = ctx_pool_wfD(1-3) [OF wf]
    have h: "slot_holds p i k" using find_key_slot_SomeD(1) [OF wf Some] .
    then have ic: "i < WORKFLOW_POOL_CAPACITY" "ps_active (cp_slots p ! i)" by (simp_all add: slot_holds_def)
    have pos: "position (key_at pool_view k) (pool_zip p) = Some i"
      using Some find_key_slot_position [OF wf] by simp
    have none: "pool_view (PoolSlot_empty, None) = (None :: (u64 \<times> 'a) option)"
      by (simp add: pool_view_def)
    note vac = live_vacate [OF pos ctx_pool_wfD(9) [OF wf] none]
    have zip: "pool_zip p' = (pool_zip p)[i := (PoolSlot_empty, None)]" by (simp add: p' update_zip)
    have holds: "slot_holds p' j k' \<longleftrightarrow> j \<noteq> i \<and> slot_holds p j k'" for j k'
      using ic len by (auto simp: slot_holds_def p' nth_list_update PoolSlot_empty_def)
    have idx: "cp_key_index p' ! b = (if b = bucket k then KEY_SLOT_EMPTY else cp_key_index p ! b)" for b
      using len(1) by (simp add: p' nth_list_update)
    have other: "bucket k' \<noteq> bucket k" if "slot_holds p j k'" "j \<noteq> i" for j k'
      using slot_holds_inj(1) [OF wf that(1) h] that(2) by blast
    have fresh: "word_of_nat i \<notin> set (cp_free_list p)"
    proof
      assume "word_of_nat i \<in> set (cp_free_list p)"
      then have "unat (word_of_nat i :: u16) \<in> unat ` set (cp_free_list p)" by (rule imageI)
      then show False unfolding ctx_pool_wfD(5) [OF wf] using ic by simp
    qed
    have "ctx_pool_wf p'"
      unfolding ctx_pool_wf_def
    proof (intro conjI allI impI)
      show "distinct (cp_free_list p')" using fresh ctx_pool_wfD(4) [OF wf] by (simp add: p')
      show "unat ` set (cp_free_list p') = {j. j < WORKFLOW_POOL_CAPACITY \<and> \<not> ps_active (cp_slots p' ! j)}"
        using ctx_pool_wfD(5) [OF wf] ic len by (auto simp: p' nth_list_update PoolSlot_empty_def)
      show "ps_active (cp_slots p' ! j) \<longleftrightarrow> cp_contexts p' ! j \<noteq> None" if "j < WORKFLOW_POOL_CAPACITY" for j
        using ctx_pool_wfD(6) [OF wf that] ic len by (simp add: p' nth_list_update PoolSlot_empty_def)
      show "cp_key_index p' ! bucket k' = word_of_nat j" if "slot_holds p' j k'" for j k'
        using that ctx_pool_wfD(7) [OF wf, of j k'] other [of j k'] by (simp add: holds idx)
      show "\<exists>k'. slot_holds p' (unat (cp_key_index p' ! b)) k' \<and> bucket k' = b"
        if b: "b < WORKFLOW_POOL_CAPACITY" "cp_key_index p' ! b \<noteq> KEY_SLOT_EMPTY" for b
      proof -
        have bk: "b \<noteq> bucket k" using b(2) by (auto simp: idx)
        then obtain k' where k': "slot_holds p (unat (cp_key_index p ! b)) k'" "bucket k' = b"
          using ctx_pool_wfD(8) [OF wf b(1)] b(2) by (auto simp: idx)
        have "unat (cp_key_index p ! b) \<noteq> i" using k' h bk by (auto simp: slot_holds_def)
        then show ?thesis using k' bk by (auto simp: holds idx)
      qed
      show "distinct (map fst (live pool_view (pool_zip p')))" using vac(3) by (simp add: zip)
      show "cp_active_count p' = word_of_nat (length (live pool_view (pool_zip p')))"
        using ctx_pool_wfD(10) [OF wf] unfolding zip vac(2) [symmetric] by (simp add: p')
    qed (use len in \<open>simp_all add: p'\<close>)
    moreover have "pool_map p' = (pool_map p)(k := None)" using vac(1) by (simp add: pool_map_def zip)
    moreover have "snd ?r = pool_map p k"
      using find_key_slot_SomeD(2) [OF wf Some] by (simp add: WorkflowContextPool_remove_def Some)
    ultimately show ?thesis by (simp add: p'_def)
  qed
  then show "ctx_pool_wf (fst ?r)" "pool_map (fst ?r) = (pool_map p)(k := None)" "snd ?r = pool_map p k"
    by blast+
qed

interpretation cp: kv_store ctx_pool_wf pool_map "\<lambda>p k c. fst (WorkflowContextPool_insert p k c)"
    "\<lambda>p k. fst (WorkflowContextPool_remove p k)" pool_fits
  by unfold_locales (simp_all add: pool_insert_spec pool_remove_spec)

lemma pool_map_new [simp]: "pool_map WorkflowContextPool_new = Map.empty"
  by (simp add: pool_map_def WorkflowContextPool_new_def live_None set_zip pool_view_def PoolSlot_empty_def)

lemma ctx_pool_wf_new: "ctx_pool_wf WorkflowContextPool_new"
proof -
  have nd: "\<not> slot_holds WorkflowContextPool_new i k" for i k
    by (auto simp: slot_holds_def WorkflowContextPool_new_def PoolSlot_empty_def)
  have "inj_on (word_of_nat :: nat \<Rightarrow> u16) {..<WORKFLOW_POOL_CAPACITY}"
    by (rule inj_on_inverseI [where g = unat]) simp
  then have dist: "distinct (rev (map (word_of_nat :: nat \<Rightarrow> u16) [0..<WORKFLOW_POOL_CAPACITY]))"
    by (simp add: distinct_map lessThan_atLeast0)
  have "(unat \<circ> (word_of_nat :: nat \<Rightarrow> u16)) ` {0..<WORKFLOW_POOL_CAPACITY} = id ` {0..<WORKFLOW_POOL_CAPACITY}"
    by (rule image_cong) simp_all
  then have fl: "unat ` set (rev (map (word_of_nat :: nat \<Rightarrow> u16) [0..<WORKFLOW_POOL_CAPACITY])) = {..<WORKFLOW_POOL_CAPACITY}"
    by (simp add: image_comp lessThan_atLeast0)
  have live: "live pool_view (pool_zip WorkflowContextPool_new) = []"
    by (simp add: WorkflowContextPool_new_def live_None set_zip pool_view_def PoolSlot_empty_def)
  show ?thesis
    unfolding ctx_pool_wf_def live using nd dist fl
    by (auto simp: WorkflowContextPool_new_def PoolSlot_empty_def)
qed

lemma len_pool_map:
  assumes "ctx_pool_wf p"
  shows "WorkflowContextPool_len p = card (dom (pool_map p))"
proof -
  let ?l = "live pool_view (pool_zip p)"
  have "length ?l \<le> 8192"
    using length_live [of pool_view "pool_zip p"] ctx_pool_wfD(2,3) [OF assms]
    by (simp add: WORKFLOW_POOL_CAPACITY_def)
  moreover have "card (dom (pool_map p)) = card (set (map fst ?l))"
    by (simp add: pool_map_def dom_map_of_conv_image_fst)
  then have "card (dom (pool_map p)) = length ?l"
    using distinct_card [OF ctx_pool_wfD(9) [OF assms]] by simp
  ultimately show ?thesis
    using ctx_pool_wfD(10) [OF assms] by (simp add: WorkflowContextPool_len_def unat_of_nat)
qed

text \<open>A second key in a bucket, inserted and removed, hides the first.\<close>

lemma pool_collision:
  fixes p :: "'c ctx_pool" and y :: 'c
  assumes wf: "ctx_pool_wf p" and a: "pool_map p a = Some x" and ab: "b \<noteq> a" "bucket b = bucket a"
    and room: "cp_free_list p \<noteq> []"
  defines "q \<equiv> fst (WorkflowContextPool_remove (fst (WorkflowContextPool_insert p b y)) b)"
  shows "WorkflowContextPool_with q a f = f None" and "a \<in> set (WorkflowContextPool_keys q)"
proof -
  note len = ctx_pool_wfD(1-3) [OF wf]
  let ?i = "unat (last (cp_free_list p))"
  note fl = free_list_last(1,2) [OF wf room]
  obtain j where j: "slot_holds p j a" using dom_pool_map [OF wf, of a] a by blast
  have "\<not> slot_holds p n b" for n using slot_holds_inj(2) [OF wf j, of n b] ab by auto
  then have none: "find_key_slot p b = None"
    using find_key_slot_None [OF wf] dom_pool_map [OF wf] by simp
  define p1 where "p1 = fst (WorkflowContextPool_insert p b y)"
  have p1: "p1 = fst (occupy_slot p b y)"
    using room by (simp add: p1_def WorkflowContextPool_insert_def none)
  have "cp_key_index p1 ! bucket b = word_of_nat ?i" "cp_slots p1 ! ?i = \<lparr>ps_key = b, ps_active = True\<rparr>"
    "cp_slots p1 = (cp_slots p)[?i := \<lparr>ps_key = b, ps_active = True\<rparr>]"
    "length (cp_key_index p1) = WORKFLOW_POOL_CAPACITY"
    using fl len by (simp_all add: p1 occupy_slot_def Let_def)
  then have find: "find_key_slot p1 b = Some ?i"
    using fl slot_index_not_empty [OF fl(1)] by (simp add: find_key_slot_def Let_def)
  have q: "cp_key_index q ! bucket a = KEY_SLOT_EMPTY"
    using \<open>length (cp_key_index p1) = _\<close> ab(2)
    by (simp add: q_def p1_def [symmetric] WorkflowContextPool_remove_def find)
  then show "WorkflowContextPool_with q a f = f None"
    by (simp add: WorkflowContextPool_with_def find_key_slot_def)
  have "cp_slots q = (cp_slots p)[?i := PoolSlot_empty]"
    using \<open>cp_slots p1 = _\<close> by (simp add: q_def p1_def [symmetric] WorkflowContextPool_remove_def find)
  moreover have "j \<noteq> ?i" using j fl by (auto simp: slot_holds_def)
  ultimately have "cp_slots q ! j = cp_slots p ! j" and "j < length (cp_slots q)"
    using j len by (simp_all add: slot_holds_def)
  then have "cp_slots q ! j \<in> set (cp_slots q)" and "ps_active (cp_slots q ! j)" and "ps_key (cp_slots q ! j) = a"
    using j nth_mem [of j "cp_slots q"] by (simp_all add: slot_holds_def)
  then show "a \<in> set (WorkflowContextPool_keys q)"
    by (auto simp: WorkflowContextPool_keys_def image_iff intro!: bexI [of _ "cp_slots q ! j"])
qed

section \<open>The slab pool\<close>

definition occupied :: "slab_pool \<Rightarrow> nat set" where
  "occupied p = {i. i < length (sp_slots p) \<and> \<not> is_free (ss_meta (sp_slots p ! i))}"

definition slab_pool_wf :: "slab_pool \<Rightarrow> bool" where
  "slab_pool_wf p \<longleftrightarrow> length (sp_slots p) = SLAB_POOL_CAPACITY
     \<and> sp_active_count p = word_of_nat (card (occupied p))"

lemma slab_pool_wf_new: "slab_pool_wf WorkflowSlabPool_new"
proof -
  have "occupied WorkflowSlabPool_new = {}"
    by (simp add: occupied_def WorkflowSlabPool_new_def SlabSlot_empty_def SlotMeta_empty_def is_free_def)
  then show ?thesis by (simp add: slab_pool_wf_def) (simp add: WorkflowSlabPool_new_def)
qed

lemma finite_occupied [simp]: "finite (occupied p)"
  by (simp add: occupied_def)

text \<open>The scan from any start visits every index.\<close>

lemma scan_all:
  fixes start n :: nat
  assumes "0 < n"
  shows "set (map (\<lambda>i. (start + i) mod n) [0..<n]) = {..<n}"
proof
  show "{..<n} \<subseteq> set (map (\<lambda>i. (start + i) mod n) [0..<n])"
  proof
    fix x assume x: "x \<in> {..<n}"
    let ?i = "(x + (n - start mod n)) mod n"
    have "(start + ?i) mod n = (start mod n + (x + (n - start mod n))) mod n"
      by (simp add: mod_simps)
    also have "start mod n + (x + (n - start mod n)) = x + n"
      using mod_less_divisor [OF assms, of start] by linarith
    finally have "x = (start + ?i) mod n" using x by simp
    moreover have "?i < n" using assms by simp
    ultimately show "x \<in> set (map (\<lambda>i. (start + i) mod n) [0..<n])" by auto
  qed
qed (use assms in auto)

lemma allocate_spec:
  assumes wf: "slab_pool_wf p" and meta: "\<not> is_free meta" and al: "allocate p h meta = (p', r)"
  shows "slab_pool_wf p'"
    and "r = None \<longleftrightarrow> card (occupied p) = SLAB_POOL_CAPACITY"
    and "r = None \<Longrightarrow> p' = p"
    and "r = Some i \<Longrightarrow> i < SLAB_POOL_CAPACITY \<and> i \<notin> occupied p \<and> occupied p' = insert i (occupied p)
       \<and> sp_slots p' = (sp_slots p)[i := \<lparr>ss_header = h, ss_meta = meta\<rparr>]"
proof -
  have len: "length (sp_slots p) = SLAB_POOL_CAPACITY" using wf by (simp add: slab_pool_wf_def)
  let ?P = "\<lambda>i. is_free (ss_meta (sp_slots p ! i))"
  let ?l = "map (\<lambda>i. (unat (sp_free_cursor p) + i) mod SLAB_POOL_CAPACITY) [0..<SLAB_POOL_CAPACITY]"
  have sl: "set ?l = {..<SLAB_POOL_CAPACITY}" by (rule scan_all) (simp add: SLAB_POOL_CAPACITY_def)
  have sub: "occupied p \<subseteq> {..<SLAB_POOL_CAPACITY}" using len by (auto simp: occupied_def)
  define F where "F = find ?P ?l"
  have al: "(p', r) = (case F of
      Some i \<Rightarrow> (p\<lparr>sp_slots := (sp_slots p)[i := \<lparr>ss_header = h, ss_meta = meta\<rparr>],
             sp_free_cursor := word_of_nat ((i + 1) mod SLAB_POOL_CAPACITY),
             sp_active_count := sp_active_count p + 1,
             sp_total_allocated := sp_total_allocated p + 1\<rparr>, Some i)
    | None \<Rightarrow> (p, None))"
    using al unfolding allocate_def Let_def F_def by (rule sym)
  have F_None: "F = None \<longleftrightarrow> (\<forall>i<SLAB_POOL_CAPACITY. \<not> ?P i)"
    unfolding F_def find_None_iff sl by (simp add: Ball_def)
  have F_Some: "i < SLAB_POOL_CAPACITY \<and> ?P i" if "F = Some i" for i
  proof -
    have "i \<in> set ?l" "?P i" using that unfolding F_def find_Some_iff by auto
    then show ?thesis unfolding sl by simp
  qed
  have rF: "r = F" using al by (cases F) simp_all
  have "F = None \<longleftrightarrow> {..<SLAB_POOL_CAPACITY} \<subseteq> occupied p"
    unfolding F_None occupied_def len by (simp add: subset_iff)
  also have "\<dots> \<longleftrightarrow> occupied p = {..<SLAB_POOL_CAPACITY}" using sub by blast
  also have "\<dots> \<longleftrightarrow> card (occupied p) = SLAB_POOL_CAPACITY"
  proof
    assume "card (occupied p) = SLAB_POOL_CAPACITY"
    then show "occupied p = {..<SLAB_POOL_CAPACITY}" by (intro card_subset_eq [OF _ sub]) simp_all
  qed simp
  finally show "r = None \<longleftrightarrow> card (occupied p) = SLAB_POOL_CAPACITY" by (simp only: rF)
  show same: "p' = p" if "r = None"
    using al that rF by simp
  have some: "i < SLAB_POOL_CAPACITY \<and> i \<notin> occupied p \<and> occupied p' = insert i (occupied p)
      \<and> sp_slots p' = (sp_slots p)[i := \<lparr>ss_header = h, ss_meta = meta\<rparr>]
      \<and> sp_active_count p' = sp_active_count p + 1" if "r = Some i" for i
  proof -
    have f: "F = Some i" using that rF by simp
    have i: "i < SLAB_POOL_CAPACITY" "?P i" using F_Some [OF f] by blast+
    have s: "sp_slots p' = (sp_slots p)[i := \<lparr>ss_header = h, ss_meta = meta\<rparr>]"
      and c: "sp_active_count p' = sp_active_count p + 1"
      using al by (simp_all add: f)
    have "j \<in> occupied p' \<longleftrightarrow> j = i \<or> j \<in> occupied p" for j
      using i len meta by (cases "j = i") (simp_all add: occupied_def s)
    then show ?thesis using i s c by (auto simp: occupied_def)
  qed
  then show "r = Some i \<Longrightarrow> i < SLAB_POOL_CAPACITY \<and> i \<notin> occupied p \<and> occupied p' = insert i (occupied p)
       \<and> sp_slots p' = (sp_slots p)[i := \<lparr>ss_header = h, ss_meta = meta\<rparr>]" by blast
  show "slab_pool_wf p'"
  proof (cases r)
    case None
    then show ?thesis using wf same by simp
  next
    case (Some i)
    then show ?thesis using some [OF Some] wf by (simp add: slab_pool_wf_def)
  qed
qed

definition closed_slot :: "slab_slot \<Rightarrow> bool" where
  "closed_slot s \<longleftrightarrow> me_status (ss_meta s) \<in> {2, 3, 4}"

lemma evict_completed_prefix:
  assumes "n \<le> length (sp_slots p)" and "fold evict_completed_at [0..<n] (p, 0) = (p', c)"
  shows "length (sp_slots p') = length (sp_slots p)
    \<and> (\<forall>i<length (sp_slots p). sp_slots p' ! i =
         (if i < n \<and> closed_slot (sp_slots p ! i) then SlabSlot_empty else sp_slots p ! i))
    \<and> c = card {i. i < n \<and> closed_slot (sp_slots p ! i)}
    \<and> sp_active_count p' = sp_active_count p - word_of_nat c"
  using assms
proof (induction n arbitrary: p' c)
  case (Suc n)
  obtain q d where q: "fold evict_completed_at [0..<n] (p, 0) = (q, d)" by (metis surj_pair)
  then have step: "evict_completed_at n (q, d) = (p', c)" using Suc.prems(2) by simp
  have n: "n < length (sp_slots p)" using Suc.prems(1) by simp
  note IH = Suc.IH [OF less_imp_le [OF n] q]
  have nth: "sp_slots q ! n = sp_slots p ! n" using IH n by simp
  have set: "{i. i < Suc n \<and> closed_slot (sp_slots p ! i)} =
      (if closed_slot (sp_slots p ! n) then insert n {i. i < n \<and> closed_slot (sp_slots p ! i)}
       else {i. i < n \<and> closed_slot (sp_slots p ! i)})"
    by (auto simp: less_Suc_eq)
  show ?case
  proof (cases "closed_slot (sp_slots p ! n)")
    case True
    then have "p' = evict q n" and c: "c = d + 1"
      using step nth by (auto simp: evict_completed_at_def closed_slot_def Let_def)
    then have p': "sp_slots p' = (sp_slots q)[n := SlabSlot_empty]" "sp_active_count p' = sp_active_count q - 1"
      using IH n by (auto simp: evict_def)
    have "c = card {i. i < Suc n \<and> closed_slot (sp_slots p ! i)}"
      using IH True by (simp add: c set)
    moreover have "sp_slots p' ! i = (if i < Suc n \<and> closed_slot (sp_slots p ! i)
        then SlabSlot_empty else sp_slots p ! i)" if "i < length (sp_slots p)" for i
      using IH that True n by (cases "i = n") (auto simp: p' less_Suc_eq)
    moreover have "sp_active_count p' = sp_active_count p - word_of_nat c"
      using IH by (simp add: p' c)
    moreover have "length (sp_slots p') = length (sp_slots p)" using IH by (simp add: p')
    ultimately show ?thesis by blast
  next
    case False
    then have "p' = q" "c = d"
      using step nth by (auto simp: evict_completed_at_def closed_slot_def Let_def)
    moreover have "(i < Suc n \<and> closed_slot (sp_slots p ! i)) \<longleftrightarrow> (i < n \<and> closed_slot (sp_slots p ! i))" for i
      using False by (auto simp: less_Suc_eq)
    ultimately show ?thesis using IH by (simp only: simp_thms) blast
  qed
qed simp

lemma evict_completed_spec:
  assumes wf: "slab_pool_wf p" and ev: "evict_completed p = (p', c)"
  shows "slab_pool_wf p'" and "occupied p' = {i \<in> occupied p. \<not> closed_slot (sp_slots p ! i)}"
    and "c = card {i \<in> occupied p. closed_slot (sp_slots p ! i)}"
    and "i \<in> occupied p' \<Longrightarrow> sp_slots p' ! i = sp_slots p ! i"
proof -
  let ?n = "length (sp_slots p)"
  note pre = evict_completed_prefix [OF order_refl ev [unfolded evict_completed_def]]
  have closed: "\<not> is_free (ss_meta s)" if "closed_slot s" for s
    using that by (auto simp: closed_slot_def is_free_def)
  have empty: "is_free (ss_meta SlabSlot_empty)"
    by (simp add: is_free_def SlabSlot_empty_def SlotMeta_empty_def)
  show occ: "occupied p' = {i \<in> occupied p. \<not> closed_slot (sp_slots p ! i)}"
    using pre empty unfolding occupied_def by (auto split: if_splits)
  show "i \<in> occupied p' \<Longrightarrow> sp_slots p' ! i = sp_slots p ! i"
    using pre occ unfolding occupied_def by auto
  have eq: "{i. i < ?n \<and> closed_slot (sp_slots p ! i)} = {i \<in> occupied p. closed_slot (sp_slots p ! i)}"
    using closed by (auto simp: occupied_def)
  with pre show c: "c = card {i \<in> occupied p. closed_slot (sp_slots p ! i)}" by simp
  have "card (occupied p) = card (occupied p') + c"
    unfolding c occ by (subst card_Un_disjoint [symmetric]) (auto intro: arg_cong [of _ _ card])
  then show "slab_pool_wf p'"
    using wf pre by (simp add: slab_pool_wf_def)
qed

section \<open>Properties\<close>

text \<open>
  C23.  The context pool is a map as long as no two live keys share a bucket: from the empty
  pool, through any insertions and removals whose keys fit when they arrive, \<open>with\<close> hands
  its closure exactly what the map holds, \<open>len\<close> is the number of keys, and the next
  fitting insertion succeeds.
\<close>

theorem context_pool_is_a_map:
  fixes ops :: "(u64, 'c) kv_op list"
  assumes "kv_fits pool_fits ops Map.empty"
  defines "p \<equiv> fold (kv_exec (\<lambda>p k c. fst (WorkflowContextPool_insert p k c))
                       (\<lambda>p k. fst (WorkflowContextPool_remove p k))) ops WorkflowContextPool_new"
  shows "WorkflowContextPool_with p k f = f (fold kv_step ops Map.empty k)
    \<and> WorkflowContextPool_len p = card (dom (fold kv_step ops Map.empty))
    \<and> (pool_fits (dom (fold kv_step ops Map.empty)) k \<longrightarrow> snd (WorkflowContextPool_insert p k c) \<noteq> None)"
proof -
  have "ctx_pool_wf p" and "pool_map p = fold kv_step ops Map.empty"
    using cp.exec_refines [OF ctx_pool_wf_new, of ops] assms(1) by (simp_all add: p_def)
  then show ?thesis
    using with_pool_map [of p k f] len_pool_map [of p] pool_insert_spec(3) [of p k c] by simp
qed

theorem context_pool_is_a_map_witness:
  "WorkflowContextPool_with (fold (kv_exec (\<lambda>p k c. fst (WorkflowContextPool_insert p k c))
      (\<lambda>p k. fst (WorkflowContextPool_remove p k))) [Put 7 (1::nat), Put 9 2, Del 7] WorkflowContextPool_new) 9 id
   = Some 2"
  using context_pool_is_a_map [of "[Put 7 (1::nat), Put 9 2, Del 7]" 9 id 0]
  by (simp add: pool_fits_def bucket_def WORKFLOW_POOL_CAPACITY_def)

text \<open>
  C24.  With a shared bucket the pool loses a live workflow: insert a second key into the
  bucket of a live one and remove it again, and \<open>with\<close> no longer finds the first, although
  its slot is still active and \<open>keys\<close> still lists it.
\<close>

theorem context_pool_loses_colliding_workflow:
  assumes "ctx_pool_wf p" and "pool_map p a = Some x" and "b \<noteq> a" and "bucket b = bucket a"
    and "cp_free_list p \<noteq> []"
  shows "WorkflowContextPool_with p a id = Some x
    \<and> WorkflowContextPool_with (fst (WorkflowContextPool_remove (fst (WorkflowContextPool_insert p b y)) b)) a id = None
    \<and> a \<in> set (WorkflowContextPool_keys (fst (WorkflowContextPool_remove (fst (WorkflowContextPool_insert p b y)) b)))"
  using pool_collision(1) [OF assms, of y id] pool_collision(2) [OF assms, of y] with_pool_map [OF assms(1), of a id] assms(2) by simp

theorem context_pool_loses_colliding_workflow_witness:
  "WorkflowContextPool_with (fst (WorkflowContextPool_remove (fst (WorkflowContextPool_insert
      (fst (WorkflowContextPool_insert WorkflowContextPool_new 1 (5::nat))) 8193 6)) 8193)) 1 id = None"
proof -
  let ?p = "fst (WorkflowContextPool_insert WorkflowContextPool_new 1 (5::nat))"
  have wf: "ctx_pool_wf ?p" and m: "pool_map ?p 1 = Some 5"
    using pool_insert_spec [OF ctx_pool_wf_new, of 1 "5::nat"] by (simp_all add: pool_fits_def)
  have b: "bucket 8193 = bucket 1" by (simp add: bucket_def WORKFLOW_POOL_CAPACITY_def)
  have none: "find_key_slot (WorkflowContextPool_new :: nat ctx_pool) 1 = None"
    using find_key_slot_None [OF ctx_pool_wf_new] by simp
  have len: "length (cp_free_list (WorkflowContextPool_new :: nat ctx_pool)) = WORKFLOW_POOL_CAPACITY"
    by (simp add: WorkflowContextPool_new_def)
  then have "cp_free_list (WorkflowContextPool_new :: nat ctx_pool) \<noteq> []"
    by (auto simp: WORKFLOW_POOL_CAPACITY_def)
  then have "length (cp_free_list ?p) = WORKFLOW_POOL_CAPACITY - 1"
    using len by (simp add: WorkflowContextPool_insert_def none occupy_slot_def Let_def)
  then have "cp_free_list ?p \<noteq> []" by (auto simp: WORKFLOW_POOL_CAPACITY_def)
  from context_pool_loses_colliding_workflow [OF wf m _ b this, of 6] show ?thesis by simp
qed

text \<open>
  The slab pool: an allocation of an occupied slot's data fails exactly when all slots
  are taken, and otherwise fills a slot that was free and changes no other;
  \<open>evict_completed\<close> frees exactly the closed workflows, leaves every other slot as it was
  and returns their number; the active count stays the number of occupied slots.
\<close>

theorem slab_pool_lifecycle:
  assumes "slab_pool_wf p" and "\<not> is_free meta" and "allocate p h meta = (p', r)"
    and "evict_completed p = (q, c)"
  shows "slab_pool_wf p' \<and> slab_pool_wf q
    \<and> (case r of None \<Rightarrow> card (occupied p) = SLAB_POOL_CAPACITY \<and> p' = p
       | Some i \<Rightarrow> i \<notin> occupied p \<and> occupied p' = insert i (occupied p)
           \<and> sp_slots p' = (sp_slots p)[i := \<lparr>ss_header = h, ss_meta = meta\<rparr>])
    \<and> occupied q = {i \<in> occupied p. \<not> closed_slot (sp_slots p ! i)}
    \<and> (\<forall>i\<in>occupied q. sp_slots q ! i = sp_slots p ! i)
    \<and> c = card {i \<in> occupied p. closed_slot (sp_slots p ! i)}"
  using allocate_spec [OF assms(1-3)] evict_completed_spec [OF assms(1,4)]
  by (cases r) auto

theorem slab_pool_lifecycle_witness:
  "\<exists>i. snd (allocate WorkflowSlabPool_new (SlabHeader_new (\<lambda>_. []) 1 2 3) (SlotMeta_empty\<lparr>me_status := 1\<rparr>)) = Some i
     \<and> occupied (fst (allocate WorkflowSlabPool_new (SlabHeader_new (\<lambda>_. []) 1 2 3)
         (SlotMeta_empty\<lparr>me_status := 1\<rparr>))) = {i}"
proof -
  have occ: "occupied WorkflowSlabPool_new = {}"
    by (simp add: occupied_def WorkflowSlabPool_new_def SlabSlot_empty_def SlotMeta_empty_def is_free_def)
  have free: "\<not> is_free (SlotMeta_empty\<lparr>me_status := 1\<rparr>)" by (simp add: is_free_def)
  have cap: "SLAB_POOL_CAPACITY \<noteq> 0" by (simp add: SLAB_POOL_CAPACITY_def)
  show ?thesis
    using slab_pool_lifecycle [OF slab_pool_wf_new free surjective_pairing surjective_pairing,
        of "SlabHeader_new (\<lambda>_. []) 1 2 3"] occ cap
    by (auto split: option.splits)
qed

end
