(* ===== verification/Zero_Alloc.thy ===== *)
theory Zero_Alloc
  imports Slot_Array
begin

text \<open>
  \<open>velocity-workflow-engine/src/zero_alloc.rs\<close>: the slot map and the slot vector that hold
  the step results and the signal buffers of a workflow.  The slot map is shown to implement
  \<open>kv_store\<close>; the slot vector to hold one first-in first-out queue per key.
\<close>

section \<open>SlotMap\<close>

record 'v slot_map =
  sm_keys :: "u64 list"
  sm_slots :: "'v option list"
  sm_occupied :: u32

definition SlotMap_with_capacity :: "nat \<Rightarrow> 'v slot_map" where
  "SlotMap_with_capacity capacity =
     \<lparr>sm_keys = replicate capacity (- 1), sm_slots = replicate capacity None, sm_occupied = 0\<rparr>"

definition SlotMap_find_slot :: "'v slot_map \<Rightarrow> u64 \<Rightarrow> nat option" where
  "SlotMap_find_slot m key =
     position (\<lambda>(k, slot). k = key \<and> slot \<noteq> None) (zip (sm_keys m) (sm_slots m))"

definition SlotMap_insert :: "'v slot_map \<Rightarrow> u64 \<Rightarrow> 'v \<Rightarrow> 'v slot_map" where
  "SlotMap_insert m key value =
     (case SlotMap_find_slot m key of
        Some i \<Rightarrow> m\<lparr>sm_slots := (sm_slots m)[i := Some value]\<rparr>
      | None \<Rightarrow>
          (case position (\<lambda>slot. slot = None) (sm_slots m) of
             Some i \<Rightarrow> m\<lparr>sm_keys := (sm_keys m)[i := key], sm_slots := (sm_slots m)[i := Some value],
                          sm_occupied := sm_occupied m + 1\<rparr>
           | None \<Rightarrow> m\<lparr>sm_keys := sm_keys m @ [key], sm_slots := sm_slots m @ [Some value],
                       sm_occupied := sm_occupied m + 1\<rparr>))"

definition SlotMap_get :: "'v slot_map \<Rightarrow> u64 \<Rightarrow> 'v option" where
  "SlotMap_get m key = (case SlotMap_find_slot m key of Some i \<Rightarrow> sm_slots m ! i | None \<Rightarrow> None)"

text \<open>Writing through the reference \<open>get_mut\<close> returns.\<close>

definition SlotMap_get_mut :: "'v slot_map \<Rightarrow> u64 \<Rightarrow> ('v \<Rightarrow> 'v) \<Rightarrow> 'v slot_map" where
  "SlotMap_get_mut m key f =
     (case SlotMap_find_slot m key of
        Some i \<Rightarrow> m\<lparr>sm_slots := (sm_slots m)[i := map_option f (sm_slots m ! i)]\<rparr>
      | None \<Rightarrow> m)"

definition SlotMap_remove :: "'v slot_map \<Rightarrow> u64 \<Rightarrow> 'v slot_map \<times> 'v option" where
  "SlotMap_remove m key =
     (case SlotMap_find_slot m key of
        Some i \<Rightarrow>
          let val = sm_slots m ! i;
              m = m\<lparr>sm_keys := (sm_keys m)[i := - 1], sm_slots := (sm_slots m)[i := None]\<rparr>
          in (if val \<noteq> None then m\<lparr>sm_occupied := sm_occupied m - 1\<rparr> else m, val)
      | None \<Rightarrow> (m, None))"

definition SlotMap_len :: "'v slot_map \<Rightarrow> nat" where
  "SlotMap_len m = unat (sm_occupied m)"

definition SlotMap_is_empty :: "'v slot_map \<Rightarrow> bool" where
  "SlotMap_is_empty m \<longleftrightarrow> sm_occupied m = 0"

definition SlotMap_iter :: "'v slot_map \<Rightarrow> (u64 \<times> 'v) list" where
  "SlotMap_iter m =
     List.map_filter (\<lambda>(k, slot). map_option (Pair k) slot) (zip (sm_keys m) (sm_slots m))"

definition SlotMap_contains_key :: "'v slot_map \<Rightarrow> u64 \<Rightarrow> bool" where
  "SlotMap_contains_key m key \<longleftrightarrow> SlotMap_find_slot m key \<noteq> None"

definition SlotMap_clear :: "'v slot_map \<Rightarrow> 'v slot_map" where
  "SlotMap_clear m =
     m\<lparr>sm_keys := replicate (length (sm_keys m)) (- 1),
       sm_slots := replicate (length (sm_slots m)) None, sm_occupied := 0\<rparr>"

text \<open>
  \<open>retain\<close> visits the slots in order; the predicate may also rewrite the value, so it is a
  function to the new value and the verdict.
\<close>

fun retain_slots ::
    "(u64 \<Rightarrow> 'v \<Rightarrow> 'v \<times> bool) \<Rightarrow> u64 list \<Rightarrow> 'v option list \<Rightarrow> u32 \<Rightarrow> u64 list \<times> 'v option list \<times> u32" where
  "retain_slots f (k # ks) (Some v # ss) occ =
     (let (v', keep) = f k v
      in if keep
         then let (ks, ss, occ) = retain_slots f ks ss occ in (k # ks, Some v' # ss, occ)
         else let (ks, ss, occ) = retain_slots f ks ss (occ - 1) in (- 1 # ks, None # ss, occ))"
| "retain_slots f (k # ks) (None # ss) occ =
     (let (ks, ss, occ) = retain_slots f ks ss occ in (k # ks, None # ss, occ))"
| "retain_slots f ks ss occ = (ks, ss, occ)"

definition SlotMap_retain :: "'v slot_map \<Rightarrow> (u64 \<Rightarrow> 'v \<Rightarrow> 'v \<times> bool) \<Rightarrow> 'v slot_map" where
  "SlotMap_retain m f =
     (let (ks, ss, occ) = retain_slots f (sm_keys m) (sm_slots m) (sm_occupied m)
      in m\<lparr>sm_keys := ks, sm_slots := ss, sm_occupied := occ\<rparr>)"

section \<open>SlotVec\<close>

record 'v slot_vec =
  sv_keys :: "u64 list"
  sv_slots :: "'v list list"
  sv_occupied :: u32

definition SlotVec_with_capacity :: "nat \<Rightarrow> 'v slot_vec" where
  "SlotVec_with_capacity capacity =
     \<lparr>sv_keys = replicate capacity (- 1), sv_slots = replicate capacity [], sv_occupied = 0\<rparr>"

definition SlotVec_find_slot :: "'v slot_vec \<Rightarrow> u64 \<Rightarrow> nat option" where
  "SlotVec_find_slot s key =
     position (\<lambda>(k, slot). k = key \<and> slot \<noteq> []) (zip (sv_keys s) (sv_slots s))"

definition SlotVec_push :: "'v slot_vec \<Rightarrow> u64 \<Rightarrow> 'v \<Rightarrow> 'v slot_vec" where
  "SlotVec_push s key value =
     (case position (\<lambda>(k, slot). k = key) (zip (sv_keys s) (sv_slots s)) of
        Some i \<Rightarrow>
          s\<lparr>sv_occupied := (if sv_slots s ! i = [] then sv_occupied s + 1 else sv_occupied s),
            sv_slots := (sv_slots s)[i := sv_slots s ! i @ [value]]\<rparr>
      | None \<Rightarrow>
          (case position (\<lambda>(k, slot). slot = [] \<and> k = - 1) (zip (sv_keys s) (sv_slots s)) of
             Some i \<Rightarrow> s\<lparr>sv_keys := (sv_keys s)[i := key],
                          sv_slots := (sv_slots s)[i := sv_slots s ! i @ [value]],
                          sv_occupied := sv_occupied s + 1\<rparr>
           | None \<Rightarrow> s\<lparr>sv_keys := sv_keys s @ [key], sv_slots := sv_slots s @ [[value]],
                       sv_occupied := sv_occupied s + 1\<rparr>))"

definition SlotVec_get :: "'v slot_vec \<Rightarrow> u64 \<Rightarrow> 'v list option" where
  "SlotVec_get s key = map_option (\<lambda>i. sv_slots s ! i) (SlotVec_find_slot s key)"

definition SlotVec_pop_front :: "'v slot_vec \<Rightarrow> u64 \<Rightarrow> 'v slot_vec \<times> 'v option" where
  "SlotVec_pop_front s key =
     (case SlotVec_find_slot s key of
        None \<Rightarrow> (s, None)
      | Some i \<Rightarrow>
          (case sv_slots s ! i of
             [] \<Rightarrow> (s, None)
           | val # rest \<Rightarrow>
               (if rest = []
                then s\<lparr>sv_keys := (sv_keys s)[i := - 1], sv_slots := (sv_slots s)[i := rest],
                       sv_occupied := sv_occupied s - 1\<rparr>
                else s\<lparr>sv_slots := (sv_slots s)[i := rest]\<rparr>, Some val)))"

definition SlotVec_is_empty_at :: "'v slot_vec \<Rightarrow> u64 \<Rightarrow> bool" where
  "SlotVec_is_empty_at s key \<longleftrightarrow> SlotVec_find_slot s key = None"

definition SlotVec_occupied_count :: "'v slot_vec \<Rightarrow> nat" where
  "SlotVec_occupied_count s = unat (sv_occupied s)"

definition SlotVec_clear :: "'v slot_vec \<Rightarrow> 'v slot_vec" where
  "SlotVec_clear s =
     s\<lparr>sv_keys := replicate (length (sv_keys s)) (- 1),
       sv_slots := replicate (length (sv_slots s)) [], sv_occupied := 0\<rparr>"

definition SlotVec_iter :: "'v slot_vec \<Rightarrow> (u64 \<times> 'v list) list" where
  "SlotVec_iter s = filter (\<lambda>(k, slot). slot \<noteq> []) (zip (sv_keys s) (sv_slots s))"

section \<open>The slot map as a map\<close>

definition slot_view :: "u64 \<times> 'v option \<Rightarrow> (u64 \<times> 'v) option" where
  "slot_view = (\<lambda>(k, slot). map_option (Pair k) slot)"

definition slot_map_wf :: "'v slot_map \<Rightarrow> bool" where
  "slot_map_wf m \<longleftrightarrow> length (sm_keys m) = length (sm_slots m)
     \<and> distinct (map fst (SlotMap_iter m))
     \<and> sm_occupied m = word_of_nat (length (SlotMap_iter m))"

lemma slot_view_simps [simp]: "slot_view (k, None) = None" "slot_view (k, Some v) = Some (k, v)"
  by (simp_all add: slot_view_def)

lemma SlotMap_iter_live: "SlotMap_iter m = live slot_view (zip (sm_keys m) (sm_slots m))"
  by (simp add: SlotMap_iter_def live_def slot_view_def)

lemma find_slot_view:
  "SlotMap_find_slot m k = position (key_at slot_view k) (zip (sm_keys m) (sm_slots m))"
  unfolding SlotMap_find_slot_def by (rule arg_cong [of _ _ "\<lambda>P. position P _"])
    (auto simp: fun_eq_iff key_at_def slot_view_def)

lemma zip_update_snd:
  "length ks = length ss \<Longrightarrow> zip ks (ss[i := s]) = (zip ks ss)[i := (ks ! i, s)]"
  by (simp add: update_zip)

lemma zip_update_both: "zip (ks[i := k]) (ss[i := s]) = (zip ks ss)[i := (k, s)]"
  by (simp add: update_zip)

lemma find_slot_SomeD:
  assumes "slot_map_wf m" and "SlotMap_find_slot m k = Some i"
  shows "i < length (sm_slots m)" and "sm_keys m ! i = k" and "sm_slots m ! i \<noteq> None"
  using position_SomeD [OF assms(2) [unfolded SlotMap_find_slot_def]] assms(1)
  by (auto simp: slot_map_wf_def)

lemma find_slot_None: "SlotMap_find_slot m k = None \<longleftrightarrow> k \<notin> fst ` set (SlotMap_iter m)"
  by (simp add: find_slot_view key_at_None SlotMap_iter_live)

lemma SlotMap_get_map_of:
  assumes "slot_map_wf m"
  shows "SlotMap_get m = map_of (SlotMap_iter m)"
proof
  fix k
  show "SlotMap_get m k = map_of (SlotMap_iter m) k"
  proof (cases "SlotMap_find_slot m k")
    case None
    then have "map_of (SlotMap_iter m) k = None" by (simp add: find_slot_None map_of_eq_None_iff)
    then show ?thesis by (simp add: SlotMap_get_def None)
  next
    case (Some i)
    then show ?thesis
      using find_slot_SomeD [OF assms Some] live_lookup(1) [OF Some [unfolded find_slot_view]] assms
      by (auto simp: SlotMap_get_def SlotMap_iter_live slot_map_wf_def)
  qed
qed

lemma SlotMap_insert_spec:
  assumes wf: "slot_map_wf m"
  shows "slot_map_wf (SlotMap_insert m k v)"
    and "map_of (SlotMap_iter (SlotMap_insert m k v)) = (map_of (SlotMap_iter m))(k \<mapsto> v)"
proof -
  let ?z = "zip (sm_keys m) (sm_slots m)" and ?m = "SlotMap_insert m k v"
  have len: "length (sm_keys m) = length (sm_slots m)" using wf by (simp add: slot_map_wf_def)
  have "slot_map_wf ?m \<and> map_of (SlotMap_iter ?m) = (map_of (SlotMap_iter m))(k \<mapsto> v)"
  proof (cases "SlotMap_find_slot m k")
    case (Some i)
    have view: "slot_view (sm_keys m ! i, Some v) = Some (k, v)"
      using find_slot_SomeD [OF wf Some] by simp
    note ow = live_overwrite [OF Some [unfolded find_slot_view] view]
    have "length (SlotMap_iter ?m) = length (SlotMap_iter m)"
      using ow(3) len
      by (simp add: SlotMap_insert_def Some SlotMap_iter_live zip_update_snd)
    then show ?thesis
      using wf ow len by (simp add: SlotMap_insert_def Some slot_map_wf_def SlotMap_iter_live zip_update_snd)
  next
    case None
    then have k: "k \<notin> fst ` set (live slot_view ?z)" by (simp add: find_slot_None SlotMap_iter_live)
    show ?thesis
    proof (cases "position (\<lambda>slot. slot = None) (sm_slots m)")
      case free: (Some i)
      have i: "i < length ?z" "slot_view (?z ! i) = None"
        using position_SomeD [OF free] len by simp_all
      note occ = live_occupy [OF i k, of "(k, Some v)" v, simplified]
      show ?thesis
        using wf occ len
        by (simp add: SlotMap_insert_def None free slot_map_wf_def SlotMap_iter_live zip_update_both)
    next
      case full: None
      have "map_of (live slot_view ?z @ [(k, v)]) = (map_of (live slot_view ?z))(k \<mapsto> v)"
        using map_of_insert_middle [OF k, of v "[]"] by simp
      then show ?thesis
        using wf k len
        by (auto simp: SlotMap_insert_def None full slot_map_wf_def SlotMap_iter_live simp del: map_of_append)
    qed
  qed
  then show "slot_map_wf ?m" and "map_of (SlotMap_iter ?m) = (map_of (SlotMap_iter m))(k \<mapsto> v)"
    by blast+
qed

lemma SlotMap_remove_spec:
  assumes wf: "slot_map_wf m"
  shows "slot_map_wf (fst (SlotMap_remove m k))"
    and "map_of (SlotMap_iter (fst (SlotMap_remove m k))) = (map_of (SlotMap_iter m))(k := None)"
    and "snd (SlotMap_remove m k) = map_of (SlotMap_iter m) k"
proof -
  let ?m = "fst (SlotMap_remove m k)"
  have "slot_map_wf ?m \<and> map_of (SlotMap_iter ?m) = (map_of (SlotMap_iter m))(k := None)
      \<and> snd (SlotMap_remove m k) = map_of (SlotMap_iter m) k"
  proof (cases "SlotMap_find_slot m k")
    case None
    then have "map_of (SlotMap_iter m) k = None" by (simp add: find_slot_None map_of_eq_None_iff)
    then show ?thesis using wf by (auto simp: SlotMap_remove_def None)
  next
    case (Some i)
    have dist: "distinct (map fst (live slot_view (zip (sm_keys m) (sm_slots m))))"
      using wf by (simp add: slot_map_wf_def SlotMap_iter_live)
    note vac = live_vacate [OF Some [unfolded find_slot_view] dist, of "(- 1, None)", simplified]
    have "SlotMap_get m k = snd (SlotMap_remove m k)"
      by (simp add: SlotMap_get_def SlotMap_remove_def Some Let_def)
    moreover have "sm_occupied m - 1 = word_of_nat (length (live slot_view
        ((zip (sm_keys m) (sm_slots m))[i := (- 1, None)])))"
      using wf unfolding slot_map_wf_def SlotMap_iter_live vac(2) [symmetric] by simp
    ultimately show ?thesis
      using wf vac find_slot_SomeD(3) [OF wf Some] SlotMap_get_map_of [OF wf]
      by (simp add: SlotMap_remove_def Some Let_def slot_map_wf_def SlotMap_iter_live zip_update_both)
  qed
  then show "slot_map_wf ?m" and "map_of (SlotMap_iter ?m) = (map_of (SlotMap_iter m))(k := None)"
    and "snd (SlotMap_remove m k) = map_of (SlotMap_iter m) k" by blast+
qed

interpretation sm: kv_store slot_map_wf SlotMap_get SlotMap_insert "\<lambda>m k. fst (SlotMap_remove m k)" "\<lambda>_ _. True"
  by unfold_locales (simp_all add: SlotMap_insert_spec SlotMap_remove_spec SlotMap_get_map_of)

lemma SlotMap_iter_new [simp]: "SlotMap_iter (SlotMap_with_capacity n) = []"
  by (simp add: SlotMap_iter_live SlotMap_with_capacity_def live_None set_zip)

lemma slot_map_wf_new [simp]: "slot_map_wf (SlotMap_with_capacity n)"
  unfolding slot_map_wf_def SlotMap_iter_new by (simp add: SlotMap_with_capacity_def)

lemma SlotMap_clear_spec:
  assumes "slot_map_wf m"
  shows "slot_map_wf (SlotMap_clear m)" and "SlotMap_iter (SlotMap_clear m) = []"
proof -
  have "SlotMap_clear m = SlotMap_with_capacity (length (sm_slots m))"
    using assms by (simp add: SlotMap_clear_def SlotMap_with_capacity_def slot_map_wf_def)
  then show "slot_map_wf (SlotMap_clear m)" and "SlotMap_iter (SlotMap_clear m) = []" by simp_all
qed

text \<open>What \<open>retain\<close> keeps of the occupied slots.\<close>

definition retained :: "(u64 \<Rightarrow> 'v \<Rightarrow> 'v \<times> bool) \<Rightarrow> u64 \<times> 'v \<Rightarrow> (u64 \<times> 'v) option" where
  "retained f = (\<lambda>(k, v). if snd (f k v) then Some (k, fst (f k v)) else None)"

lemma retain_slots_spec:
  "length ks = length ss \<Longrightarrow> retain_slots f ks ss occ = (ks', ss', occ') \<Longrightarrow>
     length ks' = length ks \<and> length ss' = length ss
     \<and> live slot_view (zip ks' ss') = live (retained f) (live slot_view (zip ks ss))
     \<and> occ' + word_of_nat (length (live slot_view (zip ks ss)))
         = occ + word_of_nat (length (live slot_view (zip ks' ss')))"
proof (induction f ks ss occ arbitrary: ks' ss' occ' rule: retain_slots.induct)
  case (1 f k ks v ss occ)
  obtain v' keep where f: "f k v = (v', keep)" by (cases "f k v")
  show ?case
  proof (cases keep)
    case True
    obtain k1 s1 o1 where r: "retain_slots f ks ss occ = (k1, s1, o1)" by (metis prod_cases3)
    show ?thesis
      using "1.IH"(1) [OF f [symmetric] refl _ _ r] True "1.prems" f r
      by (auto simp: retained_def algebra_simps)
  next
    case False
    obtain k1 s1 o1 where r: "retain_slots f ks ss (occ - 1) = (k1, s1, o1)" by (metis prod_cases3)
    show ?thesis
      using "1.IH"(2) [OF f [symmetric] refl _ _ r] False "1.prems" f r
      by (auto simp: retained_def algebra_simps)
  qed
next
  case (2 f k ks ss occ)
  obtain k1 s1 o1 where "retain_slots f ks ss occ = (k1, s1, o1)" by (metis prod_cases3)
  then show ?case using 2 by auto
qed auto

lemma map_fst_retained:
  "map fst (live (retained f) xs) = map fst (filter (\<lambda>kv. snd (f (fst kv) (snd kv))) xs)"
  by (induction xs) (auto simp: retained_def)

lemma SlotMap_retain_spec:
  assumes "slot_map_wf m"
  shows "slot_map_wf (SlotMap_retain m f)"
    and "SlotMap_iter (SlotMap_retain m f) = live (retained f) (SlotMap_iter m)"
proof -
  obtain ks ss occ where r: "retain_slots f (sm_keys m) (sm_slots m) (sm_occupied m) = (ks, ss, occ)"
    by (metis prod_cases3)
  have len: "length (sm_keys m) = length (sm_slots m)" using assms by (simp add: slot_map_wf_def)
  note sp = retain_slots_spec [OF len r]
  have eq: "SlotMap_retain m f = m\<lparr>sm_keys := ks, sm_slots := ss, sm_occupied := occ\<rparr>"
    by (simp add: SlotMap_retain_def r)
  have oc: "occ = word_of_nat (length (live slot_view (zip ks ss)))"
    using sp assms by (simp add: slot_map_wf_def SlotMap_iter_live)
  show it: "SlotMap_iter (SlotMap_retain m f) = live (retained f) (SlotMap_iter m)"
    using sp by (simp add: SlotMap_retain_def r SlotMap_iter_live)
  have "distinct (map fst (filter (\<lambda>kv. snd (f (fst kv) (snd kv))) (SlotMap_iter m)))"
    using assms by (simp add: slot_map_wf_def distinct_map_filter)
  then have "distinct (map fst (SlotMap_iter (SlotMap_retain m f)))"
    by (simp only: it map_fst_retained)
  then show "slot_map_wf (SlotMap_retain m f)"
    using sp oc len unfolding slot_map_wf_def by (simp add: eq SlotMap_iter_live)
qed

section \<open>The slot vector as queues\<close>

definition vec_view :: "u64 \<times> 'v list \<Rightarrow> (u64 \<times> 'v list) option" where
  "vec_view = (\<lambda>(k, vs). if vs = [] then None else Some (k, vs))"

definition slot_vec_wf :: "'v slot_vec \<Rightarrow> bool" where
  "slot_vec_wf s \<longleftrightarrow> length (sv_keys s) = length (sv_slots s)
     \<and> (\<forall>(k, vs) \<in> set (zip (sv_keys s) (sv_slots s)). vs = [] \<longleftrightarrow> k = - 1)
     \<and> distinct (map fst (live vec_view (zip (sv_keys s) (sv_slots s))))
     \<and> sv_occupied s = word_of_nat (length (live vec_view (zip (sv_keys s) (sv_slots s))))"

definition vec_map :: "'v slot_vec \<Rightarrow> u64 \<rightharpoonup> 'v list" where
  "vec_map s = map_of (live vec_view (zip (sv_keys s) (sv_slots s)))"

text \<open>The queue of a key, empty when the key has no slot.\<close>

definition vec_queue :: "'v slot_vec \<Rightarrow> u64 \<Rightarrow> 'v list" where
  "vec_queue s k = (case SlotVec_get s k of Some vs \<Rightarrow> vs | None \<Rightarrow> [])"

lemma vec_find_view:
  "SlotVec_find_slot s k = position (key_at vec_view k) (zip (sv_keys s) (sv_slots s))"
  unfolding SlotVec_find_slot_def by (rule arg_cong [of _ _ "\<lambda>P. position P _"])
    (auto simp: fun_eq_iff key_at_def vec_view_def)

lemma vec_find_push:
  assumes "slot_vec_wf s" and "k \<noteq> - 1"
  shows "position (\<lambda>(k', slot). k' = k) (zip (sv_keys s) (sv_slots s)) = SlotVec_find_slot s k"
  unfolding SlotVec_find_slot_def
  by (rule position_cong) (use assms in \<open>auto simp: slot_vec_wf_def\<close>)

lemma vec_find_SomeD:
  assumes "slot_vec_wf s" and "SlotVec_find_slot s k = Some i"
  shows "i < length (sv_slots s)" and "sv_keys s ! i = k" and "sv_slots s ! i \<noteq> []"
    and "vec_map s k = Some (sv_slots s ! i)"
proof -
  show i: "i < length (sv_slots s)" "sv_keys s ! i = k" "sv_slots s ! i \<noteq> []"
    using position_SomeD [OF assms(2) [unfolded SlotVec_find_slot_def]] assms(1)
    by (auto simp: slot_vec_wf_def)
  show "vec_map s k = Some (sv_slots s ! i)"
    using live_lookup(1) [OF assms(2) [unfolded vec_find_view]] i assms(1)
    by (auto simp: vec_map_def vec_view_def slot_vec_wf_def)
qed

lemma vec_find_None: "SlotVec_find_slot s k = None \<longleftrightarrow> vec_map s k = None"
  by (simp add: vec_find_view key_at_None vec_map_def map_of_eq_None_iff)

lemma SlotVec_get_vec_map: "slot_vec_wf s \<Longrightarrow> SlotVec_get s k = vec_map s k"
  using vec_find_SomeD(4) [of s k] vec_find_None [of s k]
  by (cases "SlotVec_find_slot s k") (simp_all add: SlotVec_get_def)

lemma vec_queue_cases:
  assumes "slot_vec_wf s"
  shows "vec_queue s k = [] \<longleftrightarrow> SlotVec_find_slot s k = None"
    and "SlotVec_find_slot s k = Some i \<Longrightarrow> vec_queue s k = sv_slots s ! i"
  using vec_find_SomeD [OF assms, of k]
  by (cases "SlotVec_find_slot s k"; simp add: vec_queue_def SlotVec_get_def)+

lemma set_update_zip:
  "xy \<in> set ((zip ks ss)[i := p]) \<Longrightarrow> xy = p \<or> xy \<in> set (zip ks ss)"
  using set_update_subset_insert by fastforce

lemma SlotVec_push_spec:
  assumes wf: "slot_vec_wf s" and k: "k \<noteq> - 1"
  shows "slot_vec_wf (SlotVec_push s k v)"
    and "vec_map (SlotVec_push s k v) = (vec_map s)(k \<mapsto> vec_queue s k @ [v])"
proof -
  let ?z = "zip (sv_keys s) (sv_slots s)" and ?s = "SlotVec_push s k v"
  have len: "length (sv_keys s) = length (sv_slots s)" using wf by (simp add: slot_vec_wf_def)
  have sent: "\<forall>(k, vs) \<in> set ?z. vs = [] \<longleftrightarrow> k = - 1" using wf by (simp add: slot_vec_wf_def)
  note find = vec_find_push [OF wf k]
  have "slot_vec_wf ?s \<and> vec_map ?s = (vec_map s)(k \<mapsto> vec_queue s k @ [v])"
  proof (cases "SlotVec_find_slot s k")
    case (Some i)
    let ?x = "(sv_keys s ! i, sv_slots s ! i @ [v])"
    have q: "vec_queue s k = sv_slots s ! i" using vec_queue_cases(2) [OF wf Some] .
    have i: "sv_keys s ! i = k" "sv_slots s ! i \<noteq> []" using vec_find_SomeD [OF wf Some] by simp_all
    have view: "vec_view ?x = Some (k, vec_queue s k @ [v])" by (simp add: vec_view_def i q)
    note ow = live_overwrite [OF Some [unfolded vec_find_view] view]
    have s': "?s = s\<lparr>sv_slots := (sv_slots s)[i := sv_slots s ! i @ [v]]\<rparr>"
      by (simp add: SlotVec_push_def find Some i)
    have z: "zip (sv_keys s) ((sv_slots s)[i := sv_slots s ! i @ [v]]) = ?z[i := ?x]"
      using len by (rule zip_update_snd)
    have "\<forall>(k, vs) \<in> set (?z[i := ?x]). vs = [] \<longleftrightarrow> k = - 1"
      using sent k i by (auto dest!: set_update_zip)
    then show ?thesis
      using wf ow len
      by (simp add: s' slot_vec_wf_def vec_map_def z)
  next
    case None
    then have q: "vec_queue s k = []" using vec_queue_cases(1) [OF wf] by simp
    have nk: "k \<notin> fst ` set (live vec_view ?z)"
      using None by (simp add: vec_find_None vec_map_def map_of_eq_None_iff)
    show ?thesis
    proof (cases "position (\<lambda>(k, slot). slot = [] \<and> k = - 1) ?z")
      case free: (Some i)
      have i: "i < length ?z" "vec_view (?z ! i) = None" "sv_slots s ! i = []"
        using position_SomeD [OF free] len by (auto simp: vec_view_def)
      note occ = live_occupy [OF i(1,2) nk, of "(k, [v])" "[v]", simplified vec_view_def, simplified,
          folded vec_view_def]
      have s': "?s = s\<lparr>sv_keys := (sv_keys s)[i := k], sv_slots := (sv_slots s)[i := [v]],
          sv_occupied := sv_occupied s + 1\<rparr>"
        by (simp add: SlotVec_push_def find None free i)
      have "\<forall>(k, vs) \<in> set (?z[i := (k, [v])]). vs = [] \<longleftrightarrow> k = - 1"
        using sent k by (auto dest!: set_update_zip)
      then show ?thesis
        using wf occ len by (simp add: s' slot_vec_wf_def vec_map_def zip_update_both q)
    next
      case full: None
      have "map_of (live vec_view ?z @ [(k, [v])]) = (map_of (live vec_view ?z))(k \<mapsto> [v])"
        using map_of_insert_middle [OF nk, of "[v]" "[]"] by simp
      then show ?thesis
        using wf nk len k
        by (auto simp: SlotVec_push_def find None full slot_vec_wf_def vec_map_def q vec_view_def
            simp del: map_of_append)
    qed
  qed
  then show "slot_vec_wf ?s" and "vec_map ?s = (vec_map s)(k \<mapsto> vec_queue s k @ [v])" by blast+
qed

lemma SlotVec_pop_spec:
  assumes wf: "slot_vec_wf s" and k: "k \<noteq> - 1"
  shows "slot_vec_wf (fst (SlotVec_pop_front s k))"
    and "vec_queue s k = [] \<Longrightarrow> SlotVec_pop_front s k = (s, None)"
    and "vec_queue s k = v # vs \<Longrightarrow> snd (SlotVec_pop_front s k) = Some v
      \<and> vec_map (fst (SlotVec_pop_front s k)) = (vec_map s)(k := if vs = [] then None else Some vs)"
proof -
  let ?z = "zip (sv_keys s) (sv_slots s)" and ?p = "SlotVec_pop_front s k"
  have len: "length (sv_keys s) = length (sv_slots s)" using wf by (simp add: slot_vec_wf_def)
  have sent: "\<forall>(k, vs) \<in> set ?z. vs = [] \<longleftrightarrow> k = - 1" using wf by (simp add: slot_vec_wf_def)
  have dist: "distinct (map fst (live vec_view ?z))" using wf by (simp add: slot_vec_wf_def)
  show empty: "?p = (s, None)" if "vec_queue s k = []"
    using that vec_queue_cases(1) [OF wf] by (simp add: SlotVec_pop_front_def)
  have main: "slot_vec_wf (fst ?p) \<and> snd ?p = Some v \<and>
      vec_map (fst ?p) = (vec_map s)(k := if vs = [] then None else Some vs)"
    if q: "vec_queue s k = v # vs" for v vs
  proof -
    obtain i where Some: "SlotVec_find_slot s k = Some i"
      using q vec_queue_cases(1) [OF wf, of k] by auto
    have i: "sv_keys s ! i = k" "sv_slots s ! i = v # vs"
      using vec_find_SomeD(2) [OF wf Some] vec_queue_cases(2) [OF wf Some] q by simp_all
    show ?thesis
    proof (cases "vs = []")
      case True
      have none: "vec_view (- 1, []) = (None :: (u64 \<times> 'a list) option)" by (simp add: vec_view_def)
      note vac = live_vacate [OF Some [unfolded vec_find_view] dist none]
      have p: "?p = (s\<lparr>sv_keys := (sv_keys s)[i := - 1], sv_slots := (sv_slots s)[i := []],
          sv_occupied := sv_occupied s - 1\<rparr>, Some v)"
        by (simp add: SlotVec_pop_front_def Some i True)
      have "\<forall>(k, vs) \<in> set (?z[i := (- 1, [])]). vs = [] \<longleftrightarrow> k = - 1"
        using sent by (auto dest!: set_update_zip)
      moreover have "sv_occupied s - 1 = word_of_nat (length (live vec_view (?z[i := (- 1, [])])))"
        using wf unfolding slot_vec_wf_def vac(2) [symmetric] by simp
      ultimately show ?thesis
        using wf vac len True by (simp add: p slot_vec_wf_def vec_map_def zip_update_both)
    next
      case False
      have view: "vec_view (sv_keys s ! i, vs) = Some (k, vs)" by (simp add: vec_view_def i False)
      note ow = live_overwrite [OF Some [unfolded vec_find_view] view]
      have p: "?p = (s\<lparr>sv_slots := (sv_slots s)[i := vs]\<rparr>, Some v)"
        by (simp add: SlotVec_pop_front_def Some i False)
      have z: "zip (sv_keys s) ((sv_slots s)[i := vs]) = ?z[i := (sv_keys s ! i, vs)]"
        using len by (rule zip_update_snd)
      have "\<forall>(k, vs) \<in> set (?z[i := (sv_keys s ! i, vs)]). vs = [] \<longleftrightarrow> k = - 1"
        using sent k i False by (auto dest!: set_update_zip)
      then show ?thesis
        using wf ow len False
        by (simp add: p slot_vec_wf_def vec_map_def z)
    qed
  qed
  show "slot_vec_wf (fst ?p)" using main empty wf by (cases "vec_queue s k") auto
  show "snd ?p = Some v \<and> vec_map (fst ?p) = (vec_map s)(k := if vs = [] then None else Some vs)"
    if "vec_queue s k = v # vs" using main [OF that] by blast
qed

section \<open>Any use of a slot vector\<close>

datatype 'v vec_op = Push u64 'v | Pop u64

fun vec_exec :: "'v vec_op list \<Rightarrow> 'v slot_vec \<Rightarrow> 'v slot_vec \<times> 'v option list" where
  "vec_exec [] s = (s, [])"
| "vec_exec (Push k v # ops) s = vec_exec ops (SlotVec_push s k v)"
| "vec_exec (Pop k # ops) s =
     (let (s, r) = SlotVec_pop_front s k; (s, rs) = vec_exec ops s in (s, r # rs))"

text \<open>The same operations on one queue per key.\<close>

fun queues_exec :: "'v vec_op list \<Rightarrow> (u64 \<Rightarrow> 'v list) \<Rightarrow> (u64 \<Rightarrow> 'v list) \<times> 'v option list" where
  "queues_exec [] q = (q, [])"
| "queues_exec (Push k v # ops) q = queues_exec ops (q(k := q k @ [v]))"
| "queues_exec (Pop k # ops) q =
     (let (q', rs) = queues_exec ops (q(k := tl (q k)))
      in (q', (case q k of [] \<Rightarrow> None | v # _ \<Rightarrow> Some v) # rs))"

fun vec_op_key :: "'v vec_op \<Rightarrow> u64" where
  "vec_op_key (Push k v) = k"
| "vec_op_key (Pop k) = k"

lemma vec_queue_vec_map:
  "slot_vec_wf s \<Longrightarrow> vec_queue s = (\<lambda>k. case vec_map s k of Some vs \<Rightarrow> vs | None \<Rightarrow> [])"
  by (simp add: fun_eq_iff vec_queue_def SlotVec_get_vec_map)

lemma vec_queue_push:
  assumes "slot_vec_wf s" and "k \<noteq> - 1"
  shows "vec_queue (SlotVec_push s k v) = (vec_queue s)(k := vec_queue s k @ [v])"
  using SlotVec_push_spec [OF assms, of v] assms(1) by (simp add: vec_queue_vec_map fun_eq_iff)

lemma vec_queue_pop:
  assumes "slot_vec_wf s" and "k \<noteq> - 1"
  shows "vec_queue (fst (SlotVec_pop_front s k)) = (vec_queue s)(k := tl (vec_queue s k))"
    and "snd (SlotVec_pop_front s k) = (case vec_queue s k of [] \<Rightarrow> None | v # _ \<Rightarrow> Some v)"
proof -
  note pop = SlotVec_pop_spec [OF assms]
  show "snd (SlotVec_pop_front s k) = (case vec_queue s k of [] \<Rightarrow> None | v # _ \<Rightarrow> Some v)"
    using pop(2,3) by (auto split: list.splits)
  show "vec_queue (fst (SlotVec_pop_front s k)) = (vec_queue s)(k := tl (vec_queue s k))"
  proof (cases "vec_queue s k")
    case Nil
    then show ?thesis using pop(2) by (simp add: fun_upd_idem)
  next
    case (Cons v vs)
    then show ?thesis
      using pop(3) [OF Cons] vec_queue_vec_map [OF pop(1)] vec_queue_vec_map [OF assms(1)]
      by (auto simp: fun_eq_iff)
  qed
qed

lemma vec_exec_refines:
  "slot_vec_wf s \<Longrightarrow> \<forall>op\<in>set ops. vec_op_key op \<noteq> - 1 \<Longrightarrow>
     slot_vec_wf (fst (vec_exec ops s))
     \<and> vec_queue (fst (vec_exec ops s)) = fst (queues_exec ops (vec_queue s))
     \<and> snd (vec_exec ops s) = snd (queues_exec ops (vec_queue s))"
proof (induction ops s rule: vec_exec.induct)
  case (2 k v ops s)
  then show ?case by (simp add: SlotVec_push_spec vec_queue_push)
next
  case (3 k ops s)
  obtain s' r where p: "SlotVec_pop_front s k = (s', r)" by (cases "SlotVec_pop_front s k")
  have wf: "slot_vec_wf s'" and q: "vec_queue s' = (vec_queue s)(k := tl (vec_queue s k))"
    and r: "r = (case vec_queue s k of [] \<Rightarrow> None | v # _ \<Rightarrow> Some v)"
    using SlotVec_pop_spec(1) [of s k] vec_queue_pop [of s k] "3.prems" p by auto
  have "slot_vec_wf (fst (vec_exec ops s'))
      \<and> vec_queue (fst (vec_exec ops s')) = fst (queues_exec ops (vec_queue s'))
      \<and> snd (vec_exec ops s') = snd (queues_exec ops (vec_queue s'))"
    using "3.IH" [OF refl p [symmetric] wf] "3.prems" by simp
  then show ?case unfolding q by (simp add: p r case_prod_beta Let_def)
qed simp

lemma slot_vec_wf_new: "slot_vec_wf (SlotVec_with_capacity n)"
  by (auto simp: slot_vec_wf_def SlotVec_with_capacity_def set_zip live_None vec_view_def)

lemma vec_queue_new: "vec_queue (SlotVec_with_capacity n :: 'v slot_vec) = (\<lambda>_. [])"
proof -
  have "vec_map (SlotVec_with_capacity n :: 'v slot_vec) = Map.empty"
    by (simp add: vec_map_def SlotVec_with_capacity_def live_None set_zip vec_view_def)
  then show ?thesis unfolding vec_queue_vec_map [OF slot_vec_wf_new] by simp
qed

section \<open>Properties\<close>

text \<open>
  From any capacity, after any insertions and removals, \<open>SlotMap::get\<close> answers for
  every key what a map would, growing past the capacity included, and the occupancy counter
  is the number of keys modulo the counter's range.
\<close>

theorem slot_map_is_a_map:
  fixes n :: nat and ops :: "(u64, 'v) kv_op list"
  defines "m \<equiv> fold (kv_exec SlotMap_insert (\<lambda>m k. fst (SlotMap_remove m k))) ops (SlotMap_with_capacity n)"
  shows "SlotMap_get m = fold kv_step ops Map.empty
    \<and> sm_occupied m = word_of_nat (card (dom (fold kv_step ops Map.empty)))"
proof -
  have fits: "kv_fits (\<lambda>_ _. True) ops g" for g :: "u64 \<rightharpoonup> 'v"
    by (induction ops arbitrary: g) (auto split: kv_op.splits)
  have "SlotMap_get (SlotMap_with_capacity n) = (Map.empty :: u64 \<rightharpoonup> 'v)"
    by (simp add: SlotMap_get_map_of)
  then have run: "slot_map_wf m" "SlotMap_get m = fold kv_step ops Map.empty"
    using sm.exec_refines [OF slot_map_wf_new fits] by (simp_all add: m_def)
  have "card (dom (SlotMap_get m)) = card (set (map fst (SlotMap_iter m)))"
    using SlotMap_get_map_of [OF run(1)] by (simp add: dom_map_of_conv_image_fst)
  also have "\<dots> = length (map fst (SlotMap_iter m))"
    using run(1) by (intro distinct_card) (simp add: slot_map_wf_def)
  finally show ?thesis using run by (simp add: slot_map_wf_def)
qed

text \<open>
  Every key of a slot vector is a first-in first-out queue: whatever pushes and pops
  are made, each pop returns what the queue of its key would.  The key \<open>u64::MAX\<close>, which
  marks free slots, is excepted.
\<close>

theorem slot_vec_is_fifo:
  assumes "\<forall>op\<in>set ops. vec_op_key op \<noteq> - 1"
  shows "snd (vec_exec ops (SlotVec_with_capacity n)) = snd (queues_exec ops (\<lambda>_. []))"
  using vec_exec_refines [OF slot_vec_wf_new assms, of n] by (simp add: vec_queue_new)

theorem slot_vec_is_fifo_witness:
  "snd (vec_exec [Push 1 (10::nat), Push 2 20, Push 1 30, Pop 1, Pop 1, Pop 2, Pop 2] (SlotVec_with_capacity 1))
     = [Some 10, Some 30, Some 20, None]"
  using slot_vec_is_fifo [of "[Push 1 (10::nat), Push 2 20, Push 1 30, Pop 1, Pop 1, Pop 2, Pop 2]" 1] by simp

end
