(* ===== verification/Hash_Map.thy ===== *)
theory Hash_Map
  imports Slot_Array "HOL-Library.AList"
begin

text \<open>
  The standard library's \<open>HashMap\<close> as the engine uses it: an association list with distinct
  keys, whose list order stands for the iteration order the library leaves unspecified.
  \<open>get\<close> is \<open>map_of\<close>, \<open>insert\<close> and \<open>remove\<close> are those of the library's association lists, \<open>entry().or_insert_with()\<close>,
  \<open>get_mut\<close>, \<open>values_mut\<close> and \<open>retain\<close> are defined here with the lemmas on them.
\<close>

type_synonym ('k, 'v) hash_map = "('k \<times> 'v) list"

abbreviation hm_wf :: "('k, 'v) hash_map \<Rightarrow> bool" where
  "hm_wf m \<equiv> distinct (map fst m)"

abbreviation hm_insert :: "('k, 'v) hash_map \<Rightarrow> 'k \<Rightarrow> 'v \<Rightarrow> ('k, 'v) hash_map" where
  "hm_insert m k v \<equiv> AList.update k v m"

abbreviation hm_remove :: "('k, 'v) hash_map \<Rightarrow> 'k \<Rightarrow> ('k, 'v) hash_map" where
  "hm_remove m k \<equiv> AList.delete k m"

definition or_insert :: "('k, 'v) hash_map \<Rightarrow> 'k \<Rightarrow> 'v \<Rightarrow> ('k, 'v) hash_map" where
  "or_insert m k v = (case map_of m k of None \<Rightarrow> hm_insert m k v | Some _ \<Rightarrow> m)"

definition get_or :: "('k, 'v) hash_map \<Rightarrow> 'k \<Rightarrow> 'v \<Rightarrow> 'v" where
  "get_or m k v = (case map_of m k of None \<Rightarrow> v | Some w \<Rightarrow> w)"

definition modify :: "('k, 'v) hash_map \<Rightarrow> 'k \<Rightarrow> ('v \<Rightarrow> 'v) \<Rightarrow> ('k, 'v) hash_map" where
  "modify m k f = (case map_of m k of None \<Rightarrow> m | Some v \<Rightarrow> hm_insert m k (f v))"

definition map_values :: "('v \<Rightarrow> 'w) \<Rightarrow> ('k, 'v) hash_map \<Rightarrow> ('k, 'w) hash_map" where
  "map_values f m = map (\<lambda>(k, v). (k, f v)) m"

definition hm_retain :: "('k \<Rightarrow> 'v \<Rightarrow> bool) \<Rightarrow> ('k, 'v) hash_map \<Rightarrow> ('k, 'v) hash_map" where
  "hm_retain P m = filter (\<lambda>(k, v). P k v) m"

lemmas hm_lookup [simp] = update_conv' delete_conv'

lemma hm_wf_insert [simp, velocity_wf]: "hm_wf m \<Longrightarrow> hm_wf (hm_insert m k v)"
  by (rule distinct_update)

lemma hm_wf_remove [simp, velocity_wf]: "hm_wf m \<Longrightarrow> hm_wf (hm_remove m k)"
  by (rule distinct_delete)

lemma hm_wf_or_insert [simp, velocity_wf]: "hm_wf m \<Longrightarrow> hm_wf (or_insert m k v)"
  by (simp add: or_insert_def distinct_update split: option.split)

lemma hm_wf_modify [simp, velocity_wf]: "hm_wf m \<Longrightarrow> hm_wf (modify m k f)"
  by (simp add: modify_def distinct_update split: option.split)

lemma map_fst_map_values [simp]: "map fst (map_values f m) = map fst m"
  by (simp add: map_values_def case_prod_beta)

lemma length_map_values [simp]: "length (map_values f m) = length m"
  by (simp add: map_values_def)

lemma hm_wf_retain [simp, velocity_wf]: "hm_wf m \<Longrightarrow> hm_wf (hm_retain P m)"
  by (simp add: hm_retain_def distinct_map_filter)

lemma map_of_or_insert:
  "map_of (or_insert m k v) = (map_of m)(k \<mapsto> get_or m k v)"
  by (auto simp: or_insert_def get_or_def split: option.split)

lemma map_of_modify:
  "map_of (modify m k f) = (map_of m)(k := map_option f (map_of m k))"
  by (auto simp: modify_def split: option.split)

lemma map_of_map_values: "map_of (map_values f m) k = map_option f (map_of m k)"
  by (induction m) (auto simp: map_values_def)

lemma map_of_hm_retain:
  "hm_wf m \<Longrightarrow> map_of (hm_retain P m) k = (case map_of m k of None \<Rightarrow> None | Some v \<Rightarrow> if P k v then Some v else None)"
proof (induction m)
  case (Cons e m)
  then have "fst e \<notin> set (map fst m)" by simp
  then have "map_of m (fst e) = None" by (simp add: map_of_eq_None_iff)
  then show ?case using Cons by (cases e) (auto simp: hm_retain_def split: option.splits)
qed (simp add: hm_retain_def)

lemma get_or_insert [simp]: "get_or (hm_insert m k v) k' d = (if k' = k then v else get_or m k' d)"
  by (simp add: get_or_def)

lemma get_or_remove [simp]: "get_or (hm_remove m k) k' d = (if k' = k then d else get_or m k' d)"
  by (simp add: get_or_def)

lemma get_or_map_values: "f d = d \<Longrightarrow> get_or (map_values f m) k d = f (get_or m k d)"
  by (simp add: get_or_def map_of_map_values split: option.split)

lemma get_or_Nil [simp]: "get_or [] k d = d"
  by (simp add: get_or_def)

lemma hm_values:
  "hm_wf m \<Longrightarrow> set (map snd m) = ran (map_of m)"
  by (simp add: ran_distinct)

lemma hm_length: "hm_wf m \<Longrightarrow> length m = card (dom (map_of m))"
  by (metis distinct_card dom_map_of_conv_image_fst length_map list.set_map)

interpretation hm: kv_store hm_wf map_of hm_insert hm_remove "\<lambda>_ _. True"
  by unfold_locales (simp_all add: distinct_update distinct_delete)

text \<open>Sums over the values, for the counters that add up one field of every entry.\<close>

definition sum_values :: "('v \<Rightarrow> nat) \<Rightarrow> ('k, 'v) hash_map \<Rightarrow> nat" where
  "sum_values f m = sum_list (map (f \<circ> snd) m)"

lemma sum_values_Nil [simp]: "sum_values f [] = 0"
  by (simp add: sum_values_def)

lemma sum_values_insert:
  "sum_values f (hm_insert m k v) + (case map_of m k of None \<Rightarrow> 0 | Some w \<Rightarrow> f w)
     = sum_values f m + f v"
  by (induction m) (auto simp: sum_values_def split: option.splits)

lemma sum_values_map_values: "sum_values f (map_values g m) = sum_values (f \<circ> g) m"
  by (simp add: sum_values_def map_values_def case_prod_beta comp_def)

end
