(* ===== verification/Circuit_Breaker.thy ===== *)
theory Circuit_Breaker
  imports Hash_Map
begin

text \<open>
  The circuit breakers of \<open>circuit_breaker.rs\<close>: the breaker of one workflow type with its
  failure window, and the registry that keeps one breaker per type.  Every call of
  \<open>now_ms()\<close> is an argument, one per reading: an operation that reads the clock itself and
  then calls \<open>transition_to\<close>, which reads it again, takes two.  The summaries, whose
  rejection rate is a float, are left out.
\<close>

section \<open>The breaker of one workflow type\<close>

datatype circuit_state = Closed | Open | HalfOpen

definition CircuitState_as_str :: "circuit_state \<Rightarrow> string" where
  "CircuitState_as_str s = (case s of Closed \<Rightarrow> ''closed'' | Open \<Rightarrow> ''open'' | HalfOpen \<Rightarrow> ''half_open'')"

record breaker_config =
  failure_threshold :: u32
  cooldown_ms :: u64
  success_threshold :: u32
  half_open_max_requests :: u32
  failure_window_ms :: u64

definition default_config :: breaker_config where
  "default_config = \<lparr>failure_threshold = 5, cooldown_ms = 30000, success_threshold = 3,
     half_open_max_requests = 3, failure_window_ms = 60000\<rparr>"

definition aggressive :: breaker_config where
  "aggressive = \<lparr>failure_threshold = 3, cooldown_ms = 10000, success_threshold = 2,
     half_open_max_requests = 2, failure_window_ms = 30000\<rparr>"

definition conservative :: breaker_config where
  "conservative = \<lparr>failure_threshold = 10, cooldown_ms = 60000, success_threshold = 5,
     half_open_max_requests = 5, failure_window_ms = 120000\<rparr>"

record circuit_breaker =
  workflow_type_id :: u64
  cb_state :: circuit_state
  config :: breaker_config
  consecutive_failures :: u32
  window_failures :: u32
  half_open_successes :: u32
  half_open_requests :: u32
  opened_at_ms :: u64
  last_transition_ms :: u64
  times_opened :: u64
  cb_rejected :: u64
  cb_allowed :: u64
  failure_timestamps :: "u64 list"

definition Breaker_new :: "u64 \<Rightarrow> breaker_config \<Rightarrow> u64 \<Rightarrow> circuit_breaker" where
  "Breaker_new wt cfg now = \<lparr>workflow_type_id = wt, cb_state = Closed, config = cfg,
     consecutive_failures = 0, window_failures = 0, half_open_successes = 0,
     half_open_requests = 0, opened_at_ms = 0, last_transition_ms = now, times_opened = 0,
     cb_rejected = 0, cb_allowed = 0, failure_timestamps = []\<rparr>"

definition transition_to :: "circuit_breaker \<Rightarrow> circuit_state \<Rightarrow> u64 \<Rightarrow> circuit_breaker" where
  "transition_to b new_state now =
     (if cb_state b = new_state then b
      else let b = (if new_state = Open
                    then b\<lparr>opened_at_ms := now, times_opened := times_opened b + 1\<rparr> else b)
           in b\<lparr>cb_state := new_state, last_transition_ms := now\<rparr>)"

definition prune_old_failures :: "circuit_breaker \<Rightarrow> u64 \<Rightarrow> circuit_breaker" where
  "prune_old_failures b now =
     (let cutoff = saturating_sub now (failure_window_ms (config b))
      in b\<lparr>failure_timestamps := filter (\<lambda>t. t \<ge> cutoff) (failure_timestamps b)\<rparr>)"

definition Breaker_allow_request :: "circuit_breaker \<Rightarrow> u64 \<Rightarrow> u64 \<Rightarrow> circuit_breaker \<times> bool" where
  "Breaker_allow_request b now now' =
     (case cb_state b of
        Closed \<Rightarrow> (b\<lparr>cb_allowed := cb_allowed b + 1\<rparr>, True)
      | Open \<Rightarrow>
          if now \<ge> opened_at_ms b + cooldown_ms (config b)
          then let b = transition_to b HalfOpen now';
                   b = b\<lparr>half_open_successes := 0, half_open_requests := 0\<rparr>;
                   b = b\<lparr>cb_allowed := cb_allowed b + 1\<rparr>
               in (b\<lparr>half_open_requests := half_open_requests b + 1\<rparr>, True)
          else (b\<lparr>cb_rejected := cb_rejected b + 1\<rparr>, False)
      | HalfOpen \<Rightarrow>
          if half_open_requests b < half_open_max_requests (config b)
          then (b\<lparr>half_open_requests := half_open_requests b + 1, cb_allowed := cb_allowed b + 1\<rparr>, True)
          else (b\<lparr>cb_rejected := cb_rejected b + 1\<rparr>, False))"

definition Breaker_record_success :: "circuit_breaker \<Rightarrow> u64 \<Rightarrow> circuit_breaker" where
  "Breaker_record_success b now =
     (case cb_state b of
        Closed \<Rightarrow> b\<lparr>consecutive_failures := 0, window_failures := 0, failure_timestamps := []\<rparr>
      | HalfOpen \<Rightarrow>
          let b = b\<lparr>half_open_successes := half_open_successes b + 1\<rparr>
          in if half_open_successes b \<ge> success_threshold (config b)
             then (transition_to b Closed now)
                    \<lparr>consecutive_failures := 0, window_failures := 0, failure_timestamps := []\<rparr>
             else b
      | Open \<Rightarrow> b)"

definition Breaker_record_failure :: "circuit_breaker \<Rightarrow> u64 \<Rightarrow> u64 \<Rightarrow> circuit_breaker" where
  "Breaker_record_failure b now now' =
     (let b = prune_old_failures (b\<lparr>failure_timestamps := failure_timestamps b @ [now]\<rparr>) now
      in case cb_state b of
           Closed \<Rightarrow>
             let b = b\<lparr>consecutive_failures := consecutive_failures b + 1,
                       window_failures := word_of_nat (length (failure_timestamps b))\<rparr>
             in if consecutive_failures b \<ge> failure_threshold (config b)
                   \<or> window_failures b \<ge> failure_threshold (config b)
                then transition_to b Open now' else b
         | HalfOpen \<Rightarrow> transition_to b Open now'
         | Open \<Rightarrow> b)"

definition Breaker_force_state :: "circuit_breaker \<Rightarrow> circuit_state \<Rightarrow> u64 \<Rightarrow> circuit_breaker" where
  "Breaker_force_state b st now = transition_to b st now"

definition Breaker_reset :: "circuit_breaker \<Rightarrow> u64 \<Rightarrow> circuit_breaker" where
  "Breaker_reset b now = (transition_to b Closed now)
     \<lparr>consecutive_failures := 0, window_failures := 0, half_open_successes := 0,
      half_open_requests := 0, failure_timestamps := []\<rparr>"

section \<open>The registry\<close>

record breaker_registry =
  breakers :: "(u64, circuit_breaker) hash_map"
  reg_default :: breaker_config
  total_requests :: u64
  total_rejected :: u64
  total_opened :: u64

definition Registry_with_default_config :: "breaker_config \<Rightarrow> breaker_registry" where
  "Registry_with_default_config cfg = \<lparr>breakers = [], reg_default = cfg, total_requests = 0,
     total_rejected = 0, total_opened = 0\<rparr>"

definition Registry_new :: breaker_registry where
  "Registry_new = \<lparr>breakers = [], reg_default = default_config, total_requests = 0,
     total_rejected = 0, total_opened = 0\<rparr>"

definition Registry_register :: "breaker_registry \<Rightarrow> u64 \<Rightarrow> breaker_config \<Rightarrow> u64 \<Rightarrow> breaker_registry" where
  "Registry_register r wt cfg now =
     r\<lparr>breakers := hm_insert (breakers r) wt (Breaker_new wt cfg now)\<rparr>"

text \<open>
  The first clock argument is the reading of \<open>WorkflowCircuitBreaker::new\<close>, made only
  when the type has no breaker yet.
\<close>

definition Registry_allow_request ::
    "breaker_registry \<Rightarrow> u64 \<Rightarrow> u64 \<Rightarrow> u64 \<Rightarrow> u64 \<Rightarrow> breaker_registry \<times> bool" where
  "Registry_allow_request r wt now0 now now' =
     (let r = r\<lparr>total_requests := total_requests r + 1\<rparr>;
          b = get_or (breakers r) wt (Breaker_new wt (reg_default r) now0);
          (b', allowed) = Breaker_allow_request b now now';
          r = r\<lparr>breakers := hm_insert (breakers r) wt b'\<rparr>
      in (if \<not> allowed then r\<lparr>total_rejected := total_rejected r + 1\<rparr> else r, allowed))"

definition Registry_record_success :: "breaker_registry \<Rightarrow> u64 \<Rightarrow> u64 \<Rightarrow> breaker_registry" where
  "Registry_record_success r wt now =
     (case map_of (breakers r) wt of
        None \<Rightarrow> r
      | Some b \<Rightarrow>
          let b' = Breaker_record_success b now;
              r = r\<lparr>breakers := hm_insert (breakers r) wt b'\<rparr>
          in if cb_state b \<noteq> Closed \<and> cb_state b' = Closed
             then r\<lparr>total_opened := total_opened r - 1\<rparr> else r)"

definition Registry_record_failure :: "breaker_registry \<Rightarrow> u64 \<Rightarrow> u64 \<Rightarrow> u64 \<Rightarrow> breaker_registry" where
  "Registry_record_failure r wt now now' =
     (case map_of (breakers r) wt of
        None \<Rightarrow> r
      | Some b \<Rightarrow>
          let b' = Breaker_record_failure b now now';
              r = r\<lparr>breakers := hm_insert (breakers r) wt b'\<rparr>
          in if cb_state b \<noteq> Open \<and> cb_state b' = Open
             then r\<lparr>total_opened := total_opened r + 1\<rparr> else r)"

definition Registry_get_state :: "breaker_registry \<Rightarrow> u64 \<Rightarrow> circuit_state" where
  "Registry_get_state r wt = (case map_of (breakers r) wt of None \<Rightarrow> Closed | Some b \<Rightarrow> cb_state b)"

definition Registry_reset :: "breaker_registry \<Rightarrow> u64 \<Rightarrow> u64 \<Rightarrow> breaker_registry" where
  "Registry_reset r wt now = r\<lparr>breakers := modify (breakers r) wt (\<lambda>b. Breaker_reset b now)\<rparr>"

definition Registry_reset_all :: "breaker_registry \<Rightarrow> (u64 \<Rightarrow> u64) \<Rightarrow> breaker_registry" where
  "Registry_reset_all r now =
     r\<lparr>breakers := map (\<lambda>(wt, b). (wt, Breaker_reset b (now wt))) (breakers r)\<rparr>"

definition open_circuit_count :: "breaker_registry \<Rightarrow> nat" where
  "open_circuit_count r = length (filter (\<lambda>(wt, b). cb_state b = Open) (breakers r))"

definition registered_count :: "breaker_registry \<Rightarrow> nat" where
  "registered_count r = length (breakers r)"

definition global_stats :: "breaker_registry \<Rightarrow> u64 \<times> u64 \<times> u64" where
  "global_stats r = (total_requests r, total_rejected r, total_opened r)"

section \<open>The three-state machine the breaker implements\<close>

text \<open>
  Of the thirteen fields only these matter: how many failures in a row a closed breaker has
  seen, when an open one opened, how many probes a half-open one has let through and how
  many of them succeeded.  The failure window is not among them.
\<close>

datatype breaker_spec = SClosed nat | SOpen u64 | SHalfOpen nat nat

datatype breaker_event = Allow u64 u64 | Success u64 | Failure u64 u64 | Reset u64

fun breaker_spec_step :: "breaker_config \<Rightarrow> breaker_event \<Rightarrow> breaker_spec \<Rightarrow> breaker_spec" where
  "breaker_spec_step cfg (Allow now now') (SClosed n) = SClosed n"
| "breaker_spec_step cfg (Allow now now') (SOpen t) =
     (if t + cooldown_ms cfg \<le> now then SHalfOpen 1 0 else SOpen t)"
| "breaker_spec_step cfg (Allow now now') (SHalfOpen p s) =
     (if p < unat (half_open_max_requests cfg) then SHalfOpen (Suc p) s else SHalfOpen p s)"
| "breaker_spec_step cfg (Success now) (SClosed n) = SClosed 0"
| "breaker_spec_step cfg (Success now) (SOpen t) = SOpen t"
| "breaker_spec_step cfg (Success now) (SHalfOpen p s) =
     (if unat (success_threshold cfg) \<le> Suc s then SClosed 0 else SHalfOpen p (Suc s))"
| "breaker_spec_step cfg (Failure now now') (SClosed n) =
     (if unat (failure_threshold cfg) \<le> Suc n then SOpen now' else SClosed (Suc n))"
| "breaker_spec_step cfg (Failure now now') (SOpen t) = SOpen t"
| "breaker_spec_step cfg (Failure now now') (SHalfOpen p s) = SOpen now'"
| "breaker_spec_step cfg (Reset now) st = SClosed 0"

fun breaker_spec_allows :: "breaker_config \<Rightarrow> breaker_event \<Rightarrow> breaker_spec \<Rightarrow> bool option" where
  "breaker_spec_allows cfg (Allow now now') (SClosed n) = Some True"
| "breaker_spec_allows cfg (Allow now now') (SOpen t) = Some (t + cooldown_ms cfg \<le> now)"
| "breaker_spec_allows cfg (Allow now now') (SHalfOpen p s) = Some (p < unat (half_open_max_requests cfg))"
| "breaker_spec_allows cfg _ _ = None"

fun breaker_apply :: "breaker_event \<Rightarrow> circuit_breaker \<Rightarrow> circuit_breaker \<times> bool option" where
  "breaker_apply (Allow now now') b = (case Breaker_allow_request b now now' of (b', r) \<Rightarrow> (b', Some r))"
| "breaker_apply (Success now) b = (Breaker_record_success b now, None)"
| "breaker_apply (Failure now now') b = (Breaker_record_failure b now now', None)"
| "breaker_apply (Reset now) b = (Breaker_reset b now, None)"

fun breaker_run :: "breaker_event list \<Rightarrow> circuit_breaker \<Rightarrow> circuit_breaker \<times> bool option list" where
  "breaker_run [] b = (b, [])"
| "breaker_run (e # es) b =
     (case breaker_apply e b of (b', r) \<Rightarrow> case breaker_run es b' of (b'', rs) \<Rightarrow> (b'', r # rs))"

fun breaker_spec_run :: "breaker_config \<Rightarrow> breaker_event list \<Rightarrow> breaker_spec \<Rightarrow> breaker_spec \<times> bool option list" where
  "breaker_spec_run cfg [] st = (st, [])"
| "breaker_spec_run cfg (e # es) st =
     (case breaker_spec_run cfg es (breaker_spec_step cfg e st) of
        (st', rs) \<Rightarrow> (st', breaker_spec_allows cfg e st # rs))"

definition breaker_abs :: "circuit_breaker \<Rightarrow> breaker_spec" where
  "breaker_abs b = (case cb_state b of
     Closed \<Rightarrow> SClosed (unat (consecutive_failures b))
   | Open \<Rightarrow> SOpen (opened_at_ms b)
   | HalfOpen \<Rightarrow> SHalfOpen (unat (half_open_requests b)) (unat (half_open_successes b)))"

text \<open>
  The invariant that makes the window irrelevant: a closed breaker has at most as many
  timestamps as consecutive failures, and fewer failures than the threshold.
\<close>

definition breaker_inv :: "circuit_breaker \<Rightarrow> bool" where
  "breaker_inv b \<longleftrightarrow> (case cb_state b of
     Closed \<Rightarrow> unat (consecutive_failures b) < max 1 (unat (failure_threshold (config b)))
               \<and> length (failure_timestamps b) \<le> unat (consecutive_failures b)
   | Open \<Rightarrow> True
   | HalfOpen \<Rightarrow> 1 \<le> unat (half_open_requests b)
                 \<and> unat (half_open_requests b) \<le> max 1 (unat (half_open_max_requests (config b)))
                 \<and> unat (half_open_successes b) < max 1 (unat (success_threshold (config b))))"

lemmas breaker_defs = breaker_inv_def breaker_abs_def transition_to_def prune_old_failures_def
  Breaker_allow_request_def Breaker_record_success_def Breaker_record_failure_def
  Breaker_reset_def Let_def

lemma breaker_new_inv [velocity_wf]: "breaker_inv (Breaker_new wt cfg now)"
  and breaker_new_abs [simp]: "breaker_abs (Breaker_new wt cfg now) = SClosed 0"
  and breaker_new_config [simp]: "config (Breaker_new wt cfg now) = cfg"
  by (simp_all add: breaker_defs Breaker_new_def)

lemma unat_inc_below:
  "unat (w :: u32) < max 1 (unat (t :: u32)) \<Longrightarrow> unat (w + 1) = Suc (unat w)"
proof -
  assume "unat w < max 1 (unat t)"
  then have "unat w < 2 ^ 32 - 1"
    using unat_less_exp [of t] by (auto simp: max_def split: if_splits)
  then show ?thesis by (simp add: unat_word_ariths)
qed

section \<open>Refinement\<close>

definition refines_step :: "breaker_event \<Rightarrow> circuit_breaker \<Rightarrow> circuit_breaker \<Rightarrow> bool" where
  "refines_step e b b' \<longleftrightarrow> breaker_inv b' \<and> config b' = config b
     \<and> breaker_abs b' = breaker_spec_step (config b) e (breaker_abs b)"

lemma allow_request_refines:
  assumes "breaker_inv b"
  shows "refines_step (Allow now now') b (fst (Breaker_allow_request b now now'))"
    and "Some (snd (Breaker_allow_request b now now'))
           = breaker_spec_allows (config b) (Allow now now') (breaker_abs b)"
proof -
  have inc: "half_open_requests b < half_open_max_requests (config b)
      \<Longrightarrow> unat (half_open_requests b + 1) = Suc (unat (half_open_requests b))"
    by (rule unat_inc_below [of _ "half_open_max_requests (config b)"]) (simp add: word_less_nat_alt)
  show "refines_step (Allow now now') b (fst (Breaker_allow_request b now now'))"
    using assms inc
    by (cases "cb_state b") (auto simp: refines_step_def breaker_defs word_less_nat_alt max_def)
  show "Some (snd (Breaker_allow_request b now now'))
           = breaker_spec_allows (config b) (Allow now now') (breaker_abs b)"
    by (cases "cb_state b") (auto simp: breaker_defs word_less_nat_alt)
qed

lemma record_success_refines:
  assumes "breaker_inv b"
  shows "refines_step (Success now) b (Breaker_record_success b now)"
proof -
  have inc: "cb_state b = HalfOpen
      \<Longrightarrow> unat (half_open_successes b + 1) = Suc (unat (half_open_successes b))"
    using assms by (intro unat_inc_below [of _ "success_threshold (config b)"]) (simp add: breaker_inv_def)
  show ?thesis
    using assms inc
    by (cases "cb_state b") (auto simp: refines_step_def breaker_defs word_le_nat_alt)
qed

lemma reset_refines: "refines_step (Reset now) b (Breaker_reset b now)"
  by (auto simp: refines_step_def breaker_defs)

lemma record_failure_refines:
  assumes inv: "breaker_inv b"
  shows "refines_step (Failure now now') b (Breaker_record_failure b now now')"
proof (cases "cb_state b")
  case Closed
  define ts where "ts = filter (\<lambda>t. t \<ge> saturating_sub now (failure_window_ms (config b)))
    (failure_timestamps b @ [now])"
  have below: "unat (consecutive_failures b) < max 1 (unat (failure_threshold (config b)))"
    using inv Closed by (simp add: breaker_inv_def)
  have inc: "unat (consecutive_failures b + 1) = Suc (unat (consecutive_failures b))"
    by (rule unat_inc_below [OF below])
  have len: "length ts \<le> Suc (unat (consecutive_failures b))"
  proof -
    have "length ts \<le> length (failure_timestamps b @ [now])"
      unfolding ts_def by (rule length_filter_le)
    then show ?thesis using inv Closed by (simp add: breaker_inv_def)
  qed
  have "length ts < 2 ^ 32"
    using len inc unat_less_exp [of "consecutive_failures b + 1"] by simp
  then have win: "unat (word_of_nat (length ts) :: u32) = length ts"
    by (simp add: unat_of_nat)
  have "failure_threshold (config b) \<le> word_of_nat (length ts)
      \<Longrightarrow> failure_threshold (config b) \<le> consecutive_failures b + 1"
    using len by (simp add: word_le_nat_alt inc win)
  then have "Breaker_record_failure b now now' =
      (let b = b\<lparr>failure_timestamps := ts, consecutive_failures := consecutive_failures b + 1,
                 window_failures := word_of_nat (length ts)\<rparr>
       in if failure_threshold (config b) \<le> consecutive_failures b then transition_to b Open now' else b)"
    using Closed by (auto simp: Breaker_record_failure_def prune_old_failures_def ts_def Let_def)
  then show ?thesis
    using Closed len below by (auto simp: refines_step_def breaker_defs word_le_nat_alt inc)
next
  case Open
  then show ?thesis by (simp add: refines_step_def breaker_defs)
next
  case HalfOpen
  then show ?thesis by (simp add: refines_step_def breaker_defs)
qed

lemma breaker_apply_refines:
  assumes "breaker_inv b"
  shows "refines_step e b (fst (breaker_apply e b))"
    and "snd (breaker_apply e b) = breaker_spec_allows (config b) e (breaker_abs b)"
  using allow_request_refines [OF assms] record_success_refines [OF assms]
    record_failure_refines [OF assms] reset_refines
  by (cases e; simp add: case_prod_beta)+

lemma breaker_run_refines:
  assumes "breaker_inv b"
  shows "breaker_inv (fst (breaker_run es b)) \<and> config (fst (breaker_run es b)) = config b
    \<and> breaker_abs (fst (breaker_run es b)) = fst (breaker_spec_run (config b) es (breaker_abs b))
    \<and> snd (breaker_run es b) = snd (breaker_spec_run (config b) es (breaker_abs b))"
  using assms
proof (induction es arbitrary: b)
  case (Cons e es)
  let ?b = "fst (breaker_apply e b)"
  have step: "breaker_inv ?b" "config ?b = config b"
    "breaker_abs ?b = breaker_spec_step (config b) e (breaker_abs b)"
    using breaker_apply_refines(1) [OF Cons.prems, of e] by (simp_all add: refines_step_def)
  show ?case
    using Cons.IH [OF step(1)] breaker_apply_refines(2) [OF Cons.prems, of e]
    by (simp add: case_prod_beta step)
qed simp

section \<open>Cool-down, probing and recovery\<close>

fun is_reset :: "breaker_event \<Rightarrow> bool" where
  "is_reset (Reset _) = True"
| "is_reset _ = False"

fun asked_before :: "nat \<Rightarrow> breaker_event \<Rightarrow> bool" where
  "asked_before d (Allow now _) \<longleftrightarrow> unat now < d"
| "asked_before d _ = True"

lemma spec_open_rejects:
  assumes "unat t + unat (cooldown_ms cfg) < 2 ^ 64"
    and "\<forall>e\<in>set es. \<not> is_reset e \<and> asked_before (unat t + unat (cooldown_ms cfg)) e"
  shows "breaker_spec_run cfg es (SOpen t) = (SOpen t, map (\<lambda>e. breaker_spec_allows cfg e (SOpen t)) es)
    \<and> (\<forall>e\<in>set es. breaker_spec_allows cfg e (SOpen t) \<noteq> Some True)"
  using assms(2)
proof (induction es)
  case (Cons e es)
  have "breaker_spec_step cfg e (SOpen t) = SOpen t \<and> breaker_spec_allows cfg e (SOpen t) \<noteq> Some True"
    using Cons.prems assms(1) by (cases e) (auto simp: word_le_nat_alt unat_word_ariths)
  then show ?case using Cons by simp
qed simp

lemma spec_half_open_wedged:
  assumes "unat (half_open_max_requests cfg) \<le> p" and "\<forall>e\<in>set es. \<exists>now now'. e = Allow now now'"
  shows "breaker_spec_run cfg es (SHalfOpen p s) = (SHalfOpen p s, replicate (length es) (Some False))"
  using assms(2)
proof (induction es)
  case (Cons e es)
  then obtain now now' where "e = Allow now now'" by auto
  then show ?case using Cons assms(1) by auto
qed simp

lemma spec_failures:
  "fst (breaker_spec_run cfg (map (\<lambda>(now, now'). Failure now now') ts) (SOpen t)) = SOpen t"
  by (induction ts) (auto simp: case_prod_beta)

lemma spec_failures_closed:
  assumes "n < max 1 (unat (failure_threshold cfg))"
  shows "(\<exists>t. fst (breaker_spec_run cfg (map (\<lambda>(now, now'). Failure now now') ts) (SClosed n)) = SOpen t)
    \<longleftrightarrow> ts \<noteq> [] \<and> unat (failure_threshold cfg) \<le> n + length ts"
  using assms
proof (induction ts arbitrary: n)
  case (Cons x ts)
  show ?case
  proof (cases "unat (failure_threshold cfg) \<le> Suc n")
    case True
    then show ?thesis by (simp add: case_prod_beta spec_failures [unfolded case_prod_beta])
  next
    case False
    then have "Suc n < max 1 (unat (failure_threshold cfg))" by simp
    from Cons.IH [OF this] False show ?thesis by (auto simp: case_prod_beta)
  qed
qed simp

lemma breaker_abs_Open: "(\<exists>t. breaker_abs b = SOpen t) \<longleftrightarrow> cb_state b = Open"
  by (auto simp: breaker_abs_def split: circuit_state.splits)

lemma breaker_run_invariant:
  "breaker_inv (fst (breaker_run es (Breaker_new wt cfg now)))"
  "config (fst (breaker_run es (Breaker_new wt cfg now))) = cfg"
  using breaker_run_refines [OF breaker_new_inv [of wt cfg now], of es] by (simp_all add: Breaker_new_def)

text \<open>
  C25.  Whatever sequence of requests, successes, failures and resets a new breaker sees, at
  whatever clock readings, it answers every request as the three-state machine does and ends
  in the state that machine ends in: counting failures in a row when closed, rejecting until
  the cool-down has passed when open, letting a bounded number of probes through when half
  open.
\<close>

theorem breaker_refines_three_state_machine:
  "case breaker_run es (Breaker_new wt cfg now) of (b, answers) \<Rightarrow>
     breaker_spec_run cfg es (SClosed 0) = (breaker_abs b, answers)"
proof -
  have "config (Breaker_new wt cfg now) = cfg" by (simp add: Breaker_new_def)
  then show ?thesis
    using breaker_run_refines [OF breaker_new_inv [of wt cfg now], of es]
    by (simp add: case_prod_beta prod_eq_iff)
qed

text \<open>
  An open breaker lets nothing through before its cool-down is over: whatever requests
  asked before then, successes and failures arrive, in any order, every request is rejected
  and the breaker is still open.
\<close>

theorem open_breaker_rejects_until_cooldown:
  assumes "breaker_inv b" and "cb_state b = Open"
    and "unat (opened_at_ms b) + unat (cooldown_ms (config b)) < 2 ^ 64"
    and "\<forall>e\<in>set es. \<not> is_reset e
           \<and> asked_before (unat (opened_at_ms b) + unat (cooldown_ms (config b))) e"
  shows "cb_state (fst (breaker_run es b)) = Open \<and> Some True \<notin> set (snd (breaker_run es b))"
proof -
  have abs: "breaker_abs b = SOpen (opened_at_ms b)"
    using assms(2) by (simp add: breaker_abs_def)
  show ?thesis
    using breaker_run_refines [OF assms(1), of es] spec_open_rejects [OF assms(3,4)]
      breaker_abs_Open [of "fst (breaker_run es b)"]
    by (auto simp: abs)
qed

theorem open_breaker_rejects_until_cooldown_witness:
  "let b = fst (breaker_run [Failure 1 1, Failure 2 2, Failure 3 5] (Breaker_new 9 aggressive 0));
       es = [Allow 6 7, Success 8, Allow 10004 10005, Failure 9 9]
   in cb_state (fst (breaker_run es b)) = Open \<and> Some True \<notin> set (snd (breaker_run es b))"
proof -
  let ?b = "fst (breaker_run [Failure 1 1, Failure 2 2, Failure 3 5] (Breaker_new 9 aggressive 0))"
  have st: "cb_state ?b = Open" and op: "opened_at_ms ?b = 5" and cd: "cooldown_ms (config ?b) = 10000"
    by code_simp+
  show ?thesis
    using open_breaker_rejects_until_cooldown [OF breaker_run_invariant(1) st,
        of "[Allow 6 7, Success 8, Allow 10004 10005, Failure 9 9]"]
    by (simp add: op cd Let_def del: breaker_run.simps)
qed

text \<open>
  A closed breaker opens exactly when the failures in a row reach the threshold, however
  far apart in time they are: the failure window, which is meant to make old failures not
  count, never changes the outcome.
\<close>

theorem breaker_trips_regardless_of_window:
  fixes es :: "breaker_event list" and ts :: "(u64 \<times> u64) list"
    and wt now :: u64 and cfg :: breaker_config
  defines "b \<equiv> fst (breaker_run es (Breaker_new wt cfg now))"
  assumes "cb_state b = Closed"
  shows "cb_state (fst (breaker_run (map (\<lambda>(now, now'). Failure now now') ts) b)) = Open
    \<longleftrightarrow> ts \<noteq> [] \<and> unat (failure_threshold cfg) \<le> unat (consecutive_failures b) + length ts"
proof -
  have inv: "breaker_inv b" and cfg: "config b = cfg"
    by (simp_all add: b_def breaker_run_invariant)
  have abs: "breaker_abs b = SClosed (unat (consecutive_failures b))"
    using assms(2) by (simp add: breaker_abs_def)
  have "unat (consecutive_failures b) < max 1 (unat (failure_threshold cfg))"
    using inv assms(2) cfg by (simp add: breaker_inv_def)
  from spec_failures_closed [OF this, of ts] show ?thesis
    using breaker_run_refines [OF inv, of "map (\<lambda>(now, now'). Failure now now') ts"]
    by (simp add: abs cfg flip: breaker_abs_Open)
qed

theorem breaker_trips_regardless_of_window_witness:
  "let b = fst (breaker_run [Failure 1 1, Success 2, Failure 3 3] (Breaker_new 9 aggressive 0))
   in cb_state (fst (breaker_run [Failure 500000 500001, Failure 900000 900001] b)) = Open"
proof -
  let ?b = "fst (breaker_run [Failure 1 1, Success 2, Failure 3 3] (Breaker_new 9 aggressive 0))"
  have "cb_state ?b = Closed" and "consecutive_failures ?b = 1"
    by code_simp+
  then show ?thesis
    using breaker_trips_regardless_of_window
      [of "[Failure 1 1, Success 2, Failure 3 3]" 9 aggressive 0 "[(500000, 500001), (900000, 900001)]"]
    by (simp add: aggressive_def del: breaker_run.simps)
qed

text \<open>
  A half-open breaker that has let its last probe through rejects every later request
  for as long as no outcome is reported, however much time passes: there is no way back to
  open or to closed by time alone, so probes whose outcome is never recorded leave the
  workflow type rejected for good.
\<close>

theorem half_open_breaker_wedges:
  assumes "breaker_inv b" and "cb_state b = HalfOpen"
    and "half_open_max_requests (config b) \<le> half_open_requests b"
  shows "let rq = map (\<lambda>(now, now'). Allow now now') ts
    in cb_state (fst (breaker_run rq b)) = HalfOpen
       \<and> snd (breaker_run rq b) = replicate (length ts) (Some False)"
proof -
  define rq where "rq = map (\<lambda>(now, now'). Allow now now') ts"
  have abs: "breaker_abs b = SHalfOpen (unat (half_open_requests b)) (unat (half_open_successes b))"
    using assms(2) by (simp add: breaker_abs_def)
  have "breaker_spec_run (config b) rq (breaker_abs b) = (breaker_abs b, replicate (length rq) (Some False))"
    unfolding abs by (rule spec_half_open_wedged) (use assms(3) in \<open>auto simp: word_le_nat_alt rq_def\<close>)
  then have run: "breaker_abs (fst (breaker_run rq b)) = breaker_abs b
      \<and> snd (breaker_run rq b) = replicate (length ts) (Some False)"
    using breaker_run_refines [OF assms(1), of rq] by (simp add: rq_def)
  then have "cb_state (fst (breaker_run rq b)) = HalfOpen"
    unfolding abs by (auto simp: breaker_abs_def split: circuit_state.splits)
  then show ?thesis using run by (simp add: rq_def)
qed

theorem half_open_breaker_wedges_witness:
  "let b = fst (breaker_run [Failure 1 1, Failure 2 2, Failure 3 5, Allow 20000 20000, Allow 20001 20001]
                 (Breaker_new 9 aggressive 0))
   in snd (breaker_run [Allow 30000 30000, Allow 900000000 900000000] b) = [Some False, Some False]"
proof -
  let ?es = "[Failure 1 1, Failure 2 2, Failure 3 5, Allow 20000 20000, Allow 20001 20001]"
  let ?b = "fst (breaker_run ?es (Breaker_new 9 aggressive 0))"
  have st: "cb_state ?b = HalfOpen" and rq: "half_open_requests ?b = 2"
    by code_simp+
  have cfg: "config ?b = aggressive" by (rule breaker_run_invariant)
  have "half_open_max_requests (config ?b) \<le> half_open_requests ?b"
    unfolding cfg rq by (simp add: aggressive_def)
  from half_open_breaker_wedges [OF breaker_run_invariant(1) st this,
      of "[(30000, 30000), (900000000, 900000000)]"]
  show ?thesis by (simp add: Let_def numeral_2_eq_2 del: breaker_run.simps)
qed

section \<open>The registry keeps the types apart\<close>

datatype registry_op = Register breaker_config u64 | Report u64 breaker_event

fun Registry_apply :: "u64 \<times> registry_op \<Rightarrow> breaker_registry \<Rightarrow> breaker_registry \<times> bool option" where
  "Registry_apply (wt, Register cfg now) r = (Registry_register r wt cfg now, None)"
| "Registry_apply (wt, Report now0 (Allow now now')) r =
     (case Registry_allow_request r wt now0 now now' of (r', a) \<Rightarrow> (r', Some a))"
| "Registry_apply (wt, Report now0 (Success now)) r = (Registry_record_success r wt now, None)"
| "Registry_apply (wt, Report now0 (Failure now now')) r = (Registry_record_failure r wt now now', None)"
| "Registry_apply (wt, Report now0 (Reset now)) r = (Registry_reset r wt now, None)"

fun Registry_run :: "(u64 \<times> registry_op) list \<Rightarrow> breaker_registry \<Rightarrow> breaker_registry \<times> bool option list" where
  "Registry_run [] r = (r, [])"
| "Registry_run (p # ps) r =
     (case Registry_apply p r of (r', a) \<Rightarrow> case Registry_run ps r' of (r'', as) \<Rightarrow> (r'', a # as))"

type_synonym entry_spec = "(breaker_config \<times> breaker_spec) option"

fun entry_step :: "breaker_config \<Rightarrow> registry_op \<Rightarrow> entry_spec \<Rightarrow> entry_spec" where
  "entry_step dflt (Register cfg now) _ = Some (cfg, SClosed 0)"
| "entry_step dflt (Report now0 e) (Some (cfg, st)) = Some (cfg, breaker_spec_step cfg e st)"
| "entry_step dflt (Report now0 (Allow now now')) None = Some (dflt, SClosed 0)"
| "entry_step dflt (Report now0 e) None = None"

definition entry_abs :: "breaker_registry \<Rightarrow> u64 \<Rightarrow> entry_spec" where
  "entry_abs r wt = map_option (\<lambda>b. (config b, breaker_abs b)) (map_of (breakers r) wt)"

definition registry_inv :: "breaker_registry \<Rightarrow> bool" where
  "registry_inv r \<longleftrightarrow> (\<forall>wt b. map_of (breakers r) wt = Some b \<longrightarrow> breaker_inv b)"

lemma registry_put:
  assumes "registry_inv r" and "breaker_inv b" and "breakers r' = hm_insert (breakers r) wt b"
  shows "registry_inv r'" and "entry_abs r' = (entry_abs r)(wt := Some (config b, breaker_abs b))"
  using assms by (auto simp: registry_inv_def entry_abs_def)

lemma registry_modify:
  assumes "registry_inv r" and "breakers r' = modify (breakers r) wt (\<lambda>b. fst (breaker_apply e b))"
  shows "registry_inv r'"
    and "entry_abs r' = (entry_abs r)(wt := map_option (\<lambda>(cfg, st). (cfg, breaker_spec_step cfg e st)) (entry_abs r wt))"
proof -
  have "registry_inv r' \<and> entry_abs r' = (entry_abs r)
      (wt := map_option (\<lambda>(cfg, st). (cfg, breaker_spec_step cfg e st)) (entry_abs r wt))"
  proof (cases "map_of (breakers r) wt")
    case None
    then have "breakers r' = breakers r" using assms(2) by (simp add: modify_def)
    then have "registry_inv r'" and "entry_abs r' = entry_abs r"
      using assms(1) by (simp_all add: registry_inv_def entry_abs_def fun_eq_iff)
    moreover have "entry_abs r wt = None" using None by (simp add: entry_abs_def)
    ultimately show ?thesis by (simp add: fun_upd_idem)
  next
    case (Some b)
    then have b: "breaker_inv b" using assms(1) by (simp add: registry_inv_def)
    have "entry_abs r wt = Some (config b, breaker_abs b)" using Some by (simp add: entry_abs_def)
    then show ?thesis
      using registry_put [OF assms(1), of "fst (breaker_apply e b)" r' wt]
        breaker_apply_refines(1) [OF b, of e] assms(2) Some
      by (simp add: modify_def refines_step_def)
  qed
  then show "registry_inv r'"
    and "entry_abs r' = (entry_abs r)(wt := map_option (\<lambda>(cfg, st). (cfg, breaker_spec_step cfg e st)) (entry_abs r wt))"
    by simp_all
qed

lemma registry_report_modifies:
  "breakers (Registry_record_success r wt now) = modify (breakers r) wt (\<lambda>b. fst (breaker_apply (Success now) b))"
  "breakers (Registry_record_failure r wt now now') = modify (breakers r) wt (\<lambda>b. fst (breaker_apply (Failure now now') b))"
  "breakers (Registry_reset r wt now) = modify (breakers r) wt (\<lambda>b. fst (breaker_apply (Reset now) b))"
  "reg_default (Registry_record_success r wt now) = reg_default r"
  "reg_default (Registry_record_failure r wt now now') = reg_default r"
  "reg_default (Registry_reset r wt now) = reg_default r"
  by (simp_all add: Registry_record_success_def Registry_record_failure_def Registry_reset_def
      modify_def Let_def split: option.split)

lemma registry_allow_modifies:
  "breakers (fst (Registry_allow_request r wt now0 now now')) = modify
     (or_insert (breakers r) wt (Breaker_new wt (reg_default r) now0)) wt
     (\<lambda>b. fst (breaker_apply (Allow now now') b))"
  "reg_default (fst (Registry_allow_request r wt now0 now now')) = reg_default r"
  by (auto simp: Registry_allow_request_def modify_def or_insert_def get_or_def Let_def case_prod_beta
      split: option.split)

lemma registry_or_insert:
  assumes "registry_inv r" and "breakers r' = or_insert (breakers r) wt (Breaker_new wt (reg_default r) now0)"
  shows "registry_inv r'" and "entry_abs r' = (entry_abs r)
    (wt := Some (case entry_abs r wt of None \<Rightarrow> (reg_default r, SClosed 0) | Some p \<Rightarrow> p))"
  using assms breaker_new_inv
  by (auto simp: registry_inv_def entry_abs_def map_of_or_insert get_or_def fun_eq_iff split: option.splits)

lemma entry_step_report:
  "\<not> (\<exists>now now'. e = Allow now now') \<Longrightarrow>
     entry_step d (Report now0 e) x = map_option (\<lambda>(cfg, st). (cfg, breaker_spec_step cfg e st)) x"
  by (cases e; cases x) auto

lemma registry_apply_refines:
  assumes inv: "registry_inv r"
  shows "registry_inv (fst (Registry_apply (wt, p) r))
    \<and> entry_abs (fst (Registry_apply (wt, p) r))
        = (entry_abs r)(wt := entry_step (reg_default r) p (entry_abs r wt))
    \<and> reg_default (fst (Registry_apply (wt, p) r)) = reg_default r"
proof (cases p)
  case (Register cfg now)
  then show ?thesis
    using registry_put [OF inv breaker_new_inv, of "Registry_register r wt cfg now" wt wt cfg now]
    by (simp add: Registry_register_def)
next
  case (Report now0 e)
  show ?thesis
  proof (cases e)
    case (Allow now now')
    define r1 where "r1 = r\<lparr>breakers := or_insert (breakers r) wt (Breaker_new wt (reg_default r) now0)\<rparr>"
    have r1: "registry_inv r1" and abs: "entry_abs r1 = (entry_abs r)
        (wt := Some (case entry_abs r wt of None \<Rightarrow> (reg_default r, SClosed 0) | Some p \<Rightarrow> p))"
      using registry_or_insert [OF inv, of r1 wt now0] by (simp_all add: r1_def)
    have "breakers (fst (Registry_allow_request r wt now0 now now'))
        = modify (breakers r1) wt (\<lambda>b. fst (breaker_apply (Allow now now') b))"
      by (simp add: registry_allow_modifies r1_def)
    from registry_modify [OF r1 this] show ?thesis
      by (cases "entry_abs r wt")
        (auto simp: Report Allow abs registry_allow_modifies case_prod_beta)
  qed (use registry_modify [OF inv registry_report_modifies(1)] registry_modify [OF inv registry_report_modifies(2)]
        registry_modify [OF inv registry_report_modifies(3)]
      in \<open>simp_all add: Report registry_report_modifies entry_step_report\<close>)
qed

lemma registry_run_refines:
  assumes "registry_inv r"
  shows "entry_abs (fst (Registry_run ps r)) wt
    = fold (entry_step (reg_default r)) (map snd (filter (\<lambda>(w, _). w = wt) ps)) (entry_abs r wt)"
  using assms
proof (induction ps arbitrary: r)
  case (Cons p ps)
  obtain w q where p: "p = (w, q)" by fastforce
  show ?case
    using Cons.IH [of "fst (Registry_apply p r)"] registry_apply_refines [OF Cons.prems, of w q]
    by (auto simp: p case_prod_beta)
qed simp

lemma registry_counts:
  "total_rejected (fst (Registry_run ps r))
     = total_rejected r + word_of_nat (count_list (snd (Registry_run ps r)) (Some False))"
proof (induction ps arbitrary: r)
  case (Cons p ps)
  have "total_rejected (fst (Registry_apply p r))
      = total_rejected r + (if snd (Registry_apply p r) = Some False then 1 else 0)"
    by (cases p; cases "(p, r)" rule: Registry_apply.cases)
      (auto simp: Registry_register_def Registry_allow_request_def Registry_record_success_def
        Registry_record_failure_def Registry_reset_def Let_def case_prod_beta split: option.splits)
  then show ?case by (simp add: case_prod_beta Cons.IH)
qed simp

text \<open>
  The registry keeps workflow types apart: after any calls for any types, the breaker of
  a type is the one that the calls for that type alone lead to, created with the default
  configuration by its first request (reports before that are dropped) or with its own
  configuration by a registration; and the registry's count of rejections is the number of
  requests it answered with a rejection, modulo the counter's range.
\<close>

theorem registry_isolates_workflow_types:
  "case Registry_run ps (Registry_with_default_config cfg) of (r, answers) \<Rightarrow>
     entry_abs r wt = fold (entry_step cfg) (map snd (filter (\<lambda>(w, _). w = wt) ps)) None
     \<and> total_rejected r = word_of_nat (count_list answers (Some False))"
proof -
  have "registry_inv (Registry_with_default_config cfg)"
    and "entry_abs (Registry_with_default_config cfg) wt = None"
    by (simp_all add: registry_inv_def Registry_with_default_config_def entry_abs_def)
  then show ?thesis
    using registry_run_refines [of "Registry_with_default_config cfg" ps wt]
      registry_counts [of ps "Registry_with_default_config cfg"]
    by (simp add: case_prod_beta Registry_with_default_config_def)
qed

lemma reset_all_closes:
  "hm_wf (breakers r) \<Longrightarrow> open_circuit_count (Registry_reset_all r now) = 0"
  by (auto simp: open_circuit_count_def Registry_reset_all_def Breaker_reset_def transition_to_def
      Let_def filter_empty_conv split: if_splits)

text \<open>
  \<open>total_opened\<close> is not the number of open circuits: a reset closes a circuit without
  counting it down, and a probe that fails counts the same circuit up a second time.
\<close>

lemma total_opened_drifts:
  "let r = fst (Registry_run
      ((1, Register aggressive 0) # replicate 3 (1, Report 0 (Failure 1 1)) @ [(1, Report 0 (Reset 9))])
      Registry_new)
   in total_opened r = 1 \<and> open_circuit_count r = 0"
  by code_simp

end
