(* ===== verification/Dependency_Graph.thy ===== *)
theory Dependency_Graph
  imports Hash_Map
begin

text \<open>
  The data and the edge operations of \<open>workflow_dependency_graph.rs\<close>: the graph with its two
  adjacency maps and its counters, adding an edge, removing a workflow, the direct queries
  and the counts.  The traversal is in \<open>Graph_Traversal\<close>, the cycle search and the
  topological sort in \<open>Graph_Order\<close>.  A \<open>HashSet\<close> is a set where only membership is
  asked and a list without duplicates where it is iterated.
\<close>

datatype dependency_type = ParentChild | SignalSender | UpdateTarget | CancelRequest
  | AwaitingCompletion | ContinuedAsNew | SagaStep | SagaCompensation

definition DependencyType_as_str :: "dependency_type \<Rightarrow> string" where
  "DependencyType_as_str t = (case t of
     ParentChild \<Rightarrow> ''parent_child'' | SignalSender \<Rightarrow> ''signal'' | UpdateTarget \<Rightarrow> ''update''
   | CancelRequest \<Rightarrow> ''cancel_request'' | AwaitingCompletion \<Rightarrow> ''awaiting''
   | ContinuedAsNew \<Rightarrow> ''continued_as_new'' | SagaStep \<Rightarrow> ''saga_step''
   | SagaCompensation \<Rightarrow> ''saga_compensation'')"

record dependency_edge =
  from_workflow_key :: u64
  to_workflow_key :: u64
  dep_type :: dependency_type
  created_at_ms :: u64
  edge_metadata :: "string option"

datatype dependency_direction = Downstream | Upstream | Both

record dependency_graph =
  outgoing :: "(u64, dependency_edge list) hash_map"
  incoming :: "(u64, dependency_edge list) hash_map"
  edges_added :: u64
  edges_removed :: u64
  queries_executed :: u64

definition Graph_new :: dependency_graph where
  "Graph_new = \<lparr>outgoing = [], incoming = [], edges_added = 0, edges_removed = 0, queries_executed = 0\<rparr>"

definition push_edge :: "(u64, dependency_edge list) hash_map \<Rightarrow> u64 \<Rightarrow> dependency_edge \<Rightarrow> (u64, dependency_edge list) hash_map" where
  "push_edge m k e = hm_insert m k (get_or m k [] @ [e])"

definition add_dependency ::
    "dependency_graph \<Rightarrow> u64 \<Rightarrow> u64 \<Rightarrow> dependency_type \<Rightarrow> string option \<Rightarrow> u64 \<Rightarrow> dependency_graph" where
  "add_dependency g from to typ meta now =
     (let edge = \<lparr>from_workflow_key = from, to_workflow_key = to, dep_type = typ,
                  created_at_ms = now, edge_metadata = meta\<rparr>
      in g\<lparr>outgoing := push_edge (outgoing g) from edge,
           incoming := push_edge (incoming g) to edge,
           edges_added := edges_added g + 1\<rparr>)"

definition remove_workflow :: "dependency_graph \<Rightarrow> u64 \<Rightarrow> dependency_graph \<times> nat" where
  "remove_workflow g k =
     (let removed_out = length (get_or (outgoing g) k []);
          removed_in = length (get_or (incoming g) k []);
          out = map_values (filter (\<lambda>e. to_workflow_key e \<noteq> k)) (hm_remove (outgoing g) k);
          inc = map_values (filter (\<lambda>e. from_workflow_key e \<noteq> k)) (hm_remove (incoming g) k);
          total = removed_out + removed_in
      in (g\<lparr>outgoing := out, incoming := inc, edges_removed := edges_removed g + word_of_nat total\<rparr>, total))"

definition get_dependencies :: "dependency_graph \<Rightarrow> u64 \<Rightarrow> dependency_graph \<times> dependency_edge list" where
  "get_dependencies g k = (g\<lparr>queries_executed := queries_executed g + 1\<rparr>, get_or (outgoing g) k [])"

definition get_dependents :: "dependency_graph \<Rightarrow> u64 \<Rightarrow> dependency_graph \<times> dependency_edge list" where
  "get_dependents g k = (g\<lparr>queries_executed := queries_executed g + 1\<rparr>, get_or (incoming g) k [])"

definition get_dependencies_by_type ::
    "dependency_graph \<Rightarrow> u64 \<Rightarrow> dependency_type \<Rightarrow> dependency_graph \<times> dependency_edge list" where
  "get_dependencies_by_type g k t =
     (case get_dependencies g k of (g, es) \<Rightarrow> (g, filter (\<lambda>e. dep_type e = t) es))"

definition edge_count :: "dependency_graph \<Rightarrow> nat" where
  "edge_count g = sum_values length (outgoing g)"

definition node_count :: "dependency_graph \<Rightarrow> nat" where
  "node_count g = card (set (map fst (outgoing g)) \<union> set (map fst (incoming g)))"

definition Graph_stats :: "dependency_graph \<Rightarrow> u64 \<times> u64 \<times> u64" where
  "Graph_stats g = (edges_added g, edges_removed g, queries_executed g)"

section \<open>The edges of a graph\<close>

abbreviation out_edges :: "dependency_graph \<Rightarrow> u64 \<Rightarrow> dependency_edge list" where
  "out_edges g k \<equiv> get_or (outgoing g) k []"

abbreviation in_edges :: "dependency_graph \<Rightarrow> u64 \<Rightarrow> dependency_edge list" where
  "in_edges g k \<equiv> get_or (incoming g) k []"

definition depends :: "dependency_graph \<Rightarrow> (u64 \<times> u64) set" where
  "depends g = {(a, b). \<exists>e\<in>set (out_edges g a). to_workflow_key e = b}"

text \<open>
  The two adjacency maps mirror each other: an edge is filed under its source in one exactly
  as often as under its target in the other.
\<close>

definition graph_wf :: "dependency_graph \<Rightarrow> bool" where
  "graph_wf g \<longleftrightarrow> hm_wf (outgoing g) \<and> hm_wf (incoming g)
     \<and> (\<forall>k. \<forall>e\<in>set (out_edges g k). from_workflow_key e = k)
     \<and> (\<forall>k. \<forall>e\<in>set (in_edges g k). to_workflow_key e = k)
     \<and> (\<forall>a b. filter (\<lambda>e. to_workflow_key e = b) (out_edges g a)
              = filter (\<lambda>e. from_workflow_key e = a) (in_edges g b))"

lemma graph_wf_new [velocity_wf]: "graph_wf Graph_new"
  by (simp add: graph_wf_def Graph_new_def)

lemma graph_wf_add [velocity_wf]: "graph_wf g \<Longrightarrow> graph_wf (add_dependency g a b t m now)"
  by (auto simp: graph_wf_def add_dependency_def push_edge_def Let_def)

lemma remove_workflow_edges:
  "out_edges (fst (remove_workflow g k)) a
     = (if a = k then [] else filter (\<lambda>e. to_workflow_key e \<noteq> k) (out_edges g a))"
  "in_edges (fst (remove_workflow g k)) b
     = (if b = k then [] else filter (\<lambda>e. from_workflow_key e \<noteq> k) (in_edges g b))"
  by (simp_all add: remove_workflow_def Let_def get_or_map_values)

lemma filter_filter_swap: "filter P (filter Q xs) = filter Q (filter P xs)"
  by (simp add: conj_commute)

lemma graph_wf_remove [velocity_wf]:
  assumes "graph_wf g"
  shows "graph_wf (fst (remove_workflow g k))"
proof -
  have mirror: "filter (\<lambda>e. to_workflow_key e = b) (out_edges g a)
      = filter (\<lambda>e. from_workflow_key e = a) (in_edges g b)" for a b
    using assms by (simp add: graph_wf_def)
  have "filter (\<lambda>e. to_workflow_key e = b) (filter (\<lambda>e. to_workflow_key e \<noteq> k) (out_edges g a))
      = (if b = k then [] else filter (\<lambda>e. to_workflow_key e = b) (out_edges g a))" for a b
    by (auto simp: filter_empty_conv intro: filter_cong)
  moreover have "filter (\<lambda>e. from_workflow_key e = a) (filter (\<lambda>e. from_workflow_key e \<noteq> k) (in_edges g b))
      = (if a = k then [] else filter (\<lambda>e. from_workflow_key e = a) (in_edges g b))" for a b
    by (auto simp: filter_empty_conv intro: filter_cong)
  ultimately have "\<forall>a b. filter (\<lambda>e. to_workflow_key e = b) (out_edges (fst (remove_workflow g k)) a)
      = filter (\<lambda>e. from_workflow_key e = a) (in_edges (fst (remove_workflow g k)) b)"
    using mirror by (auto simp: remove_workflow_edges)
  moreover have "hm_wf (outgoing (fst (remove_workflow g k)))" "hm_wf (incoming (fst (remove_workflow g k)))"
    using assms by (simp_all add: remove_workflow_def Let_def graph_wf_def distinct_delete)
  ultimately show ?thesis
    using assms by (auto simp: graph_wf_def remove_workflow_edges)
qed

lemma graph_wf_queries [simp]: "graph_wf (g\<lparr>queries_executed := q\<rparr>) = graph_wf g"
  by (simp add: graph_wf_def)

lemma depends_incoming:
  assumes "graph_wf g"
  shows "depends g = {(a, b). \<exists>e\<in>set (in_edges g b). from_workflow_key e = a}"
proof -
  have "(\<exists>e\<in>set (out_edges g a). to_workflow_key e = b)
      \<longleftrightarrow> filter (\<lambda>e. to_workflow_key e = b) (out_edges g a) \<noteq> []" for a b
    by (auto simp: filter_empty_conv)
  moreover have "(\<exists>e\<in>set (in_edges g b). from_workflow_key e = a)
      \<longleftrightarrow> filter (\<lambda>e. from_workflow_key e = a) (in_edges g b) \<noteq> []" for a b
    by (auto simp: filter_empty_conv)
  ultimately show ?thesis
    using assms by (auto simp: depends_def graph_wf_def)
qed

lemma depends_add: "depends (add_dependency g a b t m now) = insert (a, b) (depends g)"
  by (auto simp: depends_def add_dependency_def push_edge_def Let_def split: if_splits)

lemma depends_remove:
  "depends (fst (remove_workflow g k)) = {(a, b) \<in> depends g. a \<noteq> k \<and> b \<noteq> k}"
  by (auto simp: depends_def remove_workflow_edges split: if_splits)

text \<open>The graphs that the two updating operations and the queries reach.\<close>

inductive graph_reach :: "dependency_graph \<Rightarrow> bool" where
  new: "graph_reach Graph_new"
| add: "graph_reach g \<Longrightarrow> graph_reach (add_dependency g a b t m now)"
| remove: "graph_reach g \<Longrightarrow> graph_reach (fst (remove_workflow g k))"
| query_out: "graph_reach g \<Longrightarrow> graph_reach (fst (get_dependencies g k))"
| query_in: "graph_reach g \<Longrightarrow> graph_reach (fst (get_dependents g k))"

lemma graph_reach_wf: "graph_reach g \<Longrightarrow> graph_wf g"
  by (induction rule: graph_reach.induct)
    (auto intro: velocity_wf simp: get_dependencies_def get_dependents_def)

section \<open>Properties\<close>

text \<open>
  C28.  In every graph the operations reach, the two adjacency maps describe the same edges:
  the edges from \<open>a\<close> to \<open>b\<close> are filed under \<open>a\<close> as outgoing exactly as they are filed under \<open>b\<close> as
  incoming, in the same order and number; and after a workflow is removed no edge in either
  map mentions it while all others are kept.
\<close>

theorem adjacency_maps_mirror:
  assumes "graph_reach g"
  shows "graph_wf g \<and> filter (\<lambda>e. to_workflow_key e = b) (out_edges g a)
           = filter (\<lambda>e. from_workflow_key e = a) (in_edges g b)
    \<and> graph_wf (fst (remove_workflow g k))
    \<and> depends (fst (remove_workflow g k)) = {(a, b) \<in> depends g. a \<noteq> k \<and> b \<noteq> k}"
  using graph_reach_wf [OF assms] graph_wf_remove [OF graph_reach_wf [OF assms]]
  by (simp add: depends_remove graph_wf_def)

theorem adjacency_maps_mirror_witness:
  "let g = add_dependency (add_dependency Graph_new 7 8 ParentChild None 0) 9 7 SagaStep None 0
   in depends (fst (remove_workflow g 9)) = {(7, 8)} \<and> graph_wf (fst (remove_workflow g 9))"
proof -
  let ?g = "add_dependency (add_dependency Graph_new 7 8 ParentChild None 0) 9 7 SagaStep None 0"
  have "graph_reach ?g" by (intro graph_reach.intros)
  moreover have "depends ?g = {(7, 8), (9, 7)}"
    by (auto simp: depends_add) (auto simp: depends_def Graph_new_def)
  ultimately show ?thesis using adjacency_maps_mirror [of ?g 8 7 9] by (auto simp: Let_def)
qed

end
