(* ===== verification/Graph_Traversal.thy ===== *)
theory Graph_Traversal
  imports Dependency_Graph
begin

text \<open>
  The breadth-first traversal of \<open>workflow_dependency_graph.rs\<close> and the impact analysis on
  top of it.  The loop over the work queue ends because every workflow is queued at most
  once; the traversal visits exactly what lies within the depth bound.
\<close>

record traversal =
  tr_visited :: "u64 list"
  tr_edges :: "dependency_edge list"
  tr_queue :: "(u64 \<times> nat) list"
  tr_cycle :: bool

definition follow_edge :: "(dependency_edge \<Rightarrow> u64) \<Rightarrow> nat \<Rightarrow> dependency_edge \<Rightarrow> traversal \<Rightarrow> traversal" where
  "follow_edge next_of depth edge t =
     (let next = next_of edge;
          t = t\<lparr>tr_edges := tr_edges t @ [edge]\<rparr>
      in if next \<in> set (tr_visited t) then t\<lparr>tr_cycle := True\<rparr>
         else t\<lparr>tr_visited := tr_visited t @ [next], tr_queue := tr_queue t @ [(next, depth + 1)]\<rparr>)"

definition expand :: "dependency_graph \<Rightarrow> dependency_direction \<Rightarrow> u64 \<Rightarrow> nat \<Rightarrow> traversal \<Rightarrow> dependency_graph \<times> traversal" where
  "expand g dir current depth t =
     (let (g, neighbors) = (case dir of
            Upstream \<Rightarrow> get_dependents g current
          | _ \<Rightarrow> get_dependencies g current);
          t = fold (follow_edge (case dir of Upstream \<Rightarrow> from_workflow_key | _ \<Rightarrow> to_workflow_key) depth) neighbors t
      in if dir = Both
         then let (g, inc) = get_dependents g current
              in (g, fold (follow_edge from_workflow_key depth) inc t)
         else (g, t))"

text \<open>
  Following a list of edges appends the new endpoints, in order and each once, to the
  visited workflows and, one level deeper, to the queue.
\<close>

lemma follow_edges_spec:
  "\<exists>new. distinct new \<and> set new = next_of ` set es - set (tr_visited t)
     \<and> tr_visited (fold (follow_edge next_of depth) es t) = tr_visited t @ new
     \<and> tr_queue (fold (follow_edge next_of depth) es t) = tr_queue t @ map (\<lambda>x. (x, Suc depth)) new"
proof (induction es arbitrary: t)
  case (Cons e es)
  let ?t = "follow_edge next_of depth e t"
  obtain new where new: "distinct new" "set new = next_of ` set es - set (tr_visited ?t)"
    "tr_visited (fold (follow_edge next_of depth) es ?t) = tr_visited ?t @ new"
    "tr_queue (fold (follow_edge next_of depth) es ?t) = tr_queue ?t @ map (\<lambda>x. (x, Suc depth)) new"
    using Cons.IH [of ?t] by blast
  show ?case
  proof (cases "next_of e \<in> set (tr_visited t)")
    case True
    then have "tr_visited ?t = tr_visited t" "tr_queue ?t = tr_queue t"
      by (simp_all add: follow_edge_def Let_def)
    with new True show ?thesis by (intro exI [of _ new]) auto
  next
    case False
    then have t: "tr_visited ?t = tr_visited t @ [next_of e]" "tr_queue ?t = tr_queue t @ [(next_of e, Suc depth)]"
      by (simp_all add: follow_edge_def Let_def)
    show ?thesis
      using new False by (intro exI [of _ "next_of e # new"]) (auto simp: t)
  qed
qed auto

definition neighbours :: "dependency_graph \<Rightarrow> dependency_direction \<Rightarrow> u64 \<Rightarrow> u64 set" where
  "neighbours g dir x = (case dir of
     Downstream \<Rightarrow> to_workflow_key ` set (out_edges g x)
   | Upstream \<Rightarrow> from_workflow_key ` set (in_edges g x)
   | Both \<Rightarrow> to_workflow_key ` set (out_edges g x) \<union> from_workflow_key ` set (in_edges g x))"

lemma expand_spec:
  obtains new where "distinct new" "set new = neighbours g dir x - set (tr_visited t)"
    "tr_visited (snd (expand g dir x depth t)) = tr_visited t @ new"
    "tr_queue (snd (expand g dir x depth t)) = tr_queue t @ map (\<lambda>x. (x, Suc depth)) new"
proof (cases dir)
  case Downstream
  then show ?thesis
    using that follow_edges_spec [of to_workflow_key "out_edges g x" t depth]
    by (auto simp: expand_def neighbours_def get_dependencies_def Let_def)
next
  case Upstream
  then show ?thesis
    using that follow_edges_spec [of from_workflow_key "in_edges g x" t depth]
    by (auto simp: expand_def neighbours_def get_dependents_def Let_def)
next
  case Both
  let ?t = "fold (follow_edge to_workflow_key depth) (out_edges g x) t"
  obtain new where new: "distinct new" "set new = to_workflow_key ` set (out_edges g x) - set (tr_visited t)"
    "tr_visited ?t = tr_visited t @ new" "tr_queue ?t = tr_queue t @ map (\<lambda>x. (x, Suc depth)) new"
    using follow_edges_spec [of to_workflow_key "out_edges g x" t depth] by auto
  obtain new' where new': "distinct new'"
    "set new' = from_workflow_key ` set (in_edges g x) - set (tr_visited ?t)"
    "tr_visited (fold (follow_edge from_workflow_key depth) (in_edges g x) ?t) = tr_visited ?t @ new'"
    "tr_queue (fold (follow_edge from_workflow_key depth) (in_edges g x) ?t)
       = tr_queue ?t @ map (\<lambda>x. (x, Suc depth)) new'"
    using follow_edges_spec [of from_workflow_key "in_edges g x" ?t depth] by auto
  have "snd (expand g dir x depth t) = fold (follow_edge from_workflow_key depth) (in_edges g x) ?t"
    by (simp add: Both expand_def get_dependencies_def get_dependents_def Let_def)
  then show ?thesis
    using new new' by (intro that [of "new @ new'"]) (auto simp: neighbours_def Both)
qed

lemma expand_graph:
  "outgoing (fst (expand g dir x depth t)) = outgoing g"
  "incoming (fst (expand g dir x depth t)) = incoming g"
  by (cases dir; simp add: expand_def get_dependencies_def get_dependents_def Let_def)+

definition unseen :: "traversal \<Rightarrow> nat" where
  "unseen t = card (- set (tr_visited t))"

lemma expand_unseen:
  "length (tr_queue (snd (expand g dir x depth t))) + unseen (snd (expand g dir x depth t))
     = length (tr_queue t) + unseen t"
proof -
  obtain new where new: "distinct new" "set new = neighbours g dir x - set (tr_visited t)"
    "tr_visited (snd (expand g dir x depth t)) = tr_visited t @ new"
    "tr_queue (snd (expand g dir x depth t)) = tr_queue t @ map (\<lambda>x. (x, Suc depth)) new"
    by (rule expand_spec)
  have "- set (tr_visited t @ new) = - set (tr_visited t) - set new" by auto
  moreover have "set new \<subseteq> - set (tr_visited t)" using new(2) by auto
  ultimately have "unseen (snd (expand g dir x depth t)) = unseen t - length new"
    using new(1,3) by (simp add: unseen_def card_Diff_subset distinct_card)
  moreover have "length new \<le> unseen t"
    using \<open>set new \<subseteq> - set (tr_visited t)\<close> new(1) card_mono [of "- set (tr_visited t)" "set new"]
    by (simp add: unseen_def distinct_card)
  ultimately show ?thesis by (simp add: new(4))
qed

function traverse_loop ::
    "dependency_graph \<Rightarrow> dependency_direction \<Rightarrow> nat \<Rightarrow> traversal \<Rightarrow> dependency_graph \<times> traversal" where
  "traverse_loop g dir max_depth t =
     (case tr_queue t of
        [] \<Rightarrow> (g, t)
      | (current, depth) # rest \<Rightarrow>
          let t = t\<lparr>tr_queue := rest\<rparr>
          in if depth \<ge> max_depth then traverse_loop g dir max_depth t
             else traverse_loop (fst (expand g dir current depth t)) dir max_depth
                    (snd (expand g dir current depth t)))"
  by pat_completeness auto
termination
  by (relation "measure (\<lambda>(g, dir, max_depth, t). length (tr_queue t) + unseen t)")
    (auto simp: expand_unseen, simp_all add: unseen_def)

declare traverse_loop.simps [simp del]

record traversal_result =
  res_visited :: "u64 list"
  res_edges :: "dependency_edge list"
  res_depth :: nat
  res_cycle :: bool

definition traverse ::
    "dependency_graph \<Rightarrow> u64 \<Rightarrow> dependency_direction \<Rightarrow> nat \<Rightarrow> dependency_graph \<times> traversal_result" where
  "traverse g start dir max_depth =
     (let g = g\<lparr>queries_executed := queries_executed g + 1\<rparr>;
          (g, t) = traverse_loop g dir max_depth
                     \<lparr>tr_visited = [start], tr_edges = [], tr_queue = [(start, 0)], tr_cycle = False\<rparr>
      in (g, \<lparr>res_visited = tr_visited t, res_edges = tr_edges t,
              res_depth = (if tr_visited t = [] then 0
                           else min (sum_list (map (\<lambda>_. 1) (tr_edges t))) max_depth),
              res_cycle = tr_cycle t\<rparr>))"

section \<open>Breadth-first search\<close>

text \<open>
  The invariant of the loop, for the neighbourhood relation \<open>N\<close> from a start: the queue holds
  workflows at their exact distances, those of the current depth before those of the next
  one; what has left the queue has all its neighbours visited; and everything at the
  current depth or nearer is visited.
\<close>

definition bfs_inv :: "(u64 \<Rightarrow> u64 set) \<Rightarrow> u64 \<Rightarrow> nat \<Rightarrow> traversal \<Rightarrow> bool" where
  "bfs_inv N s m t \<longleftrightarrow>
     (let E = {(x, y). y \<in> N x}; V = set (tr_visited t); Q = tr_queue t
      in s \<in> V \<and> distinct (tr_visited t)
         \<and> (\<forall>x\<in>V. \<exists>n\<le>m. (s, x) \<in> E ^^ n)
         \<and> (\<forall>(x, k)\<in>set Q. x \<in> V \<and> k \<le> m \<and> (s, x) \<in> E ^^ k \<and> (\<forall>n<k. (s, x) \<notin> E ^^ n))
         \<and> (\<forall>x\<in>V - fst ` set Q. N x \<subseteq> V)
         \<and> sorted (map snd Q)
         \<and> (Q \<noteq> [] \<longrightarrow> (\<forall>k\<in>snd ` set Q. k \<le> Suc (snd (hd Q)))
             \<and> (\<forall>n \<le> snd (hd Q). \<forall>x. (s, x) \<in> E ^^ n \<longrightarrow> x \<in> V)))"

lemma bfs_invD:
  assumes "bfs_inv N s m t"
  shows "s \<in> set (tr_visited t)" and "distinct (tr_visited t)"
    and "\<And>x. x \<in> set (tr_visited t) \<Longrightarrow> \<exists>n\<le>m. (s, x) \<in> {(x, y). y \<in> N x} ^^ n"
    and "\<And>x k. (x, k) \<in> set (tr_queue t) \<Longrightarrow> x \<in> set (tr_visited t) \<and> k \<le> m
          \<and> (s, x) \<in> {(x, y). y \<in> N x} ^^ k \<and> (\<forall>n<k. (s, x) \<notin> {(x, y). y \<in> N x} ^^ n)"
    and "\<And>x. x \<in> set (tr_visited t) \<Longrightarrow> x \<notin> fst ` set (tr_queue t) \<Longrightarrow> N x \<subseteq> set (tr_visited t)"
    and "sorted (map snd (tr_queue t))"
    and "\<And>k. k \<in> snd ` set (tr_queue t) \<Longrightarrow> k \<le> Suc (snd (hd (tr_queue t)))"
    and "\<And>n x. tr_queue t \<noteq> [] \<Longrightarrow> n \<le> snd (hd (tr_queue t)) \<Longrightarrow>
          (s, x) \<in> {(x, y). y \<in> N x} ^^ n \<Longrightarrow> x \<in> set (tr_visited t)"
  using assms by (auto simp: bfs_inv_def Let_def)

lemma bfs_invI:
  assumes "s \<in> set (tr_visited t)" and "distinct (tr_visited t)"
    and "\<And>x. x \<in> set (tr_visited t) \<Longrightarrow> \<exists>n\<le>m. (s, x) \<in> {(x, y). y \<in> N x} ^^ n"
    and "\<And>x k. (x, k) \<in> set (tr_queue t) \<Longrightarrow> x \<in> set (tr_visited t) \<and> k \<le> m
          \<and> (s, x) \<in> {(x, y). y \<in> N x} ^^ k \<and> (\<forall>n<k. (s, x) \<notin> {(x, y). y \<in> N x} ^^ n)"
    and "\<And>x. x \<in> set (tr_visited t) \<Longrightarrow> x \<notin> fst ` set (tr_queue t) \<Longrightarrow> N x \<subseteq> set (tr_visited t)"
    and "sorted (map snd (tr_queue t))"
    and "\<And>k. k \<in> snd ` set (tr_queue t) \<Longrightarrow> k \<le> Suc (snd (hd (tr_queue t)))"
    and "\<And>n x. tr_queue t \<noteq> [] \<Longrightarrow> n \<le> snd (hd (tr_queue t)) \<Longrightarrow>
          (s, x) \<in> {(x, y). y \<in> N x} ^^ n \<Longrightarrow> x \<in> set (tr_visited t)"
  shows "bfs_inv N s m t"
  unfolding bfs_inv_def Let_def
proof (intro conjI ballI impI allI)
  fix p assume "p \<in> set (tr_queue t)"
  then show "case p of (x, k) \<Rightarrow> x \<in> set (tr_visited t) \<and> k \<le> m
      \<and> (s, x) \<in> {(x, y). y \<in> N x} ^^ k \<and> (\<forall>n<k. (s, x) \<notin> {(x, y). y \<in> N x} ^^ n)"
    using assms(4) [of "fst p" "snd p"] by (simp add: case_prod_beta)
qed (use assms in \<open>simp_all\<close>)

text \<open>
  Expanding the head keeps the invariant.  The step that matters is the change of level: a
  workflow one step beyond the current depth has a predecessor at the current depth, which
  is visited and, the queue holding exact distances, no longer queued.
\<close>

lemma bfs_inv_expand:
  assumes inv: "bfs_inv N s m t" and q: "tr_queue t = (x, d) # rest" and d: "d < m"
    and new: "distinct new" "set new = N x - set (tr_visited t)"
    and t': "tr_visited t' = tr_visited t @ new" "tr_queue t' = rest @ map (\<lambda>y. (y, Suc d)) new"
  shows "bfs_inv N s m t'"
proof -
  let ?E = "{(x, y). y \<in> N x}"
  note I = bfs_invD [OF inv]
  have x: "x \<in> set (tr_visited t)" "(s, x) \<in> ?E ^^ d"
    using I(4) [of x d] by (auto simp: q)
  have near: "n \<le> d \<Longrightarrow> (s, y) \<in> ?E ^^ n \<Longrightarrow> y \<in> set (tr_visited t)" for n y
    using I(8) [of n y] by (simp add: q)
  have fresh: "(s, y) \<in> ?E ^^ Suc d \<and> (\<forall>n<Suc d. (s, y) \<notin> ?E ^^ n)" if "y \<in> set new" for y
    using that new(2) x(2) near [of _ y] by (auto simp: less_Suc_eq_le)
  have rest: "(y, k) \<in> set rest \<Longrightarrow> d \<le> k \<and> k \<le> Suc d" for y k
    using I(6) I(7) [of k] by (force simp: q)
  have closed: "N y \<subseteq> set (tr_visited t')" if "y \<in> set (tr_visited t')" "y \<notin> fst ` set (tr_queue t')" for y
  proof (cases "y = x")
    case True
    then show ?thesis using new(2) t'(1) by auto
  next
    case False
    have "y \<notin> set new" using that(2) t'(2) by (auto simp: image_Un image_image)
    then have "y \<in> set (tr_visited t)" "y \<notin> fst ` set (tr_queue t)"
      using that False by (auto simp: t' q)
    then show ?thesis using I(5) [of y] t'(1) by auto
  qed
  have level: "y \<in> set (tr_visited t')"
    if ne: "tr_queue t' \<noteq> []" and le: "n \<le> snd (hd (tr_queue t'))" and path: "(s, y) \<in> ?E ^^ n" for n y
  proof (cases "n \<le> d")
    case True
    then show ?thesis using near path t'(1) by auto
  next
    case False
    have all: "d \<le> k \<and> k \<le> Suc d" if "(z, k) \<in> set (tr_queue t')" for z k
      using that rest by (auto simp: t'(2))
    have "hd (tr_queue t') \<in> set (tr_queue t')" using ne by simp
    then have "snd (hd (tr_queue t')) \<le> Suc d" using all by (metis prod.collapse)
    then have n: "n = Suc d" "snd (hd (tr_queue t')) = Suc d" using False le by auto
    then obtain z where z: "(s, z) \<in> ?E ^^ d" "y \<in> N z" using path by auto
    have "z \<notin> fst ` set (tr_queue t')"
    proof
      assume "z \<in> fst ` set (tr_queue t')"
      then obtain k where k: "(z, k) \<in> set (tr_queue t')" by auto
      have "sorted (map snd (tr_queue t'))"
        using I(6) rest by (auto simp: t'(2) q sorted_append sorted_map)
      then have "snd (hd (tr_queue t')) \<le> k"
        using k ne by (cases "tr_queue t'") auto
      then have "k = Suc d" using all [OF k] n by simp
      then have "(s, z) \<notin> ?E ^^ d"
        using k fresh [of z] I(4) [of z k] by (auto simp: t'(2) q)
      with z(1) show False by simp
    qed
    moreover have "z \<in> set (tr_visited t')" using near [OF order_refl z(1)] t'(1) by auto
    ultimately show ?thesis using closed [of z] z(2) by auto
  qed
  have le: "k \<le> Suc (snd (hd (tr_queue t')))" if "k \<in> snd ` set (tr_queue t')" for k
  proof -
    have "tr_queue t' \<noteq> []" using that by auto
    then have "d \<le> snd (hd (tr_queue t'))"
      using rest [of "fst (hd rest)" "snd (hd rest)"] by (cases rest) (auto simp: t'(2) hd_map)
    moreover have "k \<le> Suc d" using that rest by (auto simp: t'(2))
    ultimately show ?thesis by simp
  qed
  show ?thesis
  proof (rule bfs_invI)
    show "sorted (map snd (tr_queue t'))"
      using I(6) rest by (auto simp: t'(2) q sorted_append sorted_map)
    show "\<exists>n\<le>m. (s, y) \<in> ?E ^^ n" if "y \<in> set (tr_visited t')" for y
      using that fresh [of y] I(3) [of y] d by (auto simp: t'(1) intro: exI [of _ "Suc d"])
    show "y \<in> set (tr_visited t') \<and> k \<le> m \<and> (s, y) \<in> ?E ^^ k \<and> (\<forall>n<k. (s, y) \<notin> ?E ^^ n)"
      if "(y, k) \<in> set (tr_queue t')" for y k
      using that fresh [of y] I(4) [of y k] d by (auto simp: t' q)
    show "distinct (tr_visited t')" using I(2) new by (auto simp: t'(1))
    show "s \<in> set (tr_visited t')" using I(1) by (simp add: t'(1))
  qed (fact closed le level)+
qed

lemma traverse_loop_skips:
  assumes "\<forall>(x, k)\<in>set (tr_queue t). m \<le> k"
  shows "tr_visited (snd (traverse_loop g dir m t)) = tr_visited t"
  using assms
proof (induction g dir m t rule: traverse_loop.induct)
  case (1 g dir m t)
  show ?case
  proof (cases "tr_queue t")
    case (Cons p rest)
    then obtain x d where q: "tr_queue t = (x, d) # rest" by (cases p) auto
    then have "m \<le> d" using "1.prems" by simp
    with "1.IH"(1) [OF q refl refl] "1.prems" q show ?thesis
      by (simp add: traverse_loop.simps [of g dir m t])
  qed (simp add: traverse_loop.simps [of g dir m t])
qed

lemma traverse_loop_visits:
  assumes "bfs_inv (neighbours g dir) s m t"
  shows "distinct (tr_visited (snd (traverse_loop g dir m t)))
    \<and> set (tr_visited (snd (traverse_loop g dir m t)))
        = {y. \<exists>n\<le>m. (s, y) \<in> {(x, y). y \<in> neighbours g dir x} ^^ n}"
  using assms
proof (induction g dir m t rule: traverse_loop.induct)
  case (1 g dir m t)
  let ?E = "{(x, y). y \<in> neighbours g dir x}"
  note I = bfs_invD [OF "1.prems"]
  show ?case
  proof (cases "tr_queue t")
    case Nil
    have "y \<in> set (tr_visited t)" if "(s, y) \<in> ?E ^^ n" for n y
      using that
    proof (induction n arbitrary: y)
      case 0
      then show ?case using I(1) by simp
    next
      case (Suc n)
      then show ?case using I(5) Nil by fastforce
    qed
    then show ?thesis using I(2,3) Nil by (auto simp: traverse_loop.simps [of g dir m t])
  next
    case (Cons p rest)
    then obtain x d where q: "tr_queue t = (x, d) # rest" by (cases p) auto
    let ?t = "t\<lparr>tr_queue := rest\<rparr>"
    show ?thesis
    proof (cases "m \<le> d")
      case True
      have "\<forall>(y, k)\<in>set rest. m \<le> k" using I(6) True by (force simp: q)
      then have "tr_visited (snd (traverse_loop g dir m t)) = tr_visited t"
        using traverse_loop_skips [of t m g dir] True by (simp add: q)
      moreover have "y \<in> set (tr_visited t)" if "n \<le> m" "(s, y) \<in> ?E ^^ n" for n y
        using I(8) [of n y] that True by (simp add: q)
      ultimately show ?thesis using I(2,3) by auto
    next
      case False
      let ?g = "fst (expand g dir x d ?t)" and ?u = "snd (expand g dir x d ?t)"
      obtain new where new: "distinct new" "set new = neighbours g dir x - set (tr_visited ?t)"
        "tr_visited ?u = tr_visited ?t @ new" "tr_queue ?u = tr_queue ?t @ map (\<lambda>y. (y, Suc d)) new"
        by (rule expand_spec)
      have N: "neighbours ?g dir = neighbours g dir"
        by (simp add: neighbours_def expand_graph fun_eq_iff split: dependency_direction.split)
      have "bfs_inv (neighbours g dir) s m ?u"
        using bfs_inv_expand [OF "1.prems" q _ new(1), of ?u] new(2-4) False by simp
      then show ?thesis
        using "1.IH"(2) [OF q refl refl False] False q
        by (simp add: N Let_def traverse_loop.simps [of g dir m t])
    qed
  qed
qed

lemma traverse_visits:
  "distinct (res_visited (snd (traverse g start dir max_depth)))
   \<and> set (res_visited (snd (traverse g start dir max_depth)))
       = {y. \<exists>n\<le>max_depth. (start, y) \<in> {(x, y). y \<in> neighbours g dir x} ^^ n}"
proof -
  let ?g = "g\<lparr>queries_executed := queries_executed g + 1\<rparr>"
  let ?t = "\<lparr>tr_visited = [start], tr_edges = [], tr_queue = [(start, 0)], tr_cycle = False\<rparr>"
  have "bfs_inv (neighbours ?g dir) start max_depth ?t"
    by (auto simp: bfs_inv_def Let_def intro: exI [of _ 0])
  moreover have "neighbours ?g dir = neighbours g dir"
    by (simp add: neighbours_def fun_eq_iff split: dependency_direction.split)
  ultimately show ?thesis
    using traverse_loop_visits [of ?g dir start max_depth ?t]
    by (simp add: traverse_def Let_def case_prod_beta)
qed

text \<open>
  The traversal of the dependency graph ends, and visits, each once, exactly the
  workflows that lie at most \<open>max_depth\<close> steps from the start in the chosen direction.
\<close>

theorem traverse_visits_within_depth:
  "distinct (res_visited (snd (traverse g start dir max_depth)))
   \<and> set (res_visited (snd (traverse g start dir max_depth)))
       = {y. \<exists>n\<le>max_depth. (start, y) \<in> {(x, y). y \<in> neighbours g dir x} ^^ n}"
  by (rule traverse_visits)

section \<open>Impact analysis\<close>

record impact_analysis =
  affected_workflows :: "u64 list"
  by_type :: "(dependency_type, u64 list) hash_map"
  max_cascade_depth :: nat
  impact_cycle :: bool

definition group_by_type :: "dependency_edge list \<Rightarrow> (dependency_type, u64 list) hash_map" where
  "group_by_type es = fold (\<lambda>e m. hm_insert m (dep_type e) (get_or m (dep_type e) [] @ [to_workflow_key e])) es []"

text \<open>\<open>sort\<close> and \<open>dedup\<close> of a vector: the sorted list without adjacent duplicates.\<close>

definition sort_dedup :: "u64 list \<Rightarrow> u64 list" where
  "sort_dedup xs = remdups_adj (sort xs)"

definition analyze_impact :: "dependency_graph \<Rightarrow> u64 \<Rightarrow> dependency_graph \<times> impact_analysis" where
  "analyze_impact g k =
     (let (g, traversal) = traverse g k Downstream 100
      in (g, \<lparr>affected_workflows = filter (\<lambda>w. w \<noteq> k) (res_visited traversal),
              by_type = map_values sort_dedup (group_by_type (res_edges traversal)),
              max_cascade_depth = res_depth traversal,
              impact_cycle = res_cycle traversal\<rparr>))"

lemma neighbours_downstream: "{(x, y). y \<in> neighbours g Downstream x} = depends g"
  by (auto simp: neighbours_def depends_def)

lemma neighbours_upstream: "graph_wf g \<Longrightarrow> {(x, y). y \<in> neighbours g Upstream x} = (depends g)\<inverse>"
  by (auto simp: neighbours_def depends_incoming)

lemma neighbours_both: "graph_wf g \<Longrightarrow> {(x, y). y \<in> neighbours g Both x} = depends g \<union> (depends g)\<inverse>"
proof -
  assume "graph_wf g"
  have "{(x, y). y \<in> neighbours g Both x}
      = {(x, y). y \<in> neighbours g Downstream x} \<union> {(x, y). y \<in> neighbours g Upstream x}"
    by (auto simp: neighbours_def)
  then show ?thesis unfolding neighbours_downstream neighbours_upstream [OF \<open>graph_wf g\<close>] .
qed

section \<open>The edges a traversal follows\<close>

definition edges_at :: "dependency_graph \<Rightarrow> dependency_direction \<Rightarrow> u64 \<Rightarrow> dependency_edge list" where
  "edges_at g dir x = (case dir of
     Downstream \<Rightarrow> out_edges g x | Upstream \<Rightarrow> in_edges g x | Both \<Rightarrow> out_edges g x @ in_edges g x)"

lemma follow_edges_edges: "tr_edges (fold (follow_edge next_of depth) es t) = tr_edges t @ es"
  by (induction es arbitrary: t) (simp_all add: follow_edge_def Let_def)

lemma expand_edges: "tr_edges (snd (expand g dir x depth t)) = tr_edges t @ edges_at g dir x"
  by (cases dir)
    (simp_all add: expand_def edges_at_def get_dependencies_def get_dependents_def Let_def follow_edges_edges)

definition edges_inv :: "dependency_graph \<Rightarrow> dependency_direction \<Rightarrow> u64 \<Rightarrow> nat \<Rightarrow> traversal \<Rightarrow> bool" where
  "edges_inv g dir s m t \<longleftrightarrow>
     (let E = {(x, y). y \<in> neighbours g dir x}; left = set (tr_visited t) - fst ` set (tr_queue t)
      in distinct (map fst (tr_queue t)) \<and> (\<forall>x\<in>left. \<exists>n<m. (s, x) \<in> E ^^ n)
         \<and> set (tr_edges t) = (\<Union>x\<in>left. set (edges_at g dir x)))"

lemma edges_inv_expand:
  assumes inv: "edges_inv g dir s m t" "bfs_inv (neighbours g dir) s m t"
    and q: "tr_queue t = (x, d) # rest" and d: "d < m"
    and new: "distinct new" "set new = neighbours g dir x - set (tr_visited t)"
    and t': "tr_visited t' = tr_visited t @ new" "tr_queue t' = rest @ map (\<lambda>y. (y, Suc d)) new"
      "tr_edges t' = tr_edges t @ edges_at g dir x"
  shows "edges_inv g dir s m t'"
proof -
  have x: "x \<in> set (tr_visited t)" "(s, x) \<in> {(x, y). y \<in> neighbours g dir x} ^^ d"
    using bfs_invD(4) [OF inv(2), of x d] by (auto simp: q)
  have rest: "fst ` set rest \<subseteq> set (tr_visited t)" "x \<notin> fst ` set rest"
  proof
    fix y assume "y \<in> fst ` set rest"
    then obtain k where "(y, k) \<in> set rest" by auto
    then show "y \<in> set (tr_visited t)" using bfs_invD(4) [OF inv(2), of y k] by (simp add: q)
  qed (use inv(1) in \<open>simp add: q edges_inv_def Let_def\<close>)
  have queued: "fst ` set (tr_queue t') = fst ` set rest \<union> set new"
    by (auto simp: t'(2) image_Un image_image)
  have left: "set (tr_visited t') - fst ` set (tr_queue t')
      = insert x (set (tr_visited t) - fst ` set (tr_queue t))"
    unfolding queued using x rest new(2) by (auto simp: t'(1) q)
  have "distinct (map fst (tr_queue t'))"
    using inv(1) rest new by (auto simp: t'(2) q edges_inv_def Let_def comp_def)
  then show ?thesis
    using inv(1) x d unfolding edges_inv_def Let_def left by (auto simp: t'(3))
qed

lemma traverse_loop_skips_edges:
  assumes "\<forall>(x, k)\<in>set (tr_queue t). m \<le> k"
  shows "tr_edges (snd (traverse_loop g dir m t)) = tr_edges t"
  using assms
proof (induction g dir m t rule: traverse_loop.induct)
  case (1 g dir m t)
  show ?case
  proof (cases "tr_queue t")
    case (Cons p rest)
    then obtain x d where q: "tr_queue t = (x, d) # rest" by (cases p) auto
    then have "m \<le> d" using "1.prems" by simp
    with "1.IH"(1) [OF q refl refl] "1.prems" q show ?thesis
      by (simp add: traverse_loop.simps [of g dir m t])
  qed (simp add: traverse_loop.simps [of g dir m t])
qed

lemma traverse_loop_edges:
  assumes "bfs_inv (neighbours g dir) s m t" and "edges_inv g dir s m t"
  shows "set (tr_edges (snd (traverse_loop g dir m t)))
    = (\<Union>x\<in>{x. \<exists>n<m. (s, x) \<in> {(x, y). y \<in> neighbours g dir x} ^^ n}. set (edges_at g dir x))"
  using assms
proof (induction g dir m t rule: traverse_loop.induct)
  case (1 g dir m t)
  let ?E = "{(x, y). y \<in> neighbours g dir x}"
  note I = bfs_invD [OF "1.prems"(1)]
  have edges: "set (tr_edges t) = (\<Union>x\<in>set (tr_visited t) - fst ` set (tr_queue t). set (edges_at g dir x))"
    and short: "\<And>x. x \<in> set (tr_visited t) - fst ` set (tr_queue t) \<Longrightarrow> \<exists>n<m. (s, x) \<in> ?E ^^ n"
    using "1.prems"(2) by (auto simp: edges_inv_def Let_def)
  show ?case
  proof (cases "tr_queue t")
    case Nil
    have "set (tr_visited t) = {y. \<exists>n\<le>m. (s, y) \<in> ?E ^^ n}"
      using traverse_loop_visits [OF "1.prems"(1)] Nil by (simp add: traverse_loop.simps [of g dir m t])
    then have "{x. \<exists>n<m. (s, x) \<in> ?E ^^ n} = set (tr_visited t)"
      using short Nil by (auto intro: less_imp_le)
    then show ?thesis using Nil edges by (simp add: traverse_loop.simps [of g dir m t])
  next
    case (Cons p rest)
    then obtain x d where q: "tr_queue t = (x, d) # rest" by (cases p) auto
    let ?t = "t\<lparr>tr_queue := rest\<rparr>"
    show ?thesis
    proof (cases "m \<le> d")
      case True
      then have far: "(y, k) \<in> set (tr_queue t) \<Longrightarrow> m \<le> k" for y k using I(6) by (force simp: q)
      then have "tr_edges (snd (traverse_loop g dir m t)) = tr_edges t"
        by (intro traverse_loop_skips_edges) auto
      moreover have "y \<in> set (tr_visited t) - fst ` set (tr_queue t)"
        if n: "n < m" and path: "(s, y) \<in> ?E ^^ n" for n y
      proof -
        have "y \<notin> fst ` set (tr_queue t)"
          using I(4) far n path by (metis (no_types, lifting) imageE order.strict_trans2 prod.collapse)
        moreover have "y \<in> set (tr_visited t)" using I(8) [of n y] n path True by (simp add: q)
        ultimately show ?thesis by simp
      qed
      then have "set (tr_visited t) - fst ` set (tr_queue t) = {x. \<exists>n<m. (s, x) \<in> ?E ^^ n}"
        using short by blast
      ultimately show ?thesis using edges by simp
    next
      case False
      let ?g = "fst (expand g dir x d ?t)" and ?u = "snd (expand g dir x d ?t)"
      obtain new where new: "distinct new" "set new = neighbours g dir x - set (tr_visited ?t)"
        "tr_visited ?u = tr_visited ?t @ new" "tr_queue ?u = tr_queue ?t @ map (\<lambda>y. (y, Suc d)) new"
        by (rule expand_spec)
      have g: "neighbours ?g dir = neighbours g dir" "edges_at ?g dir = edges_at g dir"
        by (simp_all add: neighbours_def edges_at_def expand_graph fun_eq_iff split: dependency_direction.split)
      have "bfs_inv (neighbours g dir) s m ?u"
        using bfs_inv_expand [OF "1.prems"(1) q _ new(1), of ?u] new(2-4) False by simp
      moreover have "edges_inv g dir s m ?u"
        using edges_inv_expand [OF "1.prems"(2,1) q _ new(1), of ?u] new(2-4) False
        by (simp add: expand_edges)
      ultimately show ?thesis
        using "1.IH"(2) [OF q refl refl False] False q
        by (simp add: g edges_inv_def Let_def traverse_loop.simps [of g dir m t])
    qed
  qed
qed

section \<open>What the impact analysis reports\<close>

lemma group_by_type_spec:
  "get_or (group_by_type es) ty [] = map to_workflow_key (filter (\<lambda>e. dep_type e = ty) es)"
proof -
  have "get_or (fold (\<lambda>e m. hm_insert m (dep_type e) (get_or m (dep_type e) [] @ [to_workflow_key e])) es m) ty []
      = get_or m ty [] @ map to_workflow_key (filter (\<lambda>e. dep_type e = ty) es)" for m
    by (induction es arbitrary: m) auto
  then show ?thesis by (simp add: group_by_type_def)
qed

lemma sort_dedup_spec: "sorted (sort_dedup xs)" "distinct (sort_dedup xs)" "set (sort_dedup xs) = set xs"
  by (simp_all add: sort_dedup_def distinct_remdups_adj_sorted)

lemma traverse_edges:
  "set (res_edges (snd (traverse g start dir m)))
     = (\<Union>x\<in>{x. \<exists>n<m. (start, x) \<in> {(x, y). y \<in> neighbours g dir x} ^^ n}. set (edges_at g dir x))"
proof -
  let ?g = "g\<lparr>queries_executed := queries_executed g + 1\<rparr>"
  let ?t = "\<lparr>tr_visited = [start], tr_edges = [], tr_queue = [(start, 0)], tr_cycle = False\<rparr>"
  have inv: "bfs_inv (neighbours ?g dir) start m ?t" "edges_inv ?g dir start m ?t"
    by (auto simp: bfs_inv_def edges_inv_def Let_def intro: exI [of _ 0])
  have g: "neighbours ?g dir = neighbours g dir" "edges_at ?g dir = edges_at g dir"
    by (simp_all add: neighbours_def edges_at_def fun_eq_iff split: dependency_direction.split)
  show ?thesis
    using traverse_loop_edges [OF inv] by (simp add: traverse_def Let_def case_prod_beta g)
qed

text \<open>
  The impact analysis of a workflow lists exactly the other workflows that depend on it
  through at most a hundred edges, and under each kind of dependency the targets, in order
  and without repetition, of the edges of that kind that leave a workflow fewer than a
  hundred steps away.
\<close>

theorem analyze_impact_exact:
  "set (affected_workflows (snd (analyze_impact g k))) = {y. y \<noteq> k \<and> (\<exists>n\<le>100. (k, y) \<in> depends g ^^ n)}
   \<and> (let targets = get_or (by_type (snd (analyze_impact g k))) ty []
      in sorted targets \<and> distinct targets
         \<and> set targets = {to_workflow_key e |e x n. n < 100 \<and> (k, x) \<in> depends g ^^ n
                            \<and> e \<in> set (out_edges g x) \<and> dep_type e = ty})"
proof -
  let ?r = "snd (traverse g k Downstream 100)"
  have "get_or (map_values sort_dedup m) ty [] = sort_dedup (get_or m ty [])" for m :: "(dependency_type, u64 list) hash_map"
    by (rule get_or_map_values) (simp add: sort_dedup_def)
  then have targets: "get_or (by_type (snd (analyze_impact g k))) ty []
      = sort_dedup (map to_workflow_key (filter (\<lambda>e. dep_type e = ty) (res_edges ?r)))"
    by (simp add: analyze_impact_def case_prod_beta group_by_type_spec)
  have edges: "set (res_edges ?r) = (\<Union>x\<in>{x. \<exists>n<100. (k, x) \<in> depends g ^^ n}. set (out_edges g x))"
    using traverse_edges [of g k Downstream 100] by (simp add: neighbours_downstream edges_at_def)
  have "set (res_visited ?r) = {y. \<exists>n\<le>100. (k, y) \<in> depends g ^^ n}"
    using traverse_visits [of g k Downstream 100] by (simp add: neighbours_downstream)
  then show ?thesis
    unfolding targets Let_def
    by (auto simp: analyze_impact_def case_prod_beta sort_dedup_spec edges)
qed

section \<open>The cycle flag\<close>

definition tree_inv :: "traversal \<Rightarrow> bool" where
  "tree_inv t \<longleftrightarrow> Suc (length (tr_edges t)) \<ge> length (tr_visited t)
     \<and> (tr_cycle t \<longleftrightarrow> length (tr_visited t) \<le> length (tr_edges t))"

lemma tree_inv_follow: "tree_inv t \<Longrightarrow> tree_inv (follow_edge next_of depth e t)"
  by (auto simp: tree_inv_def follow_edge_def Let_def)

lemma tree_inv_fold: "tree_inv t \<Longrightarrow> tree_inv (fold (follow_edge next_of depth) es t)"
  by (induction es arbitrary: t) (simp_all add: tree_inv_follow)

lemma tree_inv_expand: "tree_inv t \<Longrightarrow> tree_inv (snd (expand g dir x depth t))"
  by (cases dir) (simp_all add: expand_def get_dependencies_def get_dependents_def Let_def tree_inv_fold)

lemma tree_inv_loop: "tree_inv t \<Longrightarrow> tree_inv (snd (traverse_loop g dir m t))"
proof (induction g dir m t rule: traverse_loop.induct)
  case (1 g dir m t)
  show ?case
  proof (cases "tr_queue t")
    case (Cons p rest)
    then obtain x d where q: "tr_queue t = (x, d) # rest" by (cases p) auto
    have "tree_inv (t\<lparr>tr_queue := rest\<rparr>)" using "1.prems" by (simp add: tree_inv_def)
    with "1.IH" [OF q refl refl] q tree_inv_expand [OF this] show ?thesis
      by (cases "m \<le> d") (simp_all add: Let_def traverse_loop.simps [of g dir m t])
  qed (simp add: "1.prems" traverse_loop.simps [of g dir m t])
qed

text \<open>
  The traversal's \<open>has_cycle\<close> flag does not detect cycles: it is raised exactly when the
  edges followed are not a tree, so a workflow reached by two different routes raises it.
\<close>

theorem traverse_flags_non_trees:
  "let r = snd (traverse g start dir max_depth)
   in res_cycle r \<longleftrightarrow> length (res_visited r) \<le> length (res_edges r)"
proof -
  let ?t = "\<lparr>tr_visited = [start], tr_edges = [], tr_queue = [(start, 0)], tr_cycle = False\<rparr>"
  have "tree_inv ?t" by (simp add: tree_inv_def)
  from tree_inv_loop [OF this] show ?thesis
    by (simp add: traverse_def Let_def case_prod_beta tree_inv_def)
qed

end
