(* ===== verification/Graph_Order.thy ===== *)
theory Graph_Order
  imports Dependency_Graph
begin

text \<open>
  The cycle search (depth-first) and the topological sort (Kahn's algorithm) of
  \<open>workflow_dependency_graph.rs\<close>.  The search recurses through the edges of a node; the call of
  \<open>dfs_cycle\<close> on a new node is written out as entering it, searching its edges and leaving it.
  The sort's loop is a partial function whose value is missing when it runs forever, which
  it never does: that is part of what is proved.
\<close>

section \<open>Depth-first cycle search\<close>

record dfs_state =
  dfs_visited :: "u64 set"
  in_stack :: "u64 set"
  path :: "u64 list"
  cycles :: "u64 list list"

definition dfs_enter :: "u64 \<Rightarrow> dfs_state \<Rightarrow> dfs_state" where
  "dfs_enter node st = st\<lparr>dfs_visited := insert node (dfs_visited st),
     in_stack := insert node (in_stack st), path := path st @ [node]\<rparr>"

definition dfs_leave :: "u64 \<Rightarrow> dfs_state \<Rightarrow> dfs_state" where
  "dfs_leave node st = st\<lparr>path := butlast (path st), in_stack := in_stack st - {node}\<rparr>"

function dfs_edges :: "(u64, dependency_edge list) hash_map \<Rightarrow> dependency_edge list \<Rightarrow> dfs_state \<Rightarrow> panic + dfs_state" where
  "dfs_edges out [] st = Inr st"
| "dfs_edges out (e # es) st =
     (let next = to_workflow_key e
      in if next \<notin> dfs_visited st
         then case dfs_edges out (get_or out next []) (dfs_enter next st) of
                Inl p \<Rightarrow> Inl p
              | Inr st' \<Rightarrow> dfs_edges out es (dfs_leave next st')
         else if next \<in> in_stack st
         then case position (\<lambda>n. n = next) (path st) of
                None \<Rightarrow> Inl UnwrapPanic
              | Some cycle_start \<Rightarrow>
                  dfs_edges out es (st\<lparr>cycles := cycles st @ [drop cycle_start (path st)]\<rparr>)
         else dfs_edges out es st)"
  by pat_completeness auto

lemma dfs_edges_mono_dom:
  assumes "dfs_edges_dom (out, es, st)" and "dfs_edges out es st = Inr st'"
  shows "dfs_visited st \<subseteq> dfs_visited st'"
  using assms
proof (induction out es st arbitrary: st' rule: dfs_edges.pinduct)
  case (1 out st)
  then show ?case by (simp add: dfs_edges.psimps)
next
  case (2 out e es st)
  let ?next = "to_workflow_key e"
  show ?case
  proof (cases "?next \<in> dfs_visited st")
    case False
    then obtain st1 where st1: "dfs_edges out (get_or out ?next []) (dfs_enter ?next st) = Inr st1"
      "dfs_edges out es (dfs_leave ?next st1) = Inr st'"
      using "2.prems" by (auto simp: dfs_edges.psimps(2) [OF "2.hyps"] Let_def split: sum.splits)
    have "dfs_visited (dfs_enter ?next st) \<subseteq> dfs_visited st1"
      using "2.IH"(1) [OF refl False st1(1)] .
    moreover have "dfs_visited (dfs_leave ?next st1) \<subseteq> dfs_visited st'"
      using "2.IH"(2) [OF refl False st1(1) st1(2)] .
    ultimately show ?thesis by (auto simp: dfs_enter_def dfs_leave_def)
  next
    case True
    show ?thesis
    proof (cases "?next \<in> in_stack st")
      case on: True
      then obtain i where i: "position (\<lambda>n. n = ?next) (path st) = Some i"
        "dfs_edges out es (st\<lparr>cycles := cycles st @ [drop i (path st)]\<rparr>) = Inr st'"
        using "2.prems" True by (auto simp: dfs_edges.psimps(2) [OF "2.hyps"] Let_def split: option.splits)
      from "2.IH"(3) [OF refl _ on i] True show ?thesis by simp
    next
      case off: False
      then have "dfs_edges out es st = Inr st'"
        using "2.prems" True by (simp add: dfs_edges.psimps(2) [OF "2.hyps"] Let_def)
      from "2.IH"(4) [OF refl _ off this] True show ?thesis by simp
    qed
  qed
qed

termination dfs_edges
proof (relation "inv_image (less_than <*lex*> less_than)
    (\<lambda>(out, es, st). (card (- dfs_visited st), length es))")
  show "wf (inv_image (less_than <*lex*> less_than) (\<lambda>(out :: (u64, dependency_edge list) hash_map,
      es :: dependency_edge list, st :: dfs_state). (card (- dfs_visited st), length es)))"
    by auto
next
  fix out :: "(u64, dependency_edge list) hash_map" and e :: dependency_edge and es x and st :: dfs_state
  assume "x = to_workflow_key e" "x \<notin> dfs_visited st"
  then have "card (- dfs_visited (dfs_enter x st)) < card (- dfs_visited st)"
    by (intro psubset_card_mono) (auto simp: dfs_enter_def)
  then show "((out, get_or out x [], dfs_enter x st), (out, e # es, st))
      \<in> inv_image (less_than <*lex*> less_than) (\<lambda>(out, es, st). (card (- dfs_visited st), length es))"
    by simp
next
  fix out :: "(u64, dependency_edge list) hash_map" and e :: dependency_edge and es x and st st1 :: dfs_state
  assume x: "x = to_workflow_key e" "x \<notin> dfs_visited st"
    and st1: "dfs_edges out (get_or out x []) (dfs_enter x st) = Inr st1"
    and dom: "dfs_edges_dom (out, get_or out x [], dfs_enter x st)"
  have "dfs_visited st \<subseteq> dfs_visited st1"
    using dfs_edges_mono_dom [OF dom st1] by (auto simp: dfs_enter_def)
  then have "card (- dfs_visited (dfs_leave x st1)) \<le> card (- dfs_visited st)"
    by (intro card_mono) (auto simp: dfs_leave_def)
  then show "((out, es, dfs_leave x st1), (out, e # es, st))
      \<in> inv_image (less_than <*lex*> less_than) (\<lambda>(out, es, st). (card (- dfs_visited st), length es))"
    by auto
qed auto

definition dfs_cycle :: "(u64, dependency_edge list) hash_map \<Rightarrow> u64 \<Rightarrow> dfs_state \<Rightarrow> panic + dfs_state" where
  "dfs_cycle out node st =
     (case dfs_edges out (get_or out node []) (dfs_enter node st) of
        Inl p \<Rightarrow> Inl p
      | Inr st \<Rightarrow> Inr (dfs_leave node st))"

fun detect_from :: "(u64, dependency_edge list) hash_map \<Rightarrow> u64 list \<Rightarrow> dfs_state \<Rightarrow> panic + dfs_state" where
  "detect_from out [] st = Inr st"
| "detect_from out (node # nodes) st =
     (if node \<notin> dfs_visited st
      then case dfs_cycle out node st of Inl p \<Rightarrow> Inl p | Inr st \<Rightarrow> detect_from out nodes st
      else detect_from out nodes st)"

definition detect_cycles :: "dependency_graph \<Rightarrow> panic + u64 list list" where
  "detect_cycles g =
     (case detect_from (outgoing g) (map fst (outgoing g))
             \<lparr>dfs_visited = {}, in_stack = {}, path = [], cycles = []\<rparr> of
        Inl p \<Rightarrow> Inl p
      | Inr st \<Rightarrow> Inr (cycles st))"

section \<open>The search reports cycles exactly when there are some\<close>

abbreviation walk :: "(u64 \<times> u64) set \<Rightarrow> u64 list \<Rightarrow> bool" where
  "walk E \<equiv> successively (\<lambda>a b. (a, b) \<in> E)"

definition is_cycle :: "(u64 \<times> u64) set \<Rightarrow> u64 list \<Rightarrow> bool" where
  "is_cycle E c \<longleftrightarrow> c \<noteq> [] \<and> distinct c \<and> walk E c \<and> (last c, hd c) \<in> E"

definition edge_rel :: "(u64, dependency_edge list) hash_map \<Rightarrow> (u64 \<times> u64) set" where
  "edge_rel out = {(a, b). \<exists>e\<in>set (get_or out a []). to_workflow_key e = b}"

definition finished :: "dfs_state \<Rightarrow> u64 set" where
  "finished st = dfs_visited st - set (path st)"

text \<open>
  The invariant: the path is a walk without repetition that the stack set mirrors, what is
  reported are cycles, and as long as nothing is reported the finished nodes are closed
  under edges and free of cycles.
\<close>

definition dfs_inv :: "(u64 \<times> u64) set \<Rightarrow> dfs_state \<Rightarrow> bool" where
  "dfs_inv E st \<longleftrightarrow> in_stack st = set (path st) \<and> distinct (path st) \<and> walk E (path st)
     \<and> set (path st) \<subseteq> dfs_visited st \<and> (\<forall>c\<in>set (cycles st). is_cycle E c)
     \<and> (cycles st = [] \<longrightarrow> E `` finished st \<subseteq> finished st \<and> acyclic (E \<inter> finished st \<times> finished st))"

lemma walk_reaches: "walk E c \<Longrightarrow> c \<noteq> [] \<Longrightarrow> (hd c, last c) \<in> E\<^sup>*"
proof (induction c)
  case (Cons a c)
  show ?case
  proof (cases c)
    case (Cons b c')
    then have "(a, b) \<in> E" "(b, last c) \<in> E\<^sup>*" using Cons.prems Cons.IH by auto
    then show ?thesis using Cons by (auto intro: converse_rtrancl_into_rtrancl)
  qed simp
qed simp

lemma is_cycle_not_acyclic: "is_cycle E c \<Longrightarrow> \<not> acyclic E"
  unfolding is_cycle_def acyclic_def using walk_reaches by (meson rtrancl_into_trancl1)

text \<open>A node all of whose edges lead into a closed cycle-free set may join the set.\<close>

lemma acyclic_join:
  assumes "acyclic (E \<inter> F \<times> F)" and "E `` F \<subseteq> F" and "n \<notin> F" and "E `` {n} \<subseteq> F"
  shows "acyclic (E \<inter> insert n F \<times> insert n F)"
proof -
  let ?E = "E \<inter> insert n F \<times> insert n F"
  have stay: "(a, b) \<in> ?E\<^sup>+ \<Longrightarrow> b \<in> F" for a b
    by (induction rule: trancl_induct) (use assms(2,4) in auto)
  have "(a, b) \<in> ?E\<^sup>+ \<Longrightarrow> a \<in> F \<Longrightarrow> (a, b) \<in> (E \<inter> F \<times> F)\<^sup>+" for a b
  proof (induction rule: trancl_induct)
    case (base b)
    then show ?case using assms(2) by (intro r_into_trancl) auto
  next
    case (step b c)
    then have "b \<in> F" using stay [of a b] by simp
    then have "(b, c) \<in> E \<inter> F \<times> F" using step.hyps(2) assms(2) by auto
    then show ?case using step by (auto intro: trancl_into_trancl)
  qed
  then show ?thesis using assms(1) stay unfolding acyclic_def by blast
qed

lemma dfs_enter_inv:
  assumes "dfs_inv E st" and "n \<notin> dfs_visited st" and "path st \<noteq> [] \<Longrightarrow> (last (path st), n) \<in> E"
  shows "dfs_inv E (dfs_enter n st)" and "finished (dfs_enter n st) = finished st"
proof -
  show fin: "finished (dfs_enter n st) = finished st"
    using assms(2) by (auto simp: finished_def dfs_enter_def)
  show "dfs_inv E (dfs_enter n st)"
    using assms unfolding dfs_inv_def fin
    by (auto simp: dfs_enter_def successively_append_iff)
qed

lemma dfs_leave_inv:
  assumes "dfs_inv E st" and p: "path st = p @ [n]"
    and closed: "cycles st = [] \<Longrightarrow> E `` {n} \<subseteq> finished st"
  shows "dfs_inv E (dfs_leave n st)" and "finished (dfs_leave n st) = insert n (finished st)"
proof -
  have dist: "distinct (p @ [n])" and n: "n \<in> dfs_visited st"
    using assms(1) by (auto simp: dfs_inv_def p)
  show fin: "finished (dfs_leave n st) = insert n (finished st)"
    using dist n by (auto simp: finished_def dfs_leave_def p)
  have "n \<notin> finished st" by (simp add: finished_def p)
  then have "cycles st = [] \<longrightarrow> E `` insert n (finished st) \<subseteq> insert n (finished st)
      \<and> acyclic (E \<inter> insert n (finished st) \<times> insert n (finished st))"
    using assms(1) closed acyclic_join [of E "finished st" n] by (auto simp: dfs_inv_def)
  moreover have "set (p @ [n]) - {n} = set p" using dist by auto
  ultimately show "dfs_inv E (dfs_leave n st)"
    using assms(1) dist unfolding dfs_inv_def fin
    by (auto simp: dfs_leave_def p successively_append_iff)
qed

lemma drop_is_cycle:
  assumes "dfs_inv E st" and "position (\<lambda>m. m = n) (path st) = Some i" and "(last (path st), n) \<in> E"
  shows "is_cycle E (drop i (path st))"
proof -
  have i: "i < length (path st)" "path st ! i = n" using position_SomeD [OF assms(2)] by auto
  have "walk E (take i (path st) @ drop i (path st))" using assms(1) by (simp add: dfs_inv_def)
  then have "walk E (drop i (path st))" unfolding successively_append_iff by blast
  then show ?thesis
    using i assms(1,3) by (auto simp: is_cycle_def dfs_inv_def hd_drop_conv_nth)
qed

definition dfs_post :: "dependency_edge list \<Rightarrow> dfs_state \<Rightarrow> dfs_state \<Rightarrow> bool" where
  "dfs_post es st st' \<longleftrightarrow> path st' = path st \<and> dfs_visited st \<subseteq> dfs_visited st'
     \<and> (\<exists>cs. cycles st' = cycles st @ cs)
     \<and> (cycles st' = [] \<longrightarrow> to_workflow_key ` set es \<subseteq> finished st')"

lemma dfs_edges_correct:
  assumes "dfs_inv (edge_rel out) st" and "path st \<noteq> []"
    and "\<forall>e\<in>set es. (last (path st), to_workflow_key e) \<in> edge_rel out"
  shows "\<exists>st'. dfs_edges out es st = Inr st' \<and> dfs_inv (edge_rel out) st' \<and> dfs_post es st st'"
  using assms
proof (induction out es st rule: dfs_edges.induct)
  case (1 out st)
  then show ?case by (simp add: dfs_post_def)
next
  case (2 out e es st)
  let ?E = "edge_rel out" and ?n = "to_workflow_key e"
  have edge: "(last (path st), ?n) \<in> ?E" and es: "\<forall>e\<in>set es. (last (path st), to_workflow_key e) \<in> ?E"
    using "2.prems"(3) by auto
  show ?case
  proof (cases "?n \<in> dfs_visited st")
    case False
    let ?st1 = "dfs_enter ?n st"
    have inv1: "dfs_inv ?E ?st1" and fin1: "finished ?st1 = finished st"
      using dfs_enter_inv [OF "2.prems"(1) False edge] by auto
    have path1: "path ?st1 = path st @ [?n]" by (simp add: dfs_enter_def)
    obtain st2 where st2: "dfs_edges out (get_or out ?n []) ?st1 = Inr st2" "dfs_inv ?E st2"
      "dfs_post (get_or out ?n []) ?st1 st2"
      using "2.IH"(1) [OF refl False inv1] by (auto simp: path1 edge_rel_def)
    let ?st3 = "dfs_leave ?n st2"
    have path2: "path st2 = path st @ [?n]" using st2(3) path1 by (simp add: dfs_post_def)
    have "cycles st2 = [] \<Longrightarrow> ?E `` {?n} \<subseteq> finished st2"
      using st2(3) by (auto simp: dfs_post_def edge_rel_def)
    from dfs_leave_inv [OF st2(2) path2 this]
    have inv3: "dfs_inv ?E ?st3" and fin3: "finished ?st3 = insert ?n (finished st2)" by auto
    have path3: "path ?st3 = path st" by (simp add: dfs_leave_def path2)
    obtain st' where st': "dfs_edges out es ?st3 = Inr st'" "dfs_inv ?E st'" "dfs_post es ?st3 st'"
      using "2.IH"(2) [OF refl False st2(1) inv3] "2.prems"(2) es by (auto simp: path3)
    have "?n \<in> finished st'"
      using fin3 st'(3) by (auto simp: dfs_post_def finished_def)
    then have "dfs_post (e # es) st st'"
      using st2(3) st'(3) path3 by (auto simp: dfs_post_def dfs_enter_def dfs_leave_def)
    then show ?thesis using st2(1) st' False by simp
  next
    case True
    show ?thesis
    proof (cases "?n \<in> in_stack st")
      case on: True
      then have "\<exists>m\<in>set (path st). m = ?n" using "2.prems"(1) by (simp add: dfs_inv_def)
      then obtain i where i: "position (\<lambda>m. m = ?n) (path st) = Some i"
        using position_ex [of "path st" "\<lambda>m. m = ?n"] by auto
      let ?st1 = "st\<lparr>cycles := cycles st @ [drop i (path st)]\<rparr>"
      have "is_cycle ?E (drop i (path st))" by (rule drop_is_cycle [OF "2.prems"(1) i edge])
      then have "dfs_inv ?E ?st1" using "2.prems"(1) by (auto simp: dfs_inv_def)
      then obtain st' where st': "dfs_edges out es ?st1 = Inr st'" "dfs_inv ?E st'" "dfs_post es ?st1 st'"
        using "2.IH"(3) [OF refl _ on i] True "2.prems"(2) es by auto
      then have "dfs_post (e # es) st st'" by (auto simp: dfs_post_def)
      moreover have "dfs_edges out (e # es) st = Inr st'"
        by (simp only: dfs_edges.simps Let_def True on i option.case st'(1) simp_thms if_True if_False)
      ultimately show ?thesis using st'(2) by blast
    next
      case off: False
      then obtain st' where st': "dfs_edges out es st = Inr st'" "dfs_inv ?E st'" "dfs_post es st st'"
        using "2.IH"(4) [OF refl _ off] True "2.prems" es by auto
      have "?n \<notin> set (path st)" using off "2.prems"(1) by (simp add: dfs_inv_def)
      then have "dfs_post (e # es) st st'" using st'(3) True by (auto simp: dfs_post_def finished_def)
      then show ?thesis using st' True off by simp
    qed
  qed
qed

lemma detect_from_correct:
  assumes "dfs_inv (edge_rel out) st" and "path st = []"
  shows "\<exists>st'. detect_from out nodes st = Inr st' \<and> dfs_inv (edge_rel out) st' \<and> path st' = []
    \<and> dfs_visited st \<union> set nodes \<subseteq> dfs_visited st'"
  using assms
proof (induction nodes arbitrary: st)
  case (Cons n nodes)
  let ?E = "edge_rel out"
  show ?case
  proof (cases "n \<in> dfs_visited st")
    case True
    then show ?thesis using Cons.IH [OF Cons.prems] by auto
  next
    case False
    have inv1: "dfs_inv ?E (dfs_enter n st)"
      by (rule dfs_enter_inv) (use Cons.prems False in auto)
    have path1: "path (dfs_enter n st) = [n]" using Cons.prems by (simp add: dfs_enter_def)
    obtain st2 where st2: "dfs_edges out (get_or out n []) (dfs_enter n st) = Inr st2" "dfs_inv ?E st2"
      "dfs_post (get_or out n []) (dfs_enter n st) st2"
      using dfs_edges_correct [OF inv1, of "get_or out n []"] by (auto simp: path1 edge_rel_def)
    have path2: "path st2 = [] @ [n]" using st2(3) path1 by (simp add: dfs_post_def)
    have "cycles st2 = [] \<Longrightarrow> ?E `` {n} \<subseteq> finished st2"
      using st2(3) by (auto simp: dfs_post_def edge_rel_def)
    from dfs_leave_inv(1) [OF st2(2) path2 this] have inv3: "dfs_inv ?E (dfs_leave n st2)" .
    have path3: "path (dfs_leave n st2) = []" by (simp add: dfs_leave_def path2)
    obtain st' where st': "detect_from out nodes (dfs_leave n st2) = Inr st'" "dfs_inv ?E st'" "path st' = []"
      "dfs_visited (dfs_leave n st2) \<union> set nodes \<subseteq> dfs_visited st'"
      using Cons.IH [OF inv3 path3] by auto
    have "insert n (dfs_visited st) \<subseteq> dfs_visited st'"
      using st2(3) st'(4) by (auto simp: dfs_post_def dfs_enter_def dfs_leave_def)
    then show ?thesis using st' False by (auto simp: dfs_cycle_def st2(1))
  qed
qed simp

lemma edge_rel_outgoing [simp]: "edge_rel (outgoing g) = depends g"
  by (simp add: edge_rel_def depends_def)

lemma edge_rel_sources: "(a, b) \<in> edge_rel out \<Longrightarrow> a \<in> set (map fst out)"
  by (cases "map_of out a") (auto simp: edge_rel_def get_or_def dest: map_of_SomeD intro: rev_image_eqI)

lemma detect_cycles_spec:
  "\<exists>cs. detect_cycles g = Inr cs \<and> (\<forall>c\<in>set cs. is_cycle (depends g) c) \<and> (cs = [] \<longleftrightarrow> acyclic (depends g))"
proof -
  let ?E = "depends g"
  let ?st = "\<lparr>dfs_visited = {}, in_stack = {}, path = [], cycles = []\<rparr>"
  have "dfs_inv (edge_rel (outgoing g)) ?st" by (simp add: dfs_inv_def finished_def acyclic_def)
  then obtain st where st: "detect_from (outgoing g) (map fst (outgoing g)) ?st = Inr st"
    "dfs_inv ?E st" "path st = []" "set (map fst (outgoing g)) \<subseteq> dfs_visited st"
    using detect_from_correct [of "outgoing g" ?st "map fst (outgoing g)"] by fastforce
  have cyc: "\<forall>c\<in>set (cycles st). is_cycle ?E c" using st(2) by (simp add: dfs_inv_def)
  have "acyclic ?E" if "cycles st = []"
  proof -
    have fin: "finished st = dfs_visited st" using st(3) by (simp add: finished_def)
    have "?E `` dfs_visited st \<subseteq> dfs_visited st" "acyclic (?E \<inter> dfs_visited st \<times> dfs_visited st)"
      using st(2) that unfolding dfs_inv_def fin by auto
    moreover have "?E \<subseteq> dfs_visited st \<times> dfs_visited st"
    proof (rule subrelI)
      fix a b assume ab: "(a, b) \<in> ?E"
      then have "a \<in> dfs_visited st"
        using edge_rel_sources [of a b "outgoing g"] st(4) by auto
      then show "(a, b) \<in> dfs_visited st \<times> dfs_visited st" using ab calculation(1) by blast
    qed
    ultimately show ?thesis by (simp add: Int_absorb2)
  qed
  moreover have "cycles st = []" if "acyclic ?E"
  proof (rule ccontr)
    assume "cycles st \<noteq> []"
    then have "is_cycle ?E (hd (cycles st))" using cyc by simp
    with that show False using is_cycle_not_acyclic by blast
  qed
  moreover have "detect_cycles g = Inr (cycles st)" by (simp add: detect_cycles_def st(1))
  ultimately show ?thesis using cyc by blast
qed

text \<open>
  C27.  The cycle search of the dependency graph ends without a panic, every list it reports
  is a cycle of distinct workflows, and it reports none exactly when the graph has none.
\<close>

theorem detect_cycles_correct:
  "\<exists>cs. detect_cycles g = Inr cs \<and> (\<forall>c\<in>set cs. is_cycle (depends g) c) \<and> (cs = [] \<longleftrightarrow> acyclic (depends g))"
  by (rule detect_cycles_spec)

theorem detect_cycles_correct_witness:
  "let g = add_dependency (add_dependency Graph_new 1 2 ParentChild None 0) 2 1 SignalSender None 0
   in detect_cycles g = Inr [[1, 2]] \<and> is_cycle (depends g) [1, 2]"
proof -
  let ?g = "add_dependency (add_dependency Graph_new 1 2 ParentChild None 0) 2 1 SignalSender None 0"
  have "detect_cycles ?g = Inr [[1, 2]]" by code_simp
  then show ?thesis using detect_cycles_correct [of ?g] by (auto simp: Let_def)
qed

section \<open>Topological sort\<close>

definition add_in_degree :: "dependency_edge \<Rightarrow> (u64, nat) hash_map \<Rightarrow> (u64, nat) hash_map" where
  "add_in_degree e m = hm_insert m (to_workflow_key e) (get_or m (to_workflow_key e) 0 + 1)"

definition in_degrees :: "(u64, dependency_edge list) hash_map \<Rightarrow> (u64, nat) hash_map" where
  "in_degrees out = fold (\<lambda>node m.
     let m = or_insert m node 0
     in case map_of out node of None \<Rightarrow> m | Some edges \<Rightarrow> fold add_in_degree edges m) (map fst out) []"

definition relax :: "dependency_edge \<Rightarrow> (u64, nat) hash_map \<times> u64 list \<Rightarrow> (u64, nat) hash_map \<times> u64 list" where
  "relax e s = (case s of (in_degree, queue) \<Rightarrow>
     case map_of in_degree (to_workflow_key e) of
       None \<Rightarrow> (in_degree, queue)
     | Some deg \<Rightarrow>
         (hm_insert in_degree (to_workflow_key e) (deg - 1),
          if deg - 1 = 0 then queue @ [to_workflow_key e] else queue))"

partial_function (option) kahn_loop ::
    "(u64, dependency_edge list) hash_map \<Rightarrow> (u64, nat) hash_map \<Rightarrow> u64 list \<Rightarrow> u64 list \<Rightarrow> u64 list option" where
  "kahn_loop out in_degree queue result =
     (case queue of
        [] \<Rightarrow> Some result
      | node # rest \<Rightarrow>
          kahn_loop out (fst (fold relax (get_or out node []) (in_degree, rest)))
            (snd (fold relax (get_or out node []) (in_degree, rest))) (result @ [node]))"

declare kahn_loop.simps [code]

definition topological_sort :: "dependency_graph \<Rightarrow> u64 list option option" where
  "topological_sort g =
     (let in_degree = in_degrees (outgoing g);
          queue = map fst (filter (\<lambda>(_, deg). deg = 0) in_degree)
      in case kahn_loop (outgoing g) in_degree queue [] of
           None \<Rightarrow> None
         | Some result \<Rightarrow> Some (if length result = length in_degree then Some result else None))"

section \<open>The sort ends with a topological order, or the graph has a cycle\<close>

text \<open>\<open>arcs out u v\<close> counts the edges filed under \<open>u\<close> that lead to \<open>v\<close>.\<close>

definition arcs :: "(u64, dependency_edge list) hash_map \<Rightarrow> u64 \<Rightarrow> u64 \<Rightarrow> nat" where
  "arcs out u v = count_list (map to_workflow_key (get_or out u [])) v"

definition graph_nodes :: "(u64, dependency_edge list) hash_map \<Rightarrow> u64 set" where
  "graph_nodes out = set (map fst out) \<union> Range (edge_rel out)"

lemma arcs_edge_rel: "0 < arcs out u v \<longleftrightarrow> (u, v) \<in> edge_rel out"
proof -
  have "0 < arcs out u v \<longleftrightarrow> v \<in> set (map to_workflow_key (get_or out u []))"
    unfolding arcs_def by (metis count_list_0_iff neq0_conv)
  then show ?thesis by (auto simp: edge_rel_def)
qed

lemma add_in_degrees:
  "map_of (fold add_in_degree es m) v =
     (if v \<in> to_workflow_key ` set es then Some (get_or m v 0 + count_list (map to_workflow_key es) v) else map_of m v)"
  "hm_wf m \<Longrightarrow> hm_wf (fold add_in_degree es m)"
proof (induction es arbitrary: m)
  case (Cons e es)
  {
    case 1
    have "to_workflow_key e \<notin> to_workflow_key ` set es \<Longrightarrow> count_list (map to_workflow_key es) (to_workflow_key e) = 0"
      by simp
    then show ?case
      using Cons.IH(1) [of "add_in_degree e m"] by (auto simp: add_in_degree_def)
  next
    case 2
    then show ?case using Cons.IH(2) [of "add_in_degree e m"] by (simp add: add_in_degree_def distinct_update)
  }
qed simp_all

lemma in_degrees_fold:
  fixes out :: "(u64, dependency_edge list) hash_map"
  defines "f \<equiv> \<lambda>node m. let m = or_insert m node 0
     in case map_of out node of None \<Rightarrow> m | Some edges \<Rightarrow> fold add_in_degree edges m"
  assumes "hm_wf m"
  shows "hm_wf (fold f ns m)
    \<and> dom (map_of (fold f ns m)) = dom (map_of m) \<union> set ns \<union> {v. \<exists>n\<in>set ns. (n, v) \<in> edge_rel out}
    \<and> (\<forall>v. get_or (fold f ns m) v 0 = get_or m v 0 + sum_list (map (\<lambda>n. arcs out n v) ns))"
  using assms(2)
proof (induction ns arbitrary: m)
  case (Cons n ns)
  have f: "f n m = fold add_in_degree (get_or out n []) (or_insert m n 0)"
    by (simp add: f_def get_or_def split: option.split)
  have wf: "hm_wf (f n m)" unfolding f by (intro add_in_degrees(2) hm_wf_or_insert Cons.prems)
  have dom: "dom (map_of (f n m)) = dom (map_of m) \<union> {n} \<union> {v. (n, v) \<in> edge_rel out}"
    unfolding f by (auto simp: add_in_degrees(1) map_of_or_insert edge_rel_def split: if_splits)
  have "get_or (or_insert m n 0) v 0 = get_or m v 0" for v
    by (simp add: or_insert_def get_or_def split: option.split)
  moreover have "v \<notin> to_workflow_key ` set (get_or out n []) \<Longrightarrow> arcs out n v = 0" for v
    by (simp add: arcs_def)
  ultimately have deg: "get_or (f n m) v 0 = get_or m v 0 + arcs out n v" for v
    unfolding f by (cases "v \<in> to_workflow_key ` set (get_or out n [])")
      (simp_all add: get_or_def [of "fold _ _ _"] add_in_degrees(1) arcs_def, simp_all add: get_or_def)
  show ?case using Cons.IH [OF wf] by (auto simp: dom deg)
qed simp

definition open_arcs :: "(u64, dependency_edge list) hash_map \<Rightarrow> u64 list \<Rightarrow> u64 \<Rightarrow> nat" where
  "open_arcs out result v = (\<Sum>u\<in>- set result. arcs out u v)"

lemma in_degrees_spec:
  assumes "hm_wf out"
  shows "hm_wf (in_degrees out)" and "dom (map_of (in_degrees out)) = graph_nodes out"
    and "v \<in> graph_nodes out \<Longrightarrow> map_of (in_degrees out) v = Some (open_arcs out [] v)"
proof -
  have spec: "hm_wf (in_degrees out)"
    "dom (map_of (in_degrees out)) = set (map fst out) \<union> {v. \<exists>n\<in>set (map fst out). (n, v) \<in> edge_rel out}"
    "\<And>v. get_or (in_degrees out) v 0 = sum_list (map (\<lambda>n. arcs out n v) (map fst out))"
    using in_degrees_fold [of "[]" out "map fst out"] by (simp_all add: in_degrees_def)
  show "hm_wf (in_degrees out)" by (rule spec)
  show dom: "dom (map_of (in_degrees out)) = graph_nodes out"
    unfolding spec(2) graph_nodes_def using edge_rel_sources [of _ _ out] by (auto simp del: set_map)
  have "arcs out n v = 0" if "n \<notin> set (map fst out)" for n
    using that arcs_edge_rel [of out n v] edge_rel_sources [of n v out] by auto
  then have "sum_list (map (\<lambda>n. arcs out n v) (map fst out)) = (\<Sum>u\<in>UNIV. arcs out u v)"
    using assms by (subst sum_list_distinct_conv_sum_set) (auto intro!: sum.mono_neutral_left)
  then show "v \<in> graph_nodes out \<Longrightarrow> map_of (in_degrees out) v = Some (open_arcs out [] v)"
    using spec(3) [of v] unfolding dom [symmetric] by (auto simp: get_or_def open_arcs_def)
qed

text \<open>Relaxing the edges of a node takes their multiplicity off every degree and queues what reaches zero.\<close>

lemma relax_edges:
  assumes "\<forall>v\<in>D. map_of ind v = Some (base v + count_list (map to_workflow_key es) v)"
    and "dom (map_of ind) = D" and "to_workflow_key ` set es \<subseteq> D"
  shows "dom (map_of (fst (fold relax es (ind, q)))) = D
    \<and> (\<forall>v\<in>D. map_of (fst (fold relax es (ind, q))) v = Some (base v))
    \<and> (\<exists>new. snd (fold relax es (ind, q)) = q @ new \<and> distinct new
         \<and> set new = {v \<in> to_workflow_key ` set es. base v = 0})"
  using assms
proof (induction es arbitrary: ind q)
  case (Cons e es)
  let ?v = "to_workflow_key e" and ?rest = "map to_workflow_key es"
  let ?d = "base ?v + count_list ?rest ?v"
  have v: "?v \<in> D" "map_of ind ?v = Some (Suc ?d)" using Cons.prems by auto
  have step: "relax e (ind, q) = (hm_insert ind ?v ?d, if ?d = 0 then q @ [?v] else q)"
    by (simp add: relax_def v(2))
  have "\<forall>w\<in>D. map_of (hm_insert ind ?v ?d) w = Some (base w + count_list ?rest w)"
    and "dom (map_of (hm_insert ind ?v ?d)) = D" and "to_workflow_key ` set es \<subseteq> D"
    using Cons.prems v(1) by auto
  note IH = Cons.IH [OF this, of "if ?d = 0 then q @ [?v] else q"]
  then obtain new where new: "snd (fold relax (e # es) (ind, q)) = (if ?d = 0 then q @ [?v] else q) @ new"
    "distinct new" "set new = {w \<in> to_workflow_key ` set es. base w = 0}"
    by (auto simp: step)
  have "\<exists>new. snd (fold relax (e # es) (ind, q)) = q @ new \<and> distinct new
      \<and> set new = {w \<in> to_workflow_key ` set (e # es). base w = 0}"
  proof (cases "?d = 0")
    case True
    then have "?v \<notin> set ?rest" by (simp add: count_list_0_iff)
    then show ?thesis using new True by (intro exI [of _ "?v # new"]) auto
  next
    case False
    then have "base ?v \<noteq> 0 \<or> ?v \<in> set ?rest" using count_notin by fastforce
    then show ?thesis using new False by (intro exI [of _ new]) auto
  qed
  then show ?case using IH by (simp add: step)
qed simp

definition ordered :: "(u64 \<times> u64) set \<Rightarrow> u64 list \<Rightarrow> bool" where
  "ordered E xs \<longleftrightarrow> (\<forall>as v bs. xs = as @ v # bs \<longrightarrow> E\<inverse> `` {v} \<subseteq> set as)"

lemma ordered_snoc: "ordered E (xs @ [x]) \<longleftrightarrow> ordered E xs \<and> E\<inverse> `` {x} \<subseteq> set xs"
proof
  assume o: "ordered E (xs @ [x])"
  have "ordered E xs"
    unfolding ordered_def
  proof (intro allI impI)
    fix as v bs assume "xs = as @ v # bs"
    then have "xs @ [x] = as @ v # (bs @ [x])" by simp
    then show "E\<inverse> `` {v} \<subseteq> set as" using o unfolding ordered_def by blast
  qed
  then show "ordered E xs \<and> E\<inverse> `` {x} \<subseteq> set xs" using o unfolding ordered_def by blast
next
  assume o: "ordered E xs \<and> E\<inverse> `` {x} \<subseteq> set xs"
  show "ordered E (xs @ [x])"
    unfolding ordered_def
  proof (intro allI impI)
    fix as v bs assume eq: "xs @ [x] = as @ v # bs"
    show "E\<inverse> `` {v} \<subseteq> set as"
    proof (cases bs rule: rev_cases)
      case Nil
      then show ?thesis using eq o by auto
    next
      case (snoc cs c)
      then have "xs = as @ v # cs" using eq by auto
      then show ?thesis using o unfolding ordered_def by blast
    qed
  qed
qed

definition kahn_inv :: "(u64, dependency_edge list) hash_map \<Rightarrow> (u64, nat) hash_map \<Rightarrow> u64 list \<Rightarrow> u64 list \<Rightarrow> bool" where
  "kahn_inv out ind q res \<longleftrightarrow> dom (map_of ind) = graph_nodes out
     \<and> (\<forall>v\<in>graph_nodes out. map_of ind v = Some (open_arcs out res v))
     \<and> distinct (res @ q) \<and> set (res @ q) = {v \<in> graph_nodes out. open_arcs out res v = 0}
     \<and> ordered (edge_rel out) res"

lemma open_arcs_snoc: "n \<notin> set res \<Longrightarrow> open_arcs out res v = open_arcs out (res @ [n]) v + arcs out n v"
proof -
  assume "n \<notin> set res"
  then have "- set res = insert n (- set (res @ [n]))" by auto
  then show ?thesis by (simp add: open_arcs_def)
qed

lemma kahn_step:
  fixes out :: "(u64, dependency_edge list) hash_map"
  assumes inv: "kahn_inv out ind (n # q) res"
  shows "kahn_inv out (fst (fold relax (get_or out n []) (ind, q)))
    (snd (fold relax (get_or out n []) (ind, q))) (res @ [n])"
proof -
  let ?D = "graph_nodes out" and ?es = "get_or out n []" and ?base = "open_arcs out (res @ [n])"
  let ?ind = "fst (fold relax ?es (ind, q))" and ?q = "snd (fold relax ?es (ind, q))"
  have n: "n \<notin> set res" "n \<in> ?D" "open_arcs out res n = 0" and dq: "distinct (res @ n # q)"
    and zero: "set (res @ n # q) = {v \<in> ?D. open_arcs out res v = 0}"
    and ord: "ordered (edge_rel out) res"
    using inv by (auto simp: kahn_inv_def)
  have targets: "to_workflow_key ` set ?es = {v. 0 < arcs out n v}"
    by (auto simp: arcs_edge_rel edge_rel_def)
  have "\<forall>v\<in>?D. map_of ind v = Some (?base v + count_list (map to_workflow_key ?es) v)"
    using inv open_arcs_snoc [OF n(1), of out] by (simp add: kahn_inv_def arcs_def)
  moreover have "dom (map_of ind) = ?D" using inv by (simp add: kahn_inv_def)
  moreover have "to_workflow_key ` set ?es \<subseteq> ?D"
    unfolding targets by (auto simp: arcs_edge_rel graph_nodes_def)
  ultimately obtain new where spec: "dom (map_of ?ind) = ?D" "\<forall>v\<in>?D. map_of ?ind v = Some (?base v)"
    and new: "?q = q @ new" "distinct new" "set new = {v. 0 < arcs out n v \<and> ?base v = 0}"
    using relax_edges [of ?D ind ?base ?es q] unfolding targets by auto
  have split: "open_arcs out res v = 0 \<longleftrightarrow> ?base v = 0 \<and> arcs out n v = 0" for v
    using open_arcs_snoc [OF n(1), of out v] by simp
  have "set new \<subseteq> ?D" using new(3) by (auto simp: arcs_edge_rel graph_nodes_def)
  then have set: "set (res @ [n] @ ?q) = {v \<in> ?D. ?base v = 0}"
    using zero new(1,3) split by (auto simp: set_eq_iff)
  have "set new \<inter> set (res @ n # q) = {}" unfolding zero new(3) split by auto
  then have dist: "distinct ((res @ [n]) @ ?q)" using dq new(1,2) by auto
  have "(edge_rel out)\<inverse> `` {n} \<subseteq> set res"
  proof
    fix x assume "x \<in> (edge_rel out)\<inverse> `` {n}"
    then have "arcs out x n \<noteq> 0" using arcs_edge_rel [of out x n] by simp
    moreover have "\<forall>u\<in>- set res. arcs out u n = 0" using n(3) by (simp add: open_arcs_def)
    ultimately show "x \<in> set res" by (metis ComplI)
  qed
  then show ?thesis
    using spec set dist ord by (simp add: kahn_inv_def ordered_snoc)
qed

lemma kahn_loop_returns:
  assumes "kahn_inv out ind q res"
  shows "\<exists>ind' res'. kahn_loop out ind q res = Some res' \<and> kahn_inv out ind' [] res'"
  using assms
proof (induction "card (graph_nodes out - set res)" arbitrary: ind q res rule: less_induct)
  case less
  show ?case
  proof (cases q)
    case Nil
    then show ?thesis using less.prems by (auto simp: kahn_loop.simps)
  next
    case (Cons n q')
    have n: "n \<in> graph_nodes out" "n \<notin> set res"
      using less.prems Cons by (auto simp: kahn_inv_def)
    have "card (graph_nodes out - set (res @ [n])) < card (graph_nodes out - set res)"
      by (intro psubset_card_mono) (use n in auto)
    from less.hyps [OF this kahn_step [OF less.prems [unfolded Cons]]]
    show ?thesis unfolding Cons by (simp add: kahn_loop.simps [of out ind "n # q'" res])
  qed
qed

lemma kahn_inv_start:
  assumes "hm_wf out"
  shows "kahn_inv out (in_degrees out) (map fst (filter (\<lambda>(_, deg). deg = 0) (in_degrees out))) []"
proof -
  let ?ind = "in_degrees out"
  have wf: "hm_wf ?ind" by (rule in_degrees_spec [OF assms])
  have queued: "v \<in> set (map fst (filter (\<lambda>(_, deg). deg = 0) ?ind)) \<longleftrightarrow> map_of ?ind v = Some 0" for v
    using wf by (force simp: map_of_eq_Some_iff)
  have "set (map fst (filter (\<lambda>(_, deg). deg = 0) ?ind)) = {v \<in> graph_nodes out. open_arcs out [] v = 0}"
  proof (intro set_eqI iffI)
    fix v assume "v \<in> set (map fst (filter (\<lambda>(_, deg). deg = 0) ?ind))"
    then have v: "map_of ?ind v = Some 0" using queued by blast
    then have "v \<in> graph_nodes out" using in_degrees_spec(2) [OF assms] by blast
    then show "v \<in> {v \<in> graph_nodes out. open_arcs out [] v = 0}"
      using in_degrees_spec(3) [OF assms, of v] v by simp
  next
    fix v assume "v \<in> {v \<in> graph_nodes out. open_arcs out [] v = 0}"
    then have "map_of ?ind v = Some 0" using in_degrees_spec(3) [OF assms, of v] by simp
    then show "v \<in> set (map fst (filter (\<lambda>(_, deg). deg = 0) ?ind))" using queued by blast
  qed
  then show ?thesis
    using in_degrees_spec [OF assms] wf
    by (simp add: kahn_inv_def ordered_def distinct_map_filter)
qed

text \<open>An order that lists every node after all its predecessors rules cycles out.\<close>

lemma ordered_acyclic:
  assumes "ordered E xs" and "Range E \<subseteq> set xs" and "distinct xs"
  shows "acyclic E"
proof -
  define pos where "pos v = length (takeWhile (\<lambda>w. w \<noteq> v) xs)" for v
  have "pos a < pos b" if "(a, b) \<in> E" for a b
  proof -
    have "b \<in> set xs" using that assms(2) by auto
    then obtain as bs where xs: "xs = as @ b # bs" by (meson split_list)
    then have "a \<in> set as" using assms(1) that unfolding ordered_def by blast
    then obtain cs ds where "as = cs @ a # ds" by (meson split_list)
    then have xs': "xs = cs @ a # ds @ b # bs" using xs by simp
    then have "pos a = length cs" "pos b = length as"
      using assms(3) unfolding pos_def by (auto simp: takeWhile_append xs xs' \<open>as = _\<close>)
    then show ?thesis using \<open>as = _\<close> by simp
  qed
  then have "E \<subseteq> measure pos" by auto
  then show ?thesis using wf_acyclic [OF wf_measure] acyclic_subset by blast
qed

lemma kahn_end:
  assumes "kahn_inv out ind [] res" and "set res \<noteq> graph_nodes out"
  shows "\<not> acyclic (edge_rel out)"
proof
  let ?E = "edge_rel out" and ?M = "graph_nodes out - set res"
  assume "acyclic ?E"
  then have "wf ?E" by (intro finite_acyclic_wf) simp_all
  have "set res \<subseteq> graph_nodes out" and zero: "\<And>v. v \<in> graph_nodes out \<Longrightarrow> open_arcs out res v = 0 \<Longrightarrow> v \<in> set res"
    using assms(1) by (auto simp: kahn_inv_def)
  then have "?M \<noteq> {}" using assms(2) by auto
  then obtain z where z: "z \<in> ?M" "\<And>y. (y, z) \<in> ?E \<Longrightarrow> y \<notin> ?M"
    using wfE_min [OF \<open>wf ?E\<close>, of _ ?M] by (metis ex_in_conv)
  then have "open_arcs out res z \<noteq> 0" using zero by auto
  then obtain u where "u \<notin> set res" "0 < arcs out u z"
    by (auto simp: open_arcs_def)
  moreover from this have "u \<in> graph_nodes out"
    using edge_rel_sources [of u z out] by (auto simp: arcs_edge_rel graph_nodes_def)
  ultimately show False using z(2) [of u] by (simp add: arcs_edge_rel)
qed

lemma topological_sort_spec:
  assumes "hm_wf (outgoing g)"
  shows "case topological_sort g of
    None \<Rightarrow> False
  | Some None \<Rightarrow> \<not> acyclic (depends g)
  | Some (Some order) \<Rightarrow> acyclic (depends g) \<and> distinct order
      \<and> set order = graph_nodes (outgoing g) \<and> ordered (depends g) order"
proof -
  let ?out = "outgoing g" and ?ind = "in_degrees (outgoing g)"
  obtain ind res where res: "kahn_loop ?out ?ind (map fst (filter (\<lambda>(_, deg). deg = 0) ?ind)) [] = Some res"
    and inv: "kahn_inv ?out ind [] res"
    using kahn_loop_returns [OF kahn_inv_start [OF assms]] by blast
  have sub: "set res \<subseteq> graph_nodes ?out" "distinct res" "ordered (depends g) res"
    using inv by (auto simp: kahn_inv_def)
  have "length ?ind = card (graph_nodes ?out)"
    using in_degrees_spec(1,2) [OF assms] by (simp add: hm_length)
  then have full: "length res = length ?ind \<longleftrightarrow> set res = graph_nodes ?out"
    using sub card_subset_eq [OF _ sub(1)] by (auto simp: distinct_card simp flip: distinct_card)
  have top: "topological_sort g = Some (if set res = graph_nodes ?out then Some res else None)"
    unfolding topological_sort_def Let_def res by (simp add: full)
  show ?thesis
  proof (cases "set res = graph_nodes ?out")
    case True
    then have "Range (depends g) \<subseteq> set res" by (auto simp: graph_nodes_def)
    then show ?thesis using True sub ordered_acyclic [OF sub(3)] by (simp add: top)
  next
    case False
    then show ?thesis using kahn_end [OF inv] by (simp add: top)
  qed
qed

section \<open>Properties\<close>

text \<open>
  C26.  On every graph the operations can build, the topological sort ends; when it returns an
  order, the order lists every workflow of the graph once and after all those that point to
  it, and when it returns none the graph has a cycle.
\<close>

theorem topological_sort_correct:
  assumes "graph_reach g"
  shows "case topological_sort g of
    None \<Rightarrow> False
  | Some None \<Rightarrow> \<not> acyclic (depends g)
  | Some (Some order) \<Rightarrow> acyclic (depends g) \<and> distinct order
      \<and> set order = graph_nodes (outgoing g) \<and> ordered (depends g) order"
proof -
  have "hm_wf (outgoing g)" using graph_reach_wf [OF assms] by (simp add: graph_wf_def)
  then show ?thesis by (rule topological_sort_spec)
qed

theorem topological_sort_correct_witness:
  "let g = add_dependency (add_dependency Graph_new 7 8 ParentChild None 0) 9 7 SagaStep None 0
   in ordered (depends g) [9, 7, 8]"
proof -
  let ?g = "add_dependency (add_dependency Graph_new 7 8 ParentChild None 0) 9 7 SagaStep None 0"
  have "graph_reach ?g" by (intro graph_reach.intros)
  moreover have "topological_sort ?g = Some (Some [9, 7, 8])" by code_simp
  ultimately show ?thesis using topological_sort_correct [of ?g] by (simp add: Let_def)
qed

text \<open>
  The two ways of asking whether the graph has cycles agree: the topological sort finds
  an order exactly when the cycle search reports nothing.
\<close>

theorem sort_agrees_with_cycle_search:
  assumes "graph_reach g"
  shows "(\<exists>order. topological_sort g = Some (Some order)) \<longleftrightarrow> detect_cycles g = Inr []"
proof -
  have "hm_wf (outgoing g)" using graph_reach_wf [OF assms] by (simp add: graph_wf_def)
  from topological_sort_spec [OF this] have "(\<exists>order. topological_sort g = Some (Some order)) \<longleftrightarrow> acyclic (depends g)"
    by (auto split: option.splits)
  then show ?thesis using detect_cycles_spec [of g] by auto
qed

theorem sort_agrees_with_cycle_search_witness:
  "let g = add_dependency (add_dependency Graph_new 7 8 ParentChild None 0) 9 7 SagaStep None 0
   in detect_cycles g = Inr []"
proof -
  let ?g = "add_dependency (add_dependency Graph_new 7 8 ParentChild None 0) 9 7 SagaStep None 0"
  have "graph_reach ?g" by (intro graph_reach.intros)
  moreover have "topological_sort ?g = Some (Some [9, 7, 8])" by code_simp
  ultimately show ?thesis using sort_agrees_with_cycle_search [of ?g] by (simp add: Let_def)
qed

end
