(* ===== verification/Raft.thy ===== *)
theory Raft
  imports Hash_Map
begin

text \<open>
  The in-memory Raft node and the cluster of \<open>raft_consensus.rs\<close>.  An \<open>Instant\<close> is a number of
  nanoseconds and every reading of the clock is an argument; a \<open>Duration\<close> from milliseconds
  is that many million of them.  The lengths of vectors are natural numbers, converted to
  \<open>u64\<close> where the code does.
\<close>

section \<open>Data\<close>

datatype raft_state = Follower | Candidate | Leader

datatype raft_event_type = RWorkflowStarted | RStepCompleted | RActivityScheduled | RActivityCompleted
  | RTimerScheduled | RTimerFired | RSignalReceived | RWorkflowCompleted | RWorkflowFailed | RWorkflowCanceled

record raft_log_entry =
  rl_term :: u64
  rl_index :: u64
  rl_workflow_key :: u64
  rl_event_type :: raft_event_type
  rl_payload :: bytes
  rl_timestamp_ms :: u64
  rl_committed :: bool

record raft_config =
  node_id :: u64
  election_timeout_min_ms :: u64
  election_timeout_max_ms :: u64
  heartbeat_interval_ms :: u64
  snapshot_threshold :: u64
  defer_persistence :: bool
  persistence_batch_size :: u64

definition RaftConfig_default :: raft_config where
  "RaftConfig_default = \<lparr>node_id = 0, election_timeout_min_ms = 150, election_timeout_max_ms = 300,
     heartbeat_interval_ms = 50, snapshot_threshold = 10000, defer_persistence = True,
     persistence_batch_size = 1000\<rparr>"

record raft_stats =
  st_current_term :: u64
  st_commit_index :: u64
  st_last_applied :: u64
  st_log_length :: u64
  elections_won :: u64
  entries_committed :: u64
  entries_applied :: u64
  snapshots_taken :: u64
  deferred_flushes :: u64

definition RaftStats_default :: raft_stats where
  "RaftStats_default = \<lparr>st_current_term = 0, st_commit_index = 0, st_last_applied = 0,
     st_log_length = 0, elections_won = 0, entries_committed = 0, entries_applied = 0,
     snapshots_taken = 0, deferred_flushes = 0\<rparr>"

record raft_node =
  rn_config :: raft_config
  rn_state :: raft_state
  current_term :: u64
  voted_for :: "u64 option"
  rn_log :: "raft_log_entry list"
  commit_index :: u64
  last_applied :: u64
  next_index :: "(u64, u64) hash_map"
  match_index :: "(u64, u64) hash_map"
  peers :: "u64 list"
  last_heartbeat :: instant
  election_deadline :: instant
  pending_flush :: "u64 list"
  total_flushed :: u64
  rn_stats :: raft_stats

section \<open>Operations of a node\<close>

definition RaftNode_new :: "raft_config \<Rightarrow> instant \<Rightarrow> raft_node" where
  "RaftNode_new config now =
     (let election_timeout = from_millis (election_timeout_min_ms config + node_id config mod 50)
      in \<lparr>rn_config = config, rn_state = Follower, current_term = 0, voted_for = None, rn_log = [],
          commit_index = 0, last_applied = 0, next_index = [], match_index = [], peers = [],
          last_heartbeat = now, election_deadline = now + election_timeout, pending_flush = [],
          total_flushed = 0, rn_stats = RaftStats_default\<rparr>)"

definition log_len :: "raft_node \<Rightarrow> u64" where
  "log_len n = word_of_nat (length (rn_log n))"

definition add_peer :: "raft_node \<Rightarrow> u64 \<Rightarrow> raft_node" where
  "add_peer n p =
     (if p \<notin> set (peers n) \<and> p \<noteq> node_id (rn_config n)
      then n\<lparr>peers := peers n @ [p], next_index := hm_insert (next_index n) p (log_len n + 1),
             match_index := hm_insert (match_index n) p 0\<rparr>
      else n)"

definition remove_peer :: "raft_node \<Rightarrow> u64 \<Rightarrow> raft_node" where
  "remove_peer n p = n\<lparr>peers := filter (\<lambda>q. q \<noteq> p) (peers n),
     next_index := hm_remove (next_index n) p, match_index := hm_remove (match_index n) p\<rparr>"

text \<open>The remainder by a span of zero milliseconds, which wraps around, panics.\<close>

definition election_timeout :: "raft_config \<Rightarrow> panic + nat" where
  "election_timeout c =
     (let span = election_timeout_max_ms c - election_timeout_min_ms c + 1
      in if span = 0 then Inl RemZeroPanic
         else Inr (from_millis (election_timeout_min_ms c + node_id c * 37 mod span)))"

definition start_election :: "raft_node \<Rightarrow> instant \<Rightarrow> panic + raft_node \<times> bool" where
  "start_election n now =
     (if rn_state n = Leader then Inr (n, False)
      else let n = n\<lparr>current_term := current_term n + 1, rn_state := Candidate,
                     voted_for := Some (node_id (rn_config n))\<rparr>
           in case election_timeout (rn_config n) of
                Inl p \<Rightarrow> Inl p
              | Inr timeout \<Rightarrow>
                  Inr (n\<lparr>election_deadline := now + timeout,
                         rn_stats := (rn_stats n)\<lparr>elections_won := elections_won (rn_stats n) + 1\<rparr>\<rparr>, True))"

definition become_leader :: "raft_node \<Rightarrow> raft_node" where
  "become_leader n =
     (let n = n\<lparr>rn_state := Leader\<rparr>; next_idx = log_len n + 1
      in fold (\<lambda>p n. n\<lparr>next_index := hm_insert (next_index n) p next_idx,
                       match_index := hm_insert (match_index n) p 0\<rparr>) (peers n) n)"

definition append_entry ::
    "raft_node \<Rightarrow> u64 \<Rightarrow> raft_event_type \<Rightarrow> bytes \<Rightarrow> raft_node \<times> u64 option" where
  "append_entry n key typ payload =
     (if rn_state n \<noteq> Leader then (n, None)
      else let idx = log_len n + 1;
               entry = \<lparr>rl_term = current_term n, rl_index = idx, rl_workflow_key = key,
                        rl_event_type = typ, rl_payload = payload, rl_timestamp_ms = 0,
                        rl_committed = False\<rparr>;
               n = n\<lparr>rn_log := rn_log n @ [entry]\<rparr>;
               n = (if defer_persistence (rn_config n)
                    then n\<lparr>pending_flush := pending_flush n @ [idx]\<rparr> else n);
               n = (if peers n = []
                    then n\<lparr>commit_index := idx,
                           rn_log := butlast (rn_log n) @ [(last (rn_log n))\<lparr>rl_committed := True\<rparr>],
                           rn_stats := (rn_stats n)\<lparr>entries_committed := entries_committed (rn_stats n) + 1\<rparr>\<rparr>
                    else n)
           in (n, Some idx))"

definition mark_committed :: "nat \<Rightarrow> raft_log_entry list \<Rightarrow> raft_log_entry list" where
  "mark_committed i l = (if i < length l then l[i := (l ! i)\<lparr>rl_committed := True\<rparr>] else l)"

definition advance_commit :: "raft_node \<Rightarrow> u64 \<Rightarrow> raft_node" where
  "advance_commit n new_commit_index =
     (if new_commit_index > commit_index n \<and> new_commit_index \<le> log_len n
      then n\<lparr>rn_log := fold mark_committed [unat (commit_index n)..<unat new_commit_index] (rn_log n),
             rn_stats := (rn_stats n)\<lparr>entries_committed :=
               entries_committed (rn_stats n) + (new_commit_index - commit_index n)\<rparr>,
             commit_index := new_commit_index\<rparr>
      else n)"

text \<open>The loop of \<open>apply_committed\<close>, with the entries applied so far.\<close>

function apply_loop :: "raft_node \<Rightarrow> raft_log_entry list \<Rightarrow> raft_node \<times> raft_log_entry list" where
  "apply_loop n applied =
     (if last_applied n < commit_index n
      then let n = n\<lparr>last_applied := last_applied n + 1\<rparr>; i = unat (last_applied n) - 1
           in if i < length (rn_log n)
              then apply_loop (n\<lparr>rn_stats := (rn_stats n)
                       \<lparr>entries_applied := entries_applied (rn_stats n) + 1\<rparr>\<rparr>) (applied @ [rn_log n ! i])
              else apply_loop n applied
      else (n, applied))"
  by pat_completeness auto
termination
proof (relation "measure (\<lambda>(n, _). unat (commit_index n) - unat (last_applied n))")
  have dec: "unat c - unat (l + 1) < unat c - unat l" if "l < c" for l c :: u64
  proof -
    have "unat l < unat c" using that by (simp add: word_less_nat_alt)
    moreover from this have "unat (l + 1) = Suc (unat l)"
      using unat_less_exp [of c] by (simp add: unat_word_ariths)
    ultimately show ?thesis by simp
  qed
  fix n m :: raft_node and applied :: "raft_log_entry list" and i
  assume "last_applied n < commit_index n" "m = n\<lparr>last_applied := last_applied n + 1\<rparr>"
  then show "((m\<lparr>rn_stats := (rn_stats m)\<lparr>entries_applied := entries_applied (rn_stats m) + 1\<rparr>\<rparr>,
        applied @ [rn_log m ! i]), n, applied)
      \<in> measure (\<lambda>(n, _). unat (commit_index n) - unat (last_applied n))"
    and "((m, applied), n, applied) \<in> measure (\<lambda>(n, _). unat (commit_index n) - unat (last_applied n))"
    using dec by simp_all
qed simp

declare apply_loop.simps [simp del]

definition apply_committed :: "raft_node \<Rightarrow> raft_node \<times> raft_log_entry list" where
  "apply_committed n = apply_loop n []"

fun flush_loop :: "nat \<Rightarrow> raft_node \<Rightarrow> u64 \<Rightarrow> raft_node \<times> u64" where
  "flush_loop 0 n flushed = (n, flushed)"
| "flush_loop (Suc k) n flushed =
     (case pending_flush n of
        [] \<Rightarrow> flush_loop k n flushed
      | _ # rest \<Rightarrow> flush_loop k (n\<lparr>pending_flush := rest, total_flushed := total_flushed n + 1\<rparr>) (flushed + 1))"

definition flush_pending :: "raft_node \<Rightarrow> raft_node \<times> u64" where
  "flush_pending n =
     (let batch_size = unat (persistence_batch_size (rn_config n));
          to_flush = min (length (pending_flush n)) batch_size;
          (n, flushed) = flush_loop to_flush n 0
      in (n\<lparr>rn_stats := (rn_stats n)\<lparr>deferred_flushes := deferred_flushes (rn_stats n) + 1\<rparr>\<rparr>, flushed))"

definition take_snapshot :: "raft_node \<Rightarrow> raft_node \<times> u64" where
  "take_snapshot n =
     (if last_applied n = 0 then (n, 0)
      else let snapshot_index = last_applied n;
               entries_to_remove = length (takeWhile (\<lambda>e. rl_index e \<le> snapshot_index) (rn_log n))
           in (n\<lparr>rn_log := drop entries_to_remove (rn_log n),
                 rn_stats := (rn_stats n)\<lparr>snapshots_taken := snapshots_taken (rn_stats n) + 1\<rparr>\<rparr>,
               snapshot_index))"

definition check_election_timeout :: "raft_node \<Rightarrow> instant \<Rightarrow> bool" where
  "check_election_timeout n now \<longleftrightarrow> rn_state n \<noteq> Leader \<and> now \<ge> election_deadline n"

definition reset_election_timer :: "raft_node \<Rightarrow> instant \<Rightarrow> panic + raft_node" where
  "reset_election_timer n now =
     (case election_timeout (rn_config n) of
        Inl p \<Rightarrow> Inl p
      | Inr timeout \<Rightarrow> Inr (n\<lparr>election_deadline := now + timeout\<rparr>))"

definition heartbeat_for ::
    "u64 \<Rightarrow> raft_node \<times> (u64 \<times> raft_log_entry list) list \<Rightarrow> raft_node \<times> (u64 \<times> raft_log_entry list) list" where
  "heartbeat_for p s = (case s of (n, heartbeats) \<Rightarrow>
     let next = get_or (next_index n) p 1;
         entries = filter (\<lambda>e. rl_index e \<ge> next) (rn_log n)
     in if entries \<noteq> []
        then (n\<lparr>match_index := hm_insert (match_index n) p (rl_index (last entries)),
                next_index := hm_insert (next_index n) p (rl_index (last entries) + 1)\<rparr>,
              heartbeats @ [(p, entries)])
        else (n, heartbeats))"

definition prepare_heartbeats :: "raft_node \<Rightarrow> instant \<Rightarrow> raft_node \<times> (u64 \<times> raft_log_entry list) list" where
  "prepare_heartbeats n now =
     (if rn_state n \<noteq> Leader then (n, [])
      else let n = n\<lparr>last_heartbeat := now\<rparr> in fold heartbeat_for (peers n) (n, []))"

definition RaftNode_stats :: "raft_node \<Rightarrow> raft_stats" where
  "RaftNode_stats n = (rn_stats n)\<lparr>st_current_term := current_term n, st_commit_index := commit_index n,
     st_last_applied := last_applied n, st_log_length := log_len n\<rparr>"

section \<open>The cluster\<close>

record raft_cluster =
  cl_nodes :: "(u64, raft_node) hash_map"
  next_group_id :: u64

definition RaftCluster_new :: raft_cluster where
  "RaftCluster_new = \<lparr>cl_nodes = [], next_group_id = 0\<rparr>"

definition create_group :: "raft_cluster \<Rightarrow> raft_config \<Rightarrow> instant \<Rightarrow> raft_cluster \<times> u64" where
  "create_group c cfg now =
     (let group_id = next_group_id c
      in (c\<lparr>next_group_id := next_group_id c + 1,
            cl_nodes := hm_insert (cl_nodes c) group_id (RaftNode_new cfg now)\<rparr>, group_id))"

definition remove_group :: "raft_cluster \<Rightarrow> u64 \<Rightarrow> raft_cluster \<times> bool" where
  "remove_group c gid = (c\<lparr>cl_nodes := hm_remove (cl_nodes c) gid\<rparr>, map_of (cl_nodes c) gid \<noteq> None)"

definition add_stats :: "raft_stats \<Rightarrow> raft_stats \<Rightarrow> raft_stats" where
  "add_stats s t = \<lparr>st_current_term = max (st_current_term t) (st_current_term s),
     st_commit_index = st_commit_index t + st_commit_index s,
     st_last_applied = st_last_applied t + st_last_applied s,
     st_log_length = st_log_length t + st_log_length s,
     elections_won = elections_won t + elections_won s,
     entries_committed = entries_committed t + entries_committed s,
     entries_applied = entries_applied t + entries_applied s,
     snapshots_taken = snapshots_taken t + snapshots_taken s,
     deferred_flushes = deferred_flushes t + deferred_flushes s\<rparr>"

definition aggregate_stats :: "raft_cluster \<Rightarrow> raft_stats" where
  "aggregate_stats c = fold (\<lambda>(_, n). add_stats (RaftNode_stats n)) (cl_nodes c) RaftStats_default"

section \<open>Runs of a node\<close>

datatype raft_op = AddPeer u64 | RemovePeer u64 | StartElection instant | BecomeLeader
  | AppendEntry u64 raft_event_type bytes | AdvanceCommit u64 | ApplyCommitted | FlushPending
  | TakeSnapshot | ResetElectionTimer instant | PrepareHeartbeats instant

text \<open>One operation, with the entries it hands to the state machine.\<close>

fun raft_apply :: "raft_op \<Rightarrow> raft_node \<Rightarrow> panic + raft_node \<times> raft_log_entry list" where
  "raft_apply (AddPeer p) n = Inr (add_peer n p, [])"
| "raft_apply (RemovePeer p) n = Inr (remove_peer n p, [])"
| "raft_apply (StartElection now) n =
     (case start_election n now of Inl e \<Rightarrow> Inl e | Inr (n', _) \<Rightarrow> Inr (n', []))"
| "raft_apply BecomeLeader n = Inr (become_leader n, [])"
| "raft_apply (AppendEntry k t p) n = Inr (fst (append_entry n k t p), [])"
| "raft_apply (AdvanceCommit i) n = Inr (advance_commit n i, [])"
| "raft_apply ApplyCommitted n = Inr (apply_committed n)"
| "raft_apply FlushPending n = Inr (fst (flush_pending n), [])"
| "raft_apply TakeSnapshot n = Inr (fst (take_snapshot n), [])"
| "raft_apply (ResetElectionTimer now) n =
     (case reset_election_timer n now of Inl e \<Rightarrow> Inl e | Inr n' \<Rightarrow> Inr (n', []))"
| "raft_apply (PrepareHeartbeats now) n = Inr (fst (prepare_heartbeats n now), [])"

fun raft_run :: "raft_op list \<Rightarrow> raft_node \<Rightarrow> panic + raft_node \<times> raft_log_entry list" where
  "raft_run [] n = Inr (n, [])"
| "raft_run (op # ops) n =
     (case raft_apply op n of
        Inl e \<Rightarrow> Inl e
      | Inr (n', out) \<Rightarrow>
          (case raft_run ops n' of Inl e \<Rightarrow> Inl e | Inr (n'', out') \<Rightarrow> Inr (n'', out @ out')))"

text \<open>
  As long as no snapshot is taken, entries sit at the position their index says, what is
  applied is committed and what is committed is in the log.
\<close>

definition raft_inv :: "raft_node \<Rightarrow> bool" where
  "raft_inv n \<longleftrightarrow> map rl_index (rn_log n) = map word_of_nat [1..<Suc (length (rn_log n))]
     \<and> unat (commit_index n) \<le> length (rn_log n) \<and> last_applied n \<le> commit_index n"

lemma raft_inv_new [velocity_wf]: "raft_inv (RaftNode_new cfg now)"
  by (simp add: raft_inv_def RaftNode_new_def Let_def)

definition raft_core :: "raft_node \<Rightarrow> raft_log_entry list \<times> u64 \<times> u64 \<times> raft_config" where
  "raft_core n = (rn_log n, commit_index n, last_applied n, rn_config n)"

lemma raft_inv_core: "raft_core n = raft_core m \<Longrightarrow> raft_inv n = raft_inv m"
  by (simp add: raft_core_def raft_inv_def)

lemma become_leader_core: "raft_core (become_leader n) = raft_core n"
proof -
  have "raft_core (fold (\<lambda>p n. n\<lparr>next_index := hm_insert (next_index n) p i,
      match_index := hm_insert (match_index n) p 0\<rparr>) ps n) = raft_core n" for ps i n
    by (induction ps arbitrary: n) (simp_all add: raft_core_def)
  then show ?thesis by (simp add: become_leader_def Let_def) (simp add: raft_core_def)
qed

lemma flush_core: "raft_core (fst (flush_pending n)) = raft_core n"
proof -
  have "raft_core (fst (flush_loop k n f)) = raft_core n" for k n f
    by (induction k n f rule: flush_loop.induct) (simp_all add: raft_core_def split: list.split)
  then show ?thesis by (simp add: flush_pending_def Let_def case_prod_beta raft_core_def)
qed

lemma heartbeats_core: "raft_core (fst (prepare_heartbeats n now)) = raft_core n"
proof -
  have "raft_core (fst (heartbeat_for p s)) = raft_core (fst s)" for p s
    by (simp add: heartbeat_for_def Let_def case_prod_beta raft_core_def)
  then have "raft_core (fst (fold heartbeat_for ps s)) = raft_core (fst s)" for ps s
    by (induction ps arbitrary: s) simp_all
  then show ?thesis by (simp add: prepare_heartbeats_def Let_def raft_core_def)
qed

fun touches_log :: "raft_op \<Rightarrow> bool" where
  "touches_log (AppendEntry _ _ _) = True"
| "touches_log (AdvanceCommit _) = True"
| "touches_log ApplyCommitted = True"
| "touches_log TakeSnapshot = True"
| "touches_log _ = False"

lemma raft_apply_core:
  "\<not> touches_log op \<Longrightarrow> raft_apply op n = Inr (n', out) \<Longrightarrow> raft_core n' = raft_core n \<and> out = []"
  by (cases op)
    (use become_leader_core [of n] flush_core [of n] heartbeats_core [of n]
      in \<open>auto simp: add_peer_def remove_peer_def
      start_election_def reset_election_timer_def Let_def raft_core_def split: sum.splits if_splits\<close>)

lemma raft_apply_no_panic:
  assumes "election_timeout_max_ms (rn_config n) - election_timeout_min_ms (rn_config n) + 1 \<noteq> 0"
  shows "\<exists>n' out. raft_apply op n = Inr (n', out)"
  using assms
  by (cases op) (auto simp: start_election_def reset_election_timer_def election_timeout_def Let_def
      apply_committed_def)

lemma apply_loop_spec:
  assumes "last_applied n \<le> commit_index n" and "unat (commit_index n) \<le> length (rn_log n)"
  shows "raft_core (fst (apply_loop n out)) = (rn_log n, commit_index n, commit_index n, rn_config n)
    \<and> snd (apply_loop n out) = out @ drop (unat (last_applied n)) (take (unat (commit_index n)) (rn_log n))"
  using assms
proof (induction n out rule: apply_loop.induct)
  case (1 n out)
  show ?case
  proof (cases "last_applied n < commit_index n")
    case True
    then have lt: "unat (last_applied n) < unat (commit_index n)" by (simp add: word_less_nat_alt)
    then have inc: "unat (last_applied n + 1) = Suc (unat (last_applied n))"
      using unat_less_exp [of "commit_index n"] by (simp add: unat_word_ariths)
    then have le: "last_applied n + 1 \<le> commit_index n" using lt by (simp add: word_le_nat_alt)
    have i: "unat (last_applied n) < length (rn_log n)" using lt "1.prems"(2) by simp
    have drop: "drop (unat (last_applied n)) (take (unat (commit_index n)) (rn_log n))
        = rn_log n ! unat (last_applied n)
          # drop (Suc (unat (last_applied n))) (take (unat (commit_index n)) (rn_log n))"
      using lt i by (subst Cons_nth_drop_Suc [symmetric]) simp_all
    show ?thesis
      using "1.IH"(1) [OF True refl refl] "1.prems" True i le drop
      by (simp add: apply_loop.simps [of n out] Let_def inc raft_core_def)
  next
    case False
    then have "last_applied n = commit_index n" using "1.prems"(1) by simp
    then show ?thesis using False by (simp add: apply_loop.simps [of n out] raft_core_def)
  qed
qed

lemma mark_committed_spec:
  "length (fold mark_committed is l) = length l"
  "i \<notin> set is \<Longrightarrow> i < length l \<Longrightarrow> fold mark_committed is l ! i = l ! i"
  "map rl_index (fold mark_committed is l) = map rl_index l"
proof -
  show len: "length (fold mark_committed is l) = length l" for "is" l
    by (induction "is" arbitrary: l) (simp_all add: mark_committed_def)
  show "i \<notin> set is \<Longrightarrow> i < length l \<Longrightarrow> fold mark_committed is l ! i = l ! i"
    by (induction "is" arbitrary: l) (auto simp: mark_committed_def)
  show "map rl_index (fold mark_committed is l) = map rl_index l"
  proof (induction "is" arbitrary: l)
    case (Cons j js)
    have "map rl_index (mark_committed j l) = map rl_index l"
      by (auto simp: mark_committed_def map_update list_update_same_conv)
    then show ?case using Cons by simp
  qed simp
qed

definition raft_step_ok :: "raft_node \<Rightarrow> raft_node \<Rightarrow> raft_log_entry list \<Rightarrow> bool" where
  "raft_step_ok n n' out \<longleftrightarrow> raft_inv n' \<and> rn_config n' = rn_config n
     \<and> length (rn_log n') \<le> Suc (length (rn_log n))
     \<and> take (unat (last_applied n')) (rn_log n') = take (unat (last_applied n)) (rn_log n) @ out"

lemma append_entry_ok:
  assumes inv: "raft_inv n" and room: "Suc (length (rn_log n)) < 2 ^ 64"
  shows "raft_step_ok n (fst (append_entry n k t p)) []"
proof -
  have idx: "unat (log_len n + 1) = Suc (length (rn_log n))"
    using room by (simp add: log_len_def unat_word_ariths unat_of_nat)
  have idx': "log_len n + 1 = word_of_nat (Suc (length (rn_log n)))"
    by (simp add: log_len_def add.commute)
  have la: "unat (last_applied n) \<le> length (rn_log n)"
    using inv by (simp add: raft_inv_def word_le_nat_alt)
  then have "last_applied n \<le> log_len n + 1" by (simp add: word_le_nat_alt idx)
  then show ?thesis
    using inv la idx by (auto simp: raft_step_ok_def raft_inv_def append_entry_def Let_def idx')
qed

lemma advance_commit_ok:
  assumes inv: "raft_inv n" and room: "Suc (length (rn_log n)) < 2 ^ 64"
  shows "raft_step_ok n (advance_commit n c) []"
proof (cases "c > commit_index n \<and> c \<le> log_len n")
  case True
  let ?l = "fold mark_committed [unat (commit_index n)..<unat c] (rn_log n)"
  have c: "unat c \<le> length (rn_log n)"
    using True room by (simp add: log_len_def word_le_nat_alt unat_of_nat)
  have la: "last_applied n \<le> commit_index n" "unat (commit_index n) \<le> length (rn_log n)"
    using inv by (simp_all add: raft_inv_def)
  have "take (unat (last_applied n)) ?l = take (unat (last_applied n)) (rn_log n)"
    using la by (intro nth_equalityI) (auto simp: mark_committed_spec word_le_nat_alt)
  moreover have "last_applied n \<le> c" using la(1) True by (meson order.strict_implies_order order.trans)
  ultimately show ?thesis
    using inv c True by (simp add: raft_step_ok_def raft_inv_def advance_commit_def mark_committed_spec)
next
  case False
  then have "advance_commit n c = n" by (auto simp: advance_commit_def)
  then show ?thesis using inv by (simp add: raft_step_ok_def)
qed

lemma apply_committed_ok:
  assumes "raft_inv n"
  shows "raft_step_ok n (fst (apply_committed n)) (snd (apply_committed n))"
proof -
  let ?la = "unat (last_applied n)" and ?c = "unat (commit_index n)"
  have la: "last_applied n \<le> commit_index n" "?c \<le> length (rn_log n)"
    using assms by (simp_all add: raft_inv_def)
  have "take ?c (rn_log n) = take ?la (rn_log n) @ drop ?la (take ?c (rn_log n))"
    using la append_take_drop_id [of ?la "take ?c (rn_log n)"] by (simp add: word_le_nat_alt min_def)
  then show ?thesis
    using apply_loop_spec [OF la, of "[]"] assms
    by (auto simp: raft_step_ok_def raft_inv_def apply_committed_def raft_core_def)
qed

lemma raft_apply_ok:
  assumes inv: "raft_inv n" and room: "Suc (length (rn_log n)) < 2 ^ 64"
    and op: "op \<noteq> TakeSnapshot" and run: "raft_apply op n = Inr (n', out)"
  shows "raft_step_ok n n' out"
proof (cases "touches_log op")
  case False
  then have core: "raft_core n' = raft_core n" "out = []" using raft_apply_core run by blast+
  then show ?thesis using inv raft_inv_core [OF core(1)] by (simp add: raft_step_ok_def raft_core_def)
next
  case True
  then show ?thesis
    using op run append_entry_ok [OF inv room] advance_commit_ok [OF inv room] apply_committed_ok [OF inv]
    by (cases op) auto
qed

lemma raft_run_ok:
  assumes "raft_inv n" and "TakeSnapshot \<notin> set ops" and "length (rn_log n) + length ops < 2 ^ 64"
    and "election_timeout_max_ms (rn_config n) - election_timeout_min_ms (rn_config n) + 1 \<noteq> 0"
  shows "\<exists>n' out. raft_run ops n = Inr (n', out) \<and> raft_inv n'
    \<and> take (unat (last_applied n')) (rn_log n') = take (unat (last_applied n)) (rn_log n) @ out"
  using assms
proof (induction ops arbitrary: n)
  case (Cons op ops)
  obtain n1 out1 where step: "raft_apply op n = Inr (n1, out1)"
    using raft_apply_no_panic [OF Cons.prems(4)] by blast
  have "raft_step_ok n n1 out1"
    by (rule raft_apply_ok [OF Cons.prems(1) _ _ step]) (use Cons.prems in auto)
  then have ok: "raft_inv n1" "rn_config n1 = rn_config n" "length (rn_log n1) \<le> Suc (length (rn_log n))"
    "take (unat (last_applied n1)) (rn_log n1) = take (unat (last_applied n)) (rn_log n) @ out1"
    by (simp_all add: raft_step_ok_def)
  obtain n' out where "raft_run ops n1 = Inr (n', out)" "raft_inv n'"
    "take (unat (last_applied n')) (rn_log n') = take (unat (last_applied n1)) (rn_log n1) @ out"
    using Cons.IH [OF ok(1)] Cons.prems ok(2,3) by fastforce
  then show ?case by (simp add: step ok(4))
qed simp

lemma apply_committed_rest:
  assumes "raft_inv n"
  shows "take (unat (last_applied n)) (rn_log n) @ snd (apply_committed n) = take (unat (commit_index n)) (rn_log n)"
    and "last_applied (fst (apply_committed n)) = commit_index n"
  using apply_committed_ok [OF assms] apply_loop_spec [of n "[]"] assms
  by (simp_all add: raft_step_ok_def raft_inv_def apply_committed_def raft_core_def)

text \<open>
  C29.  A Raft node that takes no snapshot hands every committed entry to the state machine
  exactly once and in log order: whatever operations are run, they do not panic, the entries
  handed over so far are exactly the first \<open>last_applied\<close> entries of the log, nothing
  beyond the commit index, which never passes the end of the log, has been handed over, and one
  call of \<open>apply_committed\<close> hands over the rest up to the commit index.
\<close>

theorem raft_applies_log_in_order:
  assumes "TakeSnapshot \<notin> set ops" and "length ops < 2 ^ 64"
    and "election_timeout_max_ms cfg - election_timeout_min_ms cfg + 1 \<noteq> 0"
  shows "\<exists>n out. raft_run ops (RaftNode_new cfg now) = Inr (n, out)
    \<and> out = take (unat (last_applied n)) (rn_log n)
    \<and> last_applied n \<le> commit_index n \<and> unat (commit_index n) \<le> length (rn_log n)
    \<and> out @ snd (apply_committed n) = take (unat (commit_index n)) (rn_log n)
    \<and> last_applied (fst (apply_committed n)) = commit_index n"
proof -
  have "rn_log (RaftNode_new cfg now) = []" "last_applied (RaftNode_new cfg now) = 0"
    "rn_config (RaftNode_new cfg now) = cfg"
    by (simp_all add: RaftNode_new_def Let_def)
  then obtain n out where n: "raft_run ops (RaftNode_new cfg now) = Inr (n, out)" "raft_inv n"
    "out = take (unat (last_applied n)) (rn_log n)"
    using raft_run_ok [OF raft_inv_new [of cfg now] assms(1)] assms(2,3) by auto
  then show ?thesis using apply_committed_rest [OF n(2)] by (simp add: raft_inv_def)
qed

theorem raft_applies_log_in_order_witness:
  "\<exists>n out. raft_run [BecomeLeader, AppendEntry 5 RWorkflowStarted [1], ApplyCommitted, AppendEntry 5 RStepCompleted [2]]
      (RaftNode_new RaftConfig_default 0) = Inr (n, out)
    \<and> out @ snd (apply_committed n) = take (unat (commit_index n)) (rn_log n)"
  using raft_applies_log_in_order [of "[BecomeLeader, AppendEntry 5 RWorkflowStarted [1], ApplyCommitted,
      AppendEntry 5 RStepCompleted [2]]" RaftConfig_default 0]
  by (auto simp: RaftConfig_default_def)

section \<open>After a snapshot\<close>

text \<open>
  A node without peers that is the leader commits at once whatever it appends.  \<open>solo n\<close> is such
  a node; its log is described by its length, since every entry in it is committed and
  carries its position as index.
\<close>

definition solo :: "raft_node \<Rightarrow> bool" where
  "solo n \<longleftrightarrow> rn_state n = Leader \<and> peers n = []
     \<and> map rl_index (rn_log n) = map word_of_nat [1..<Suc (length (rn_log n))]
     \<and> (\<forall>e\<in>set (rn_log n). rl_committed e)"

abbreviation append_op :: "u64 \<times> raft_event_type \<times> bytes \<Rightarrow> raft_op" where
  "append_op e \<equiv> AppendEntry (fst e) (fst (snd e)) (snd (snd e))"

lemma raft_run_append:
  "raft_run (xs @ ys) n = (case raft_run xs n of Inl e \<Rightarrow> Inl e
     | Inr (n', out) \<Rightarrow> (case raft_run ys n' of Inl e \<Rightarrow> Inl e | Inr (n'', out') \<Rightarrow> Inr (n'', out @ out')))"
  by (induction xs arbitrary: n) (auto split: sum.splits prod.splits)

lemma solo_append:
  assumes "solo n"
  shows "solo (fst (append_entry n k t p))"
    and "length (rn_log (fst (append_entry n k t p))) = Suc (length (rn_log n))"
    and "commit_index (fst (append_entry n k t p)) = word_of_nat (Suc (length (rn_log n)))"
    and "last_applied (fst (append_entry n k t p)) = last_applied n"
  using assms by (auto simp: solo_def append_entry_def Let_def log_len_def add.commute)

lemma solo_appends:
  assumes "solo n"
  shows "\<exists>n'. raft_run (map append_op es) n = Inr (n', []) \<and> solo n' \<and> last_applied n' = last_applied n
    \<and> length (rn_log n') = length (rn_log n) + length es
    \<and> commit_index n' = (if es = [] then commit_index n else word_of_nat (length (rn_log n')))"
  using assms
proof (induction es arbitrary: n)
  case (Cons e es)
  obtain k t p where e: "e = (k, t, p)" by (cases e)
  note app = solo_append [OF Cons.prems, of k t p]
  from Cons.IH [OF app(1)] obtain n' where "raft_run (map append_op es) (fst (append_entry n k t p)) = Inr (n', [])"
    "solo n'" "last_applied n' = last_applied n" "length (rn_log n') = length (rn_log n) + length (e # es)"
    "commit_index n' = word_of_nat (length (rn_log n'))"
    using app by (auto split: if_splits)
  then show ?case by (auto simp: e)
qed simp

lemma snapshot_all:
  assumes "solo n" and "unat (last_applied n) = length (rn_log n)" and "rn_log n \<noteq> []"
  shows "rn_log (fst (take_snapshot n)) = []" and "solo (fst (take_snapshot n))"
    and "last_applied (fst (take_snapshot n)) = last_applied n"
    and "commit_index (fst (take_snapshot n)) = commit_index n"
proof -
  have "rl_index e \<le> last_applied n" if "e \<in> set (rn_log n)" for e
  proof -
    have "rl_index e \<in> set (map rl_index (rn_log n))" using that by simp
    then obtain i where i: "rl_index e = word_of_nat i" "i \<le> length (rn_log n)"
      using assms(1) unfolding solo_def by auto
    then have "i < 2 ^ 64" using assms(2) unat_less_exp [of "last_applied n"] by simp
    then show ?thesis using i assms(2) by (simp add: word_le_nat_alt unat_of_nat)
  qed
  then have tw: "takeWhile (\<lambda>e. rl_index e \<le> last_applied n) (rn_log n) = rn_log n"
    by (simp add: takeWhile_eq_all_conv)
  have "last_applied n \<noteq> 0" using assms(2,3) by auto
  then show "rn_log (fst (take_snapshot n)) = []" "last_applied (fst (take_snapshot n)) = last_applied n"
    "commit_index (fst (take_snapshot n)) = commit_index n" "solo (fst (take_snapshot n))"
    using assms(1) by (simp_all add: take_snapshot_def Let_def solo_def tw)
qed

lemma apply_loop_role:
  "rn_state (fst (apply_loop n out)) = rn_state n \<and> peers (fst (apply_loop n out)) = peers n"
proof (induction n out rule: apply_loop.induct)
  case (1 n out)
  show ?case
    using 1 by (cases "last_applied n < commit_index n") (simp_all add: apply_loop.simps [of n out] Let_def)
qed

lemma apply_committed_solo:
  assumes "solo n" and "last_applied n \<le> commit_index n" and "unat (commit_index n) \<le> length (rn_log n)"
  shows "solo (fst (apply_committed n))" and "rn_log (fst (apply_committed n)) = rn_log n"
    and "last_applied (fst (apply_committed n)) = commit_index n"
    and "commit_index (fst (apply_committed n)) = commit_index n"
  using assms(1) apply_loop_spec [OF assms(2,3), of "[]"] apply_loop_role [of n "[]"]
  by (simp_all add: apply_committed_def raft_core_def solo_def)

text \<open>
  A snapshot breaks this.  The node numbers new entries by the length of its log, which a
  snapshot empties, but keeps \<open>last_applied\<close>: after a lone leader has applied \<open>es\<^sub>1\<close> and taken a
  snapshot, it appends, commits and acknowledges up to as many entries again, and applies
  none of them.
\<close>

theorem raft_snapshot_loses_entries:
  assumes "es\<^sub>1 \<noteq> []" and "length es\<^sub>1 < 2 ^ 64" and "length es\<^sub>2 \<le> length es\<^sub>1"
  shows "\<exists>n out. raft_run (BecomeLeader # map append_op es\<^sub>1 @ [ApplyCommitted, TakeSnapshot]
        @ map append_op es\<^sub>2 @ [ApplyCommitted]) (RaftNode_new cfg now) = Inr (n, out)
    \<and> length out = length es\<^sub>1 \<and> length (rn_log n) = length es\<^sub>2 \<and> (\<forall>e\<in>set (rn_log n). rl_committed e)"
proof -
  let ?n0 = "become_leader (RaftNode_new cfg now)"
  have n0: "solo ?n0" "rn_log ?n0 = []" "last_applied ?n0 = 0"
    by (simp_all add: solo_def become_leader_def RaftNode_new_def Let_def)
  obtain n1 where n1: "raft_run (map append_op es\<^sub>1) ?n0 = Inr (n1, [])" "solo n1" "last_applied n1 = 0"
    "length (rn_log n1) = length es\<^sub>1" "commit_index n1 = word_of_nat (length es\<^sub>1)"
    using solo_appends [OF n0(1), of es\<^sub>1] n0 assms(1) by auto
  have c1: "unat (commit_index n1) = length es\<^sub>1" using n1(5) assms(2) by (simp add: unat_of_nat)
  have le1: "last_applied n1 \<le> commit_index n1" "unat (commit_index n1) \<le> length (rn_log n1)"
    using n1(3,4) c1 by simp_all
  let ?n2 = "fst (apply_committed n1)"
  note n2 = apply_committed_solo [OF n1(2) le1]
  have out1: "length (snd (apply_committed n1)) = length es\<^sub>1"
    using apply_loop_spec [OF le1, of "[]"] n1(3,4) c1 by (simp add: apply_committed_def)
  have full: "unat (last_applied ?n2) = length (rn_log ?n2)" "rn_log ?n2 \<noteq> []"
    using n2 n1(4) c1 assms(1) by auto
  let ?n3 = "fst (take_snapshot ?n2)"
  note n3 = snapshot_all [OF n2(1) full]
  obtain n4 where n4: "raft_run (map append_op es\<^sub>2) ?n3 = Inr (n4, [])" "solo n4"
    "last_applied n4 = last_applied ?n3" "length (rn_log n4) = length es\<^sub>2"
    "commit_index n4 = (if es\<^sub>2 = [] then commit_index ?n3 else word_of_nat (length es\<^sub>2))"
    using solo_appends [OF n3(2), of es\<^sub>2] n3(1) by auto
  have "last_applied n4 = word_of_nat (length es\<^sub>1)"
    using n4(3) n3(3) n2(3) n1(5) by simp
  then have "\<not> last_applied n4 < commit_index n4"
    using n4(5) n3(4) n2(4) n1(5) assms(2,3) by (auto simp: word_less_nat_alt unat_of_nat)
  then have "apply_committed n4 = (n4, [])" by (simp add: apply_committed_def apply_loop.simps [of n4])
  then have "raft_run (BecomeLeader # map append_op es\<^sub>1 @ [ApplyCommitted, TakeSnapshot]
        @ map append_op es\<^sub>2 @ [ApplyCommitted]) (RaftNode_new cfg now) = Inr (n4, snd (apply_committed n1))"
    using n1(1) n4(1) by (simp add: raft_run_append prod.case_eq_if)
  then show ?thesis using out1 n4(2,4) by (auto simp: solo_def)
qed

theorem raft_snapshot_loses_entries_witness:
  "\<exists>n out. raft_run [BecomeLeader, AppendEntry 5 RWorkflowStarted [1], ApplyCommitted, TakeSnapshot,
      AppendEntry 5 RWorkflowCompleted [2], ApplyCommitted] (RaftNode_new RaftConfig_default 0) = Inr (n, out)
    \<and> length out = 1 \<and> length (rn_log n) = 1"
  using raft_snapshot_loses_entries [of "[(5, RWorkflowStarted, [1])]" "[(5, RWorkflowCompleted, [2])]"
      RaftConfig_default 0]
  by auto

end
