(* ===== verification/Task_Queue.thy ===== *)
theory Task_Queue
  imports Hash_Map
begin

text \<open>
  The named task queues of \<open>task_queue.rs\<close>.  An operation is one step.  All but one hold the
  mutex of the queues from their first access to them to their last; \<open>enqueue\<close> takes its task id under a mutex
  of its own first, so ids of concurrent calls may be filed out of order, which is not modelled.  A blocking poll is a step per wake-up, with what the
  other threads did while it waited as an argument.  An \<open>Instant\<close> is a number of nanoseconds.
\<close>

section \<open>Data\<close>

datatype task_kind = WorkflowTask | ActivityTask | TimerTask | SignalTask

record task_item =
  task_id :: u64
  ti_kind :: task_kind
  ti_workflow_key :: u64
  task_queue_hash :: u64
  ti_step_index :: u32
  ti_activity_name_id :: u64
  ti_attempt :: u32
  priority :: u8
  deadline_ms :: u64

record queue_state =
  deque :: "task_item list"
  qs_shutdown :: bool
  enqueued :: u64
  dequeued :: u64
  expired :: u64
  oldest_task_at :: "instant option"

definition QueueState_new :: queue_state where
  "QueueState_new = \<lparr>deque = [], qs_shutdown = False, enqueued = 0, dequeued = 0, expired = 0,
     oldest_task_at = None\<rparr>"

definition backlog_age :: "queue_state \<Rightarrow> instant \<Rightarrow> nat option" where
  "backlog_age s now = map_option (\<lambda>t. now - t) (oldest_task_at s)"

record queue_stats =
  qst_enqueued :: u64
  qst_dequeued :: u64
  qst_expired :: u64
  qst_depth :: nat
  qst_backlog_age_ms :: u64

record task_queue =
  tq_inner :: "(u64, queue_state) hash_map"
  next_task_id :: u64
  total_enqueued :: u64
  total_dequeued :: u64
  total_expired :: u64

definition TaskQueue_new :: task_queue where
  "TaskQueue_new = \<lparr>tq_inner = [], next_task_id = 1, total_enqueued = 0, total_dequeued = 0, total_expired = 0\<rparr>"

section \<open>Operations\<close>

definition insert_at :: "nat \<Rightarrow> 'a \<Rightarrow> 'a list \<Rightarrow> 'a list" where
  "insert_at i x xs = take i xs @ x # drop i xs"

definition place_task :: "task_item \<Rightarrow> task_item list \<Rightarrow> task_item list" where
  "place_task task q =
     (if priority task > 0
      then insert_at (case position (\<lambda>t. priority t > priority task) q of None \<Rightarrow> length q | Some pos \<Rightarrow> pos) task q
      else q @ [task])"

definition enqueue :: "task_queue \<Rightarrow> u64 \<Rightarrow> task_item \<Rightarrow> instant \<Rightarrow> task_queue" where
  "enqueue tq h task now =
     (let task = task\<lparr>task_id := next_task_id tq\<rparr>;
          tq = tq\<lparr>next_task_id := next_task_id tq + 1\<rparr>;
          state = get_or (tq_inner tq) h QueueState_new;
          state = state\<lparr>deque := place_task task (deque state), enqueued := enqueued state + 1,
                        oldest_task_at := (case oldest_task_at state of None \<Rightarrow> Some now | Some t \<Rightarrow> Some t)\<rparr>
      in tq\<lparr>tq_inner := hm_insert (tq_inner tq) h state, total_enqueued := total_enqueued tq + 1\<rparr>)"

text \<open>What the three polls do with a queue that is not empty.\<close>

definition pop_task :: "task_queue \<Rightarrow> u64 \<Rightarrow> queue_state \<Rightarrow> task_item list \<Rightarrow> task_queue" where
  "pop_task tq h state rest =
     tq\<lparr>tq_inner := hm_insert (tq_inner tq) h
          (state\<lparr>deque := rest, dequeued := dequeued state + 1,
                 oldest_task_at := (if rest = [] then None else oldest_task_at state)\<rparr>),
        total_dequeued := total_dequeued tq + 1\<rparr>"

definition try_poll :: "task_queue \<Rightarrow> u64 \<Rightarrow> task_queue \<times> task_item option" where
  "try_poll tq h =
     (case map_of (tq_inner tq) h of
        None \<Rightarrow> (tq, None)
      | Some state \<Rightarrow>
          (case deque state of
             [] \<Rightarrow> (tq, None)
           | task # rest \<Rightarrow> (pop_task tq h state rest, Some task)))"

datatype poll_outcome = Polled task_item | PollNone | Waiting

definition poll_attempt :: "task_queue \<Rightarrow> u64 \<Rightarrow> task_queue \<times> poll_outcome" where
  "poll_attempt tq h =
     (case map_of (tq_inner tq) h of
        None \<Rightarrow> (tq, Waiting)
      | Some state \<Rightarrow>
          (case deque state of
             task # rest \<Rightarrow> (pop_task tq h state rest, Polled task)
           | [] \<Rightarrow> (tq, if qs_shutdown state then PollNone else Waiting)))"

text \<open>
  The blocking poll: at every wake-up the queues are as the other threads left them.  When
  the wake-ups given run out it is still waiting.
\<close>

fun poll :: "task_queue \<Rightarrow> u64 \<Rightarrow> (task_queue \<Rightarrow> task_queue) list \<Rightarrow> task_queue \<times> poll_outcome" where
  "poll tq h [] = poll_attempt tq h"
| "poll tq h (others # wakeups) =
     (case poll_attempt tq h of
        (tq', Waiting) \<Rightarrow> poll (others tq') h wakeups
      | r \<Rightarrow> r)"

text \<open>With a timeout, every wake-up that finds nothing also reads the clock.\<close>

fun poll_until :: "task_queue \<Rightarrow> u64 \<Rightarrow> instant \<Rightarrow> (instant \<times> (task_queue \<Rightarrow> task_queue)) list \<Rightarrow> task_queue \<times> poll_outcome" where
  "poll_until tq h deadline [] = poll_attempt tq h"
| "poll_until tq h deadline ((now, others) # wakeups) =
     (case poll_attempt tq h of
        (tq', Waiting) \<Rightarrow>
          if now \<ge> deadline then (tq', PollNone) else poll_until (others tq') h deadline wakeups
      | r \<Rightarrow> r)"

definition poll_timeout ::
    "task_queue \<Rightarrow> u64 \<Rightarrow> nat \<Rightarrow> instant \<Rightarrow> (instant \<times> (task_queue \<Rightarrow> task_queue)) list \<Rightarrow> task_queue \<times> poll_outcome" where
  "poll_timeout tq h timeout now wakeups = poll_until tq h (now + timeout) wakeups"

definition TaskQueue_pending_count :: "task_queue \<Rightarrow> u64 \<Rightarrow> nat" where
  "TaskQueue_pending_count tq h = (case map_of (tq_inner tq) h of None \<Rightarrow> 0 | Some s \<Rightarrow> length (deque s))"

definition total_pending :: "task_queue \<Rightarrow> nat" where
  "total_pending tq = sum_values (length \<circ> deque) (tq_inner tq)"

definition queue_count :: "task_queue \<Rightarrow> nat" where
  "queue_count tq = length (tq_inner tq)"

definition keeps :: "u64 \<Rightarrow> task_item \<Rightarrow> bool" where
  "keeps now_ms t \<longleftrightarrow> deadline_ms t = 0 \<or> deadline_ms t > now_ms"

definition expire_state :: "u64 \<Rightarrow> queue_state \<Rightarrow> queue_state" where
  "expire_state now_ms s =
     (let before = length (deque s);
          s = s\<lparr>deque := filter (keeps now_ms) (deque s)\<rparr>;
          r = before - length (deque s)
      in s\<lparr>expired := expired s + word_of_nat r\<rparr>)"

definition TaskQueue_remove_expired :: "task_queue \<Rightarrow> u64 \<Rightarrow> task_queue \<times> nat" where
  "TaskQueue_remove_expired tq now_ms =
     (let removed = sum_values (\<lambda>s. length (deque s) - length (filter (keeps now_ms) (deque s))) (tq_inner tq)
      in (tq\<lparr>tq_inner := map_values (expire_state now_ms) (tq_inner tq),
             total_expired := total_expired tq + word_of_nat removed\<rparr>, removed))"

definition shutdown :: "task_queue \<Rightarrow> task_queue" where
  "shutdown tq = tq\<lparr>tq_inner := map_values (\<lambda>s. s\<lparr>qs_shutdown := True\<rparr>) (tq_inner tq)\<rparr>"

definition stats_of :: "queue_state \<Rightarrow> instant \<Rightarrow> queue_stats" where
  "stats_of s now = \<lparr>qst_enqueued = enqueued s, qst_dequeued = dequeued s, qst_expired = expired s,
     qst_depth = length (deque s),
     qst_backlog_age_ms = (case backlog_age s now of None \<Rightarrow> 0 | Some d \<Rightarrow> word_of_nat (d div 1000000))\<rparr>"

definition queue_stats_of :: "task_queue \<Rightarrow> u64 \<Rightarrow> instant \<Rightarrow> queue_stats" where
  "queue_stats_of tq h now =
     (case map_of (tq_inner tq) h of
        Some s \<Rightarrow> stats_of s now
      | None \<Rightarrow> \<lparr>qst_enqueued = 0, qst_dequeued = 0, qst_expired = 0, qst_depth = 0, qst_backlog_age_ms = 0\<rparr>)"

definition all_queue_stats :: "task_queue \<Rightarrow> instant \<Rightarrow> (u64, queue_stats) hash_map" where
  "all_queue_stats tq now = map_values (\<lambda>s. stats_of s now) (tq_inner tq)"

definition max_backlog_age_ms :: "task_queue \<Rightarrow> instant \<Rightarrow> u64" where
  "max_backlog_age_ms tq now =
     fold max (map (\<lambda>d. word_of_nat (d div 1000000)) (List.map_filter (\<lambda>(_, s). backlog_age s now) (tq_inner tq))) 0"

section \<open>Runs\<close>

datatype tq_op = Enqueue u64 task_item instant | TryPoll u64 | RemoveExpired u64 | Shutdown

fun tq_apply :: "tq_op \<Rightarrow> task_queue \<Rightarrow> task_queue" where
  "tq_apply (Enqueue h task now) tq = enqueue tq h task now"
| "tq_apply (TryPoll h) tq = fst (try_poll tq h)"
| "tq_apply (RemoveExpired now) tq = fst (TaskQueue_remove_expired tq now)"
| "tq_apply Shutdown tq = shutdown tq"

definition pending :: "task_queue \<Rightarrow> u64 \<Rightarrow> task_item list" where
  "pending tq h = (case map_of (tq_inner tq) h of None \<Rightarrow> [] | Some s \<Rightarrow> deque s)"

lemma pending_enqueue:
  "pending (enqueue tq h task now) h' =
     (if h' = h then place_task (task\<lparr>task_id := next_task_id tq\<rparr>) (pending tq h) else pending tq h')"
  by (simp add: pending_def enqueue_def Let_def get_or_def QueueState_new_def split: option.split)

lemma pending_try_poll:
  "pending (fst (try_poll tq h)) h' = (if h' = h then tl (pending tq h) else pending tq h')"
  "snd (try_poll tq h) = (case pending tq h of [] \<Rightarrow> None | t # _ \<Rightarrow> Some t)"
  by (auto simp: pending_def try_poll_def pop_task_def split: option.splits list.splits)

lemma pending_remove_expired: "pending (fst (TaskQueue_remove_expired tq now)) h = filter (keeps now) (pending tq h)"
  by (simp add: pending_def TaskQueue_remove_expired_def Let_def map_of_map_values expire_state_def split: option.split)

lemma pending_shutdown: "pending (shutdown tq) h = pending tq h"
  by (simp add: pending_def shutdown_def map_of_map_values split: option.split)

lemmas pending_ops = pending_enqueue pending_try_poll pending_remove_expired pending_shutdown

text \<open>Three tasks for one queue, of priorities 5, 2 and 2.\<close>

definition sample_task :: "u64 \<Rightarrow> u8 \<Rightarrow> task_item" where
  "sample_task i p = \<lparr>task_id = 0, ti_kind = ActivityTask, ti_workflow_key = i, task_queue_hash = 7,
     ti_step_index = 0, ti_activity_name_id = 0, ti_attempt = 1, priority = p, deadline_ms = 0\<rparr>"

definition sample_ops :: "tq_op list" where
  "sample_ops = [Enqueue 7 (sample_task 100 5) 0, Enqueue 7 (sample_task 200 2) 1, Enqueue 7 (sample_task 300 2) 2]"

section \<open>Order\<close>

definition ahead :: "task_item \<Rightarrow> task_item \<Rightarrow> bool" where
  "ahead t u \<longleftrightarrow> priority t < priority u \<or> (priority t = priority u \<and> task_id t < task_id u)"

definition in_order :: "u64 \<Rightarrow> task_item list \<Rightarrow> bool" where
  "in_order next q \<longleftrightarrow> sorted_wrt ahead q \<and> (\<forall>t\<in>set q. task_id t < next)"

lemma in_order_place:
  assumes q: "in_order next q" and t: "task_id t = next" "priority t > 0"
  shows "sorted_wrt ahead (place_task t q)" and "set (place_task t q) = insert t (set q)"
proof -
  let ?p = "\<lambda>u. priority u > priority t"
  obtain as bs where split: "q = as @ bs" "place_task t q = as @ t # bs"
    "\<forall>a\<in>set as. \<not> ?p a" "bs \<noteq> [] \<longrightarrow> ?p (hd bs)"
  proof (cases "position ?p q")
    case None
    then have "\<forall>a\<in>set q. \<not> ?p a" by simp
    then show ?thesis using that [of q "[]"] t(2) by (simp add: place_task_def insert_at_def None)
  next
    case (Some i)
    then obtain as x bs where "q = as @ x # bs" "i = length as" "?p x" "\<forall>a\<in>set as. \<not> ?p a"
      by (rule position_split)
    then show ?thesis using that [of as "x # bs"] t(2) Some by (simp add: place_task_def insert_at_def)
  qed
  have sorted: "sorted_wrt ahead (as @ bs)" and ids: "\<forall>u\<in>set q. task_id u < task_id t"
    using q t(1) split(1) by (simp_all add: in_order_def)
  have "ahead a t" if "a \<in> set as" for a
    using that split(1,3) ids by (auto simp: ahead_def not_less)
  moreover have "ahead t b" if b: "b \<in> set bs" for b
  proof -
    have "b = hd bs \<or> ahead (hd bs) b"
      using b sorted by (cases bs) (auto simp: sorted_wrt_append)
    moreover have "?p (hd bs)" using b split(4) by auto
    ultimately show ?thesis by (auto simp: ahead_def)
  qed
  ultimately show "sorted_wrt ahead (place_task t q)"
    using sorted by (simp add: split(2) sorted_wrt_append)
  show "set (place_task t q) = insert t (set q)" unfolding split(2) using split(1) by auto
qed

fun urgent_op :: "tq_op \<Rightarrow> bool" where
  "urgent_op (Enqueue h task now) \<longleftrightarrow> priority task > 0"
| "urgent_op _ = True"

definition tq_ordered :: "task_queue \<Rightarrow> bool" where
  "tq_ordered tq \<longleftrightarrow> (\<forall>h. in_order (next_task_id tq) (pending tq h))"

lemma next_task_id_ops:
  "next_task_id (enqueue tq h task now) = next_task_id tq + 1"
  "next_task_id (fst (try_poll tq h)) = next_task_id tq"
  "next_task_id (fst (TaskQueue_remove_expired tq now')) = next_task_id tq"
  "next_task_id (shutdown tq) = next_task_id tq"
  by (simp_all add: enqueue_def try_poll_def pop_task_def TaskQueue_remove_expired_def shutdown_def Let_def
      split: option.split list.split)

lemma in_order_sub: "in_order n q \<Longrightarrow> in_order n (tl q)" "in_order n q \<Longrightarrow> in_order n (filter P q)"
  by (cases q; auto simp: in_order_def sorted_wrt_filter)+

lemma tq_ordered_step:
  assumes "tq_ordered tq" and "urgent_op op" and "Suc (unat (next_task_id tq)) < 2 ^ 64"
  shows "tq_ordered (tq_apply op tq)" and "unat (next_task_id (tq_apply op tq)) \<le> Suc (unat (next_task_id tq))"
proof -
  have inc: "unat (next_task_id tq + 1) = Suc (unat (next_task_id tq))"
    using assms(3) by (simp add: unat_word_ariths)
  have "tq_ordered (tq_apply op tq) \<and> unat (next_task_id (tq_apply op tq)) \<le> Suc (unat (next_task_id tq))"
  proof (cases op)
    case (Enqueue h task now)
    let ?t = "task\<lparr>task_id := next_task_id tq\<rparr>"
    have "in_order (next_task_id tq + 1) (place_task ?t (pending tq h))"
      using in_order_place [of "next_task_id tq" "pending tq h" ?t] assms(1,2) Enqueue inc
      by (auto simp: in_order_def tq_ordered_def word_less_nat_alt less_Suc_eq)
    moreover have "in_order (next_task_id tq + 1) (pending tq h')" for h'
      using assms(1) inc by (auto simp: in_order_def tq_ordered_def word_less_nat_alt less_Suc_eq)
    ultimately show ?thesis using inc by (simp add: Enqueue tq_ordered_def pending_ops next_task_id_ops)
  qed (use assms(1) in \<open>simp_all add: tq_ordered_def pending_ops next_task_id_ops in_order_sub\<close>)
  then show "tq_ordered (tq_apply op tq)" "unat (next_task_id (tq_apply op tq)) \<le> Suc (unat (next_task_id tq))"
    by simp_all
qed

lemma tq_ordered_run:
  assumes "tq_ordered tq" and "\<forall>op\<in>set ops. urgent_op op" and "unat (next_task_id tq) + length ops < 2 ^ 64"
  shows "tq_ordered (fold tq_apply ops tq)"
  using assms
proof (induction ops arbitrary: tq)
  case (Cons op ops)
  note step = tq_ordered_step [OF Cons.prems(1), of op]
  show ?case using Cons.IH [of "tq_apply op tq"] step Cons.prems(2,3) by simp
qed simp

lemma tq_ordered_new: "tq_ordered TaskQueue_new"
  by (simp add: tq_ordered_def TaskQueue_new_def pending_def in_order_def)

text \<open>
  C30.  When every task has a positive priority, a poll takes from the named queue, if it has
  any task, the one with the lowest priority number and among those the one enqueued first,
  and leaves all the others, in this queue and in every other.
\<close>

theorem poll_takes_most_urgent:
  assumes "\<forall>op\<in>set ops. urgent_op op" and "length ops < 2 ^ 64 - 1"
  shows "let tq = fold tq_apply ops TaskQueue_new; (tq', r) = try_poll tq h
    in case r of
         None \<Rightarrow> pending tq h = []
       | Some t \<Rightarrow> t \<in> set (pending tq h) \<and> (\<forall>u\<in>set (pending tq h). u = t \<or> ahead t u)
           \<and> pending tq' = (pending tq)(h := remove1 t (pending tq h))"
proof -
  let ?tq = "fold tq_apply ops TaskQueue_new"
  have "tq_ordered ?tq"
    by (rule tq_ordered_run [OF tq_ordered_new assms(1)]) (use assms(2) in \<open>simp add: TaskQueue_new_def\<close>)
  then have "sorted_wrt ahead (pending ?tq h)" by (simp add: tq_ordered_def in_order_def)
  then show ?thesis
    using pending_try_poll [of ?tq h]
    by (cases "pending ?tq h") (auto simp: Let_def case_prod_beta fun_eq_iff)
qed

theorem poll_takes_most_urgent_witness:
  "snd (try_poll (fold tq_apply sample_ops TaskQueue_new) 7) = Some ((sample_task 200 2)\<lparr>task_id := 2\<rparr>)
   \<and> ahead ((sample_task 200 2)\<lparr>task_id := 2\<rparr>) ((sample_task 300 2)\<lparr>task_id := 3\<rparr>)"
proof -
  let ?tq = "fold tq_apply sample_ops TaskQueue_new"
  let ?t = "(sample_task 200 2)\<lparr>task_id := 2\<rparr>" and ?u = "(sample_task 300 2)\<lparr>task_id := 3\<rparr>"
  have ok: "\<forall>op\<in>set sample_ops. urgent_op op" "length sample_ops < 2 ^ 64 - 1"
    by (simp_all add: sample_ops_def sample_task_def)
  have polled: "snd (try_poll ?tq 7) = Some ?t" by code_simp
  have "\<forall>u\<in>set (pending ?tq 7). u = ?t \<or> ahead ?t u"
    using poll_takes_most_urgent [OF ok, of 7] unfolding Let_def case_prod_beta polled option.case by blast
  moreover have "pending ?tq 7 ! 1 = ?u" "length (pending ?tq 7) = 3" by code_simp+
  moreover have "?u \<noteq> ?t" by code_simp
  ultimately show ?thesis
    using polled nth_mem [of 1 "pending ?tq 7"] by auto
qed

section \<open>Nothing is lost\<close>

definition balanced :: "queue_state \<Rightarrow> bool" where
  "balanced s \<longleftrightarrow> enqueued s = dequeued s + expired s + word_of_nat (length (deque s))"

definition tq_balanced :: "task_queue \<Rightarrow> bool" where
  "tq_balanced tq \<longleftrightarrow> hm_wf (tq_inner tq) \<and> (\<forall>h s. map_of (tq_inner tq) h = Some s \<longrightarrow> balanced s)
     \<and> total_enqueued tq = total_dequeued tq + total_expired tq + word_of_nat (total_pending tq)"

lemma length_place_task: "length (place_task t q) = Suc (length q)"
  by (cases "position (\<lambda>u. priority u > priority t) q")
    (auto simp: place_task_def insert_at_def dest: position_SomeD(1))

lemma balanced_expire: "balanced s \<Longrightarrow> balanced (expire_state now s)"
  by (simp add: balanced_def expire_state_def Let_def of_nat_diff)

lemma sum_values_split:
  "(\<And>v. f v \<le> g v) \<Longrightarrow> sum_values g m = sum_values f m + sum_values (\<lambda>v. g v - f v) m"
proof (induction m)
  case (Cons e m)
  have "f (snd e) \<le> g (snd e)" by (rule Cons.prems)
  then show ?case using Cons.IH [OF Cons.prems] by (simp add: sum_values_def)
qed (simp add: sum_values_def)

lemma total_pending_put:
  assumes "tq_inner tq' = hm_insert (tq_inner tq) h s"
  shows "total_pending tq' + (case map_of (tq_inner tq) h of None \<Rightarrow> 0 | Some s \<Rightarrow> length (deque s))
    = total_pending tq + length (deque s)"
  using sum_values_insert [of "length \<circ> deque" h s "tq_inner tq"] assms by (simp add: total_pending_def split: option.splits)

lemma balanced_enqueue:
  assumes "tq_balanced tq"
  shows "tq_balanced (enqueue tq h task now)"
proof -
  define s where "s = get_or (tq_inner tq) h QueueState_new"
  have s: "balanced s"
    using assms by (auto simp: s_def get_or_def tq_balanced_def balanced_def QueueState_new_def split: option.split)
  define s' where "s' = s\<lparr>deque := place_task (task\<lparr>task_id := next_task_id tq\<rparr>) (deque s),
    enqueued := enqueued s + 1,
    oldest_task_at := (case oldest_task_at s of None \<Rightarrow> Some now | Some t \<Rightarrow> Some t)\<rparr>"
  have s': "balanced s'" using s by (simp add: balanced_def s'_def length_place_task)
  have inner: "tq_inner (enqueue tq h task now) = hm_insert (tq_inner tq) h s'"
    by (simp add: enqueue_def Let_def s_def s'_def)
  have "(case map_of (tq_inner tq) h of None \<Rightarrow> 0 | Some s \<Rightarrow> length (deque s)) = length (deque s)"
    by (simp add: s_def get_or_def QueueState_new_def split: option.split)
  then have "total_pending (enqueue tq h task now) = Suc (total_pending tq)"
    using total_pending_put [OF inner] by (simp add: s'_def length_place_task)
  then show ?thesis
    using assms s' by (auto simp: tq_balanced_def inner distinct_update) (simp add: enqueue_def Let_def)
qed

lemma balanced_try_poll:
  assumes "tq_balanced tq"
  shows "tq_balanced (fst (try_poll tq h))"
proof (cases "pending tq h")
  case Nil
  then have "fst (try_poll tq h) = tq" by (auto simp: try_poll_def pending_def split: option.splits)
  then show ?thesis using assms by simp
next
  case (Cons t rest)
  then obtain s where s: "map_of (tq_inner tq) h = Some s" "deque s = t # rest"
    by (auto simp: pending_def split: option.splits)
  define s1 where "s1 = s\<lparr>deque := rest, dequeued := dequeued s + 1, oldest_task_at := (if rest = [] then None else oldest_task_at s)\<rparr>"
  have poll: "fst (try_poll tq h) = tq\<lparr>tq_inner := hm_insert (tq_inner tq) h s1, total_dequeued := total_dequeued tq + 1\<rparr>"
    by (simp add: try_poll_def s pop_task_def s1_def)
  have "balanced s" using assms s(1) by (simp add: tq_balanced_def)
  then have "balanced s1" using s(2) by (simp add: balanced_def s1_def)
  moreover have "total_pending tq = Suc (total_pending (fst (try_poll tq h)))"
    using total_pending_put [of "fst (try_poll tq h)" h s1 tq] s by (simp add: poll s1_def)
  ultimately show ?thesis using assms by (simp add: poll tq_balanced_def distinct_update)
qed

lemma balanced_remove_expired:
  assumes "tq_balanced tq"
  shows "tq_balanced (fst (TaskQueue_remove_expired tq now))"
proof -
  have "total_pending tq = total_pending (fst (TaskQueue_remove_expired tq now)) + snd (TaskQueue_remove_expired tq now)"
    using sum_values_split [of "\<lambda>s. length (filter (keeps now) (deque s))" "length \<circ> deque" "tq_inner tq"]
    by (simp add: total_pending_def TaskQueue_remove_expired_def Let_def sum_values_map_values comp_def expire_state_def)
  then have "total_enqueued (fst (TaskQueue_remove_expired tq now)) = total_dequeued (fst (TaskQueue_remove_expired tq now))
      + total_expired (fst (TaskQueue_remove_expired tq now)) + word_of_nat (total_pending (fst (TaskQueue_remove_expired tq now)))"
    using assms by (simp add: tq_balanced_def) (simp add: TaskQueue_remove_expired_def Let_def)
  then show ?thesis
    using assms balanced_expire unfolding tq_balanced_def
    by (auto simp: TaskQueue_remove_expired_def Let_def map_of_map_values)
qed

lemma balanced_shutdown: "tq_balanced tq \<Longrightarrow> tq_balanced (shutdown tq)"
  by (auto simp: tq_balanced_def shutdown_def map_of_map_values total_pending_def sum_values_map_values
      comp_def balanced_def)

text \<open>
  C31.  No task is lost or counted twice: after any operations the tasks ever enqueued to a
  queue are those polled, those expired and those still in it, and the same holds of the
  counts over all queues, in the arithmetic of the 64-bit counters.
\<close>

theorem task_queue_conserves_tasks: "tq_balanced (fold tq_apply ops TaskQueue_new)"
proof -
  have "tq_balanced tq \<Longrightarrow> tq_balanced (fold tq_apply ops tq)" for tq
  proof (induction ops arbitrary: tq)
    case (Cons op ops)
    have "tq_balanced (tq_apply op tq)"
      using Cons.prems by (cases op) (simp_all add: balanced_enqueue balanced_try_poll
          balanced_remove_expired balanced_shutdown)
    then show ?case using Cons.IH by simp
  qed simp
  moreover have "tq_balanced TaskQueue_new"
    by (simp add: tq_balanced_def TaskQueue_new_def total_pending_def)
  ultimately show ?thesis by blast
qed

section \<open>Shutdown\<close>

lemma poll_unknown_waits:
  assumes "map_of (tq_inner tq) h = None"
    and "\<forall>f\<in>set wakeups. \<forall>tq. map_of (tq_inner tq) h = None \<longrightarrow> map_of (tq_inner (f tq)) h = None"
  shows "snd (poll tq h wakeups) = Waiting"
  using assms
proof (induction wakeups arbitrary: tq)
  case Nil
  then show ?case by (simp add: poll_attempt_def)
next
  case (Cons f fs)
  have "poll_attempt tq h = (tq, Waiting)" using Cons.prems(1) by (simp add: poll_attempt_def)
  then show ?case using Cons by simp
qed

text \<open>
  A shutdown reaches exactly the queues that exist: a poll on one of them returns at
  once, with the next task or with none; a poll on a queue no task was ever sent to goes on
  waiting through any number of wake-ups, for as long as nobody creates the queue.
\<close>

theorem shutdown_reaches_known_queues_only:
  assumes "\<forall>f\<in>set wakeups. \<forall>tq. map_of (tq_inner tq) h = None \<longrightarrow> map_of (tq_inner (f tq)) h = None"
  shows "snd (poll (shutdown tq) h wakeups)
    = (case map_of (tq_inner tq) h of
         None \<Rightarrow> Waiting
       | Some s \<Rightarrow> (case deque s of [] \<Rightarrow> PollNone | t # _ \<Rightarrow> Polled t))"
proof (cases "map_of (tq_inner tq) h")
  case None
  then have "map_of (tq_inner (shutdown tq)) h = None" by (simp add: shutdown_def map_of_map_values)
  then show ?thesis using poll_unknown_waits assms None by auto
next
  case (Some s)
  then have "map_of (tq_inner (shutdown tq)) h = Some (s\<lparr>qs_shutdown := True\<rparr>)"
    by (simp add: shutdown_def map_of_map_values)
  then have "snd (poll_attempt (shutdown tq) h) = (case deque s of [] \<Rightarrow> PollNone | t # _ \<Rightarrow> Polled t)"
    by (simp add: poll_attempt_def split: list.split)
  then show ?thesis
    using Some by (cases wakeups; cases "poll_attempt (shutdown tq) h") (auto split: list.splits)
qed

theorem shutdown_reaches_known_queues_only_witness:
  "snd (poll (shutdown TaskQueue_new) 9 [id, shutdown]) = Waiting"
proof -
  have "\<forall>f\<in>set [id, shutdown]. \<forall>tq. map_of (tq_inner tq) 9 = None \<longrightarrow> map_of (tq_inner (f tq)) 9 = None"
    by (simp add: shutdown_def map_of_map_values)
  from shutdown_reaches_known_queues_only [OF this, of TaskQueue_new] show ?thesis
    by (simp add: TaskQueue_new_def)
qed

text \<open>
  A task of priority 0, the lowest number there is, goes behind every task already queued.
\<close>

lemma priority_zero_goes_last:
  assumes "priority task = 0" and "pending tq h = t # q"
  shows "snd (try_poll (enqueue tq h task now) h) = Some t"
    and "pending (fst (try_poll (enqueue tq h task now) h)) h = q @ [task\<lparr>task_id := next_task_id tq\<rparr>]"
  using assms by (simp_all add: pending_ops place_task_def)

end
