(* ===== verification/Timer_Engine.thy ===== *)
theory Timer_Engine
  imports Prelude "HOL-Library.Multiset"
begin

text \<open>
  The timer engine of \<open>timer_engine.rs\<close>.  The binary heap is a list of entries from which \<open>peek\<close>
  and \<open>pop\<close> take one with the earliest fire time (which one of several is left open by the
  standard library; here the first).  The checker thread is the function \<open>tick\<close>, one pass of
  its loop at one reading of the clock; the callback's calls are the pass's result.
\<close>

record timer_entry =
  fire_at :: instant
  te_workflow_key :: u64
  te_timer_id :: u64

record timer_engine =
  heap :: "timer_entry list"
  next_timer_id :: u64
  tm_shutdown :: bool
  on_fire :: bool

definition TimerEngine_new :: timer_engine where
  "TimerEngine_new = \<lparr>heap = [], next_timer_id = 1, tm_shutdown = False, on_fire = False\<rparr>"

definition set_fire_callback :: "timer_engine \<Rightarrow> timer_engine" where
  "set_fire_callback t = t\<lparr>on_fire := True\<rparr>"

definition schedule :: "timer_engine \<Rightarrow> u64 \<Rightarrow> nat \<Rightarrow> instant \<Rightarrow> timer_engine \<times> u64" where
  "schedule t key delay now =
     (let timer_id = next_timer_id t;
          entry = \<lparr>fire_at = now + delay, te_workflow_key = key, te_timer_id = timer_id\<rparr>
      in (t\<lparr>next_timer_id := next_timer_id t + 1, heap := heap t @ [entry]\<rparr>, timer_id))"

definition cancel :: "timer_engine \<Rightarrow> u64 \<Rightarrow> timer_engine \<times> bool" where
  "cancel t timer_id =
     (let kept = filter (\<lambda>e. te_timer_id e \<noteq> timer_id) (heap t)
      in (t\<lparr>heap := kept\<rparr>, length kept < length (heap t)))"

definition timer_pending_count :: "timer_engine \<Rightarrow> nat" where
  "timer_pending_count t = length (heap t)"

definition heap_peek :: "timer_entry list \<Rightarrow> timer_entry option" where
  "heap_peek h = (if h = [] then None else Some (arg_min_list fire_at h))"

lemma heap_peek_spec:
  "heap_peek h = Some e \<Longrightarrow> e \<in> set h \<and> (\<forall>x\<in>set h. fire_at e \<le> fire_at x)"
proof -
  assume "heap_peek h = Some e"
  then have h: "h \<noteq> []" "e = arg_min_list fire_at h" by (auto simp: heap_peek_def split: if_splits)
  have "fire_at e \<le> fire_at x" if "x \<in> set h" for x
    using that h f_arg_min_list_f [of h fire_at] by simp
  then show ?thesis using h arg_min_list_in [of h fire_at] by simp
qed

function pop_expired :: "instant \<Rightarrow> timer_entry list \<Rightarrow> timer_entry list \<Rightarrow> timer_entry list \<times> timer_entry list" where
  "pop_expired now h fired =
     (case heap_peek h of
        None \<Rightarrow> (h, fired)
      | Some entry \<Rightarrow>
          if fire_at entry \<le> now then pop_expired now (remove1 entry h) (fired @ [entry]) else (h, fired))"
  by pat_completeness auto
termination
  by (relation "measure (\<lambda>(now, h, fired). length h)")
    (auto dest!: heap_peek_spec simp: length_remove1 dest: length_pos_if_in_set)

declare pop_expired.simps [simp del]

text \<open>How long the thread sleeps when nothing fired: until the next timer, at most 100 ms.\<close>

definition wait_duration :: "timer_entry list \<Rightarrow> instant \<Rightarrow> nat" where
  "wait_duration h now =
     min (case heap_peek h of None \<Rightarrow> 500000000 | Some e \<Rightarrow> fire_at e - now) 100000000"

definition tick :: "timer_engine \<Rightarrow> instant \<Rightarrow> timer_engine \<times> timer_entry list \<times> (u64 \<times> u64) list" where
  "tick t now =
     (if tm_shutdown t then (t, [], [])
      else let (h, fired) = pop_expired now (heap t) []
           in (t\<lparr>heap := h\<rparr>, fired,
               if on_fire t then map (\<lambda>e. (te_workflow_key e, te_timer_id e)) fired else []))"

definition timer_shutdown :: "timer_engine \<Rightarrow> timer_engine" where
  "timer_shutdown t = t\<lparr>tm_shutdown := True\<rparr>"

section \<open>What a pass fires\<close>

lemma filter_remove1: "\<not> P x \<Longrightarrow> filter P (remove1 x xs) = filter P xs"
  by (induction xs) auto

lemma pop_expired_spec:
  assumes "sorted (map fire_at fired)" and "\<forall>f\<in>set fired. \<forall>e\<in>set h. fire_at f \<le> fire_at e"
  shows "fst (pop_expired now h fired) = filter (\<lambda>e. \<not> fire_at e \<le> now) h
    \<and> mset (snd (pop_expired now h fired)) = mset fired + mset (filter (\<lambda>e. fire_at e \<le> now) h)
    \<and> sorted (map fire_at (snd (pop_expired now h fired)))"
  using assms
proof (induction now h fired rule: pop_expired.induct)
  case (1 now h fired)
  show ?case
  proof (cases "heap_peek h")
    case None
    then have "h = []" by (simp add: heap_peek_def split: if_splits)
    then show ?thesis using "1.prems" by (simp add: pop_expired.simps [of now "[]"] heap_peek_def)
  next
    case (Some e)
    note e = heap_peek_spec [OF Some]
    show ?thesis
    proof (cases "fire_at e \<le> now")
      case True
      have "sorted (map fire_at (fired @ [e]))" using "1.prems" e by (simp add: sorted_append)
      moreover have "\<forall>f\<in>set (fired @ [e]). \<forall>x\<in>set (remove1 e h). fire_at f \<le> fire_at x"
        using "1.prems" e notin_set_remove1 by (metis UnE empty_iff empty_set list.set(2) insertE set_append)
      moreover have "filter (\<lambda>x. \<not> fire_at x \<le> now) (remove1 e h) = filter (\<lambda>x. \<not> fire_at x \<le> now) h"
        by (rule filter_remove1) (use True in simp)
      moreover have "mset (filter (\<lambda>x. fire_at x \<le> now) h)
          = add_mset e (mset (filter (\<lambda>x. fire_at x \<le> now) (remove1 e h)))"
        using e True by (simp add: mset_filter)
      ultimately show ?thesis
        using "1.IH" [OF Some True] Some True by (simp add: pop_expired.simps [of now h])
    next
      case False
      then have "\<forall>x\<in>set h. \<not> fire_at x \<le> now" using e by fastforce
      then have "filter (\<lambda>x. \<not> fire_at x \<le> now) h = h" "filter (\<lambda>x. fire_at x \<le> now) h = []"
        by (simp_all add: filter_id_conv filter_empty_conv)
      then show ?thesis using Some False "1.prems" by (simp add: pop_expired.simps [of now h])
    qed
  qed
qed

text \<open>
  One pass of the timer thread at a clock reading fires exactly the timers due by then,
  in the order of their fire times, and keeps exactly the others; after shutdown it fires
  nothing.
\<close>

theorem tick_fires_due_timers:
  "case tick t now of (t', fired, calls) \<Rightarrow>
     if tm_shutdown t then t' = t \<and> fired = [] \<and> calls = []
     else heap t' = filter (\<lambda>e. \<not> fire_at e \<le> now) (heap t)
        \<and> mset fired = mset (filter (\<lambda>e. fire_at e \<le> now) (heap t)) \<and> sorted (map fire_at fired)
        \<and> calls = (if on_fire t then map (\<lambda>e. (te_workflow_key e, te_timer_id e)) fired else [])"
  using pop_expired_spec [of "[]" "heap t" now] by (simp add: tick_def case_prod_beta)

section \<open>Every timer has one end\<close>

datatype timer_op = Schedule u64 nat instant | Cancel u64 | Tick instant | SetCallback | TimerShutdown

text \<open>A run, with the ids of the timers fired and of those cancelled.\<close>

fun timer_apply :: "timer_op \<Rightarrow> timer_engine \<times> u64 list \<times> u64 list \<Rightarrow> timer_engine \<times> u64 list \<times> u64 list" where
  "timer_apply (Schedule key delay now) (t, fired, cancelled) = (fst (schedule t key delay now), fired, cancelled)"
| "timer_apply (Cancel i) (t, fired, cancelled) =
     (fst (cancel t i), fired, if snd (cancel t i) then cancelled @ [i] else cancelled)"
| "timer_apply (Tick now) (t, fired, cancelled) =
     (fst (tick t now), fired @ map te_timer_id (fst (snd (tick t now))), cancelled)"
| "timer_apply SetCallback (t, fired, cancelled) = (set_fire_callback t, fired, cancelled)"
| "timer_apply TimerShutdown (t, fired, cancelled) = (timer_shutdown t, fired, cancelled)"

definition ids_below :: "u64 \<Rightarrow> u64 list" where
  "ids_below n = map word_of_nat [1..<unat n]"

definition timer_inv :: "timer_engine \<times> u64 list \<times> u64 list \<Rightarrow> bool" where
  "timer_inv s = (case s of (t, fired, cancelled) \<Rightarrow>
     0 < unat (next_timer_id t) \<and>
     mset (map te_timer_id (heap t)) + mset fired + mset cancelled = mset (ids_below (next_timer_id t)))"

lemma distinct_ids: "distinct (ids_below n)"
proof -
  have "inj_on (word_of_nat :: nat \<Rightarrow> u64) {1..<unat n}"
    using unat_less_exp [of n] by (intro inj_onI) (simp add: word_unat_eq_iff unat_of_nat)
  then show ?thesis by (simp add: ids_below_def distinct_map)
qed

lemma ids_below_inc:
  assumes "0 < unat n" and "Suc (unat n) < 2 ^ 64"
  shows "ids_below (n + 1) = ids_below n @ [n]"
proof -
  have "unat (n + 1) = Suc (unat n)" using assms(2) by (simp add: unat_word_ariths)
  then show ?thesis using assms(1) by (simp add: ids_below_def)
qed

lemma timer_inv_mset:
  "timer_inv (t, fired, cancelled) \<Longrightarrow> mset (map te_timer_id (heap t) @ fired @ cancelled) = mset (ids_below (next_timer_id t))"
  by (simp add: timer_inv_def add.assoc)

lemma timer_inv_distinct:
  "timer_inv (t, fired, cancelled) \<Longrightarrow> distinct (map te_timer_id (heap t) @ fired @ cancelled)"
  using mset_eq_imp_distinct_iff [OF timer_inv_mset] distinct_ids by blast

lemma cancel_ids:
  assumes "distinct (map te_timer_id h)"
  shows "mset (map te_timer_id h) = mset (map te_timer_id (filter (\<lambda>e. te_timer_id e \<noteq> i) h))
    + (if length (filter (\<lambda>e. te_timer_id e \<noteq> i) h) < length h then {#i#} else {#})"
proof (cases "i \<in> te_timer_id ` set h")
  case False
  then have "filter (\<lambda>e. te_timer_id e \<noteq> i) h = h" by (auto simp: filter_id_conv)
  then show ?thesis by simp
next
  case True
  then obtain e where e: "e \<in> set h" "te_timer_id e = i" by auto
  then obtain as bs where h: "h = as @ e # bs" by (meson split_list)
  then have "filter (\<lambda>e. te_timer_id e \<noteq> i) as = as" "filter (\<lambda>e. te_timer_id e \<noteq> i) bs = bs"
    using assms e(2) by (auto simp: filter_id_conv image_iff)
  then have "filter (\<lambda>e. te_timer_id e \<noteq> i) h = as @ bs" using e(2) by (simp add: h)
  then show ?thesis using e(2) by (simp add: h)
qed

lemma timer_inv_step:
  assumes inv: "timer_inv (t, fired, cancelled)" and room: "Suc (unat (next_timer_id t)) < 2 ^ 64"
  shows "timer_inv (timer_apply op (t, fired, cancelled))"
    and "unat (next_timer_id (fst (timer_apply op (t, fired, cancelled)))) \<le> Suc (unat (next_timer_id t))"
proof -
  have "timer_inv (timer_apply op (t, fired, cancelled))
      \<and> unat (next_timer_id (fst (timer_apply op (t, fired, cancelled)))) \<le> Suc (unat (next_timer_id t))"
  proof (cases op)
    case (Schedule key delay now)
    have inc: "unat (next_timer_id t + 1) = Suc (unat (next_timer_id t))"
      using room by (simp add: unat_word_ariths)
    then show ?thesis
      using inv ids_below_inc [OF _ room] by (simp add: Schedule schedule_def Let_def timer_inv_def)
  next
    case (Cancel i)
    have "distinct (map te_timer_id (heap t))" using timer_inv_distinct [OF inv] by simp
    from cancel_ids [OF this, of i] show ?thesis
      using inv by (auto simp: Cancel cancel_def Let_def timer_inv_def split: if_splits)
  next
    case (Tick now)
    have "mset (map te_timer_id (heap (fst (tick t now)))) + mset (map te_timer_id (fst (snd (tick t now))))
        = mset (map te_timer_id (heap t))"
    proof (cases "tm_shutdown t")
      case False
      then have "mset (heap (fst (tick t now))) + mset (fst (snd (tick t now))) = mset (heap t)"
        using pop_expired_spec [of "[]" "heap t" now]
        by (simp add: tick_def case_prod_beta mset_filter)
      then have "image_mset te_timer_id (mset (heap (fst (tick t now))) + mset (fst (snd (tick t now))))
          = image_mset te_timer_id (mset (heap t))" by simp
      then show ?thesis by simp
    qed (simp add: tick_def)
    moreover have "next_timer_id (fst (tick t now)) = next_timer_id t"
      by (simp add: tick_def case_prod_beta)
    ultimately show ?thesis
      using inv by (simp add: Tick timer_inv_def ac_simps)
  qed (use inv in \<open>simp_all add: timer_inv_def set_fire_callback_def timer_shutdown_def\<close>)
  then show "timer_inv (timer_apply op (t, fired, cancelled))"
    "unat (next_timer_id (fst (timer_apply op (t, fired, cancelled)))) \<le> Suc (unat (next_timer_id t))"
    by simp_all
qed

lemma timer_inv_run:
  assumes "timer_inv s" and "unat (next_timer_id (fst s)) + length ops < 2 ^ 64"
  shows "timer_inv (fold timer_apply ops s)"
  using assms
proof (induction ops arbitrary: s)
  case (Cons op ops)
  obtain t fired cancelled where s: "s = (t, fired, cancelled)" by (cases s)
  have "Suc (unat (next_timer_id t)) < 2 ^ 64" using Cons.prems(2) s by simp
  from timer_inv_step [OF Cons.prems(1) [unfolded s] this, of op]
  show ?case using Cons.IH [of "timer_apply op s"] Cons.prems(2) s by simp
qed simp

text \<open>
  C32.  Every timer meets exactly one end: after any scheduling, cancelling and passes of the
  thread, the ids handed out so far are, each once, those of the timers pending, those fired
  and those cancelled; so no timer is lost, fires twice, or fires after it was cancelled.
\<close>

theorem timers_end_once:
  assumes "length ops < 2 ^ 64 - 1"
  shows "case fold timer_apply ops (TimerEngine_new, [], []) of (t, fired, cancelled) \<Rightarrow>
    distinct (map te_timer_id (heap t) @ fired @ cancelled)
    \<and> set (map te_timer_id (heap t) @ fired @ cancelled) = word_of_nat ` {1..<unat (next_timer_id t)}"
proof -
  obtain t fired cancelled where s: "fold timer_apply ops (TimerEngine_new, [], []) = (t, fired, cancelled)"
    by (cases "fold timer_apply ops (TimerEngine_new, [], [])")
  have "timer_inv (TimerEngine_new, [], [])" by (simp add: timer_inv_def TimerEngine_new_def ids_below_def)
  moreover have "unat (next_timer_id (fst (TimerEngine_new, [], []))) + length ops < 2 ^ 64"
    using assms by (simp add: TimerEngine_new_def)
  ultimately have inv: "timer_inv (t, fired, cancelled)" using timer_inv_run s by metis
  have "set (map te_timer_id (heap t) @ fired @ cancelled) = word_of_nat ` {1..<unat (next_timer_id t)}"
    using mset_eq_setD [OF timer_inv_mset [OF inv]] by (simp add: ids_below_def)
  then show ?thesis using timer_inv_distinct [OF inv] by (simp add: s)
qed

theorem timers_end_once_witness:
  "case fold timer_apply [Schedule 5 10 0, Schedule 6 20 0, Schedule 7 5 1, Cancel 2, Tick 6, Tick 30]
          (TimerEngine_new, [], []) of (t, fired, cancelled) \<Rightarrow>
    heap t = [] \<and> fired = [3, 1] \<and> cancelled = [2] \<and> distinct (fired @ cancelled)"
proof -
  let ?ops = "[Schedule 5 10 0, Schedule 6 20 0, Schedule 7 5 1, Cancel 2, Tick 6, Tick 30]"
  have run: "heap (fst (fold timer_apply ?ops (TimerEngine_new, [], []))) = []"
    "snd (fold timer_apply ?ops (TimerEngine_new, [], [])) = ([3, 1], [2])"
    by code_simp+
  show ?thesis using timers_end_once [of ?ops] unfolding case_prod_beta run by simp
qed

end
