(* ===== verification/Event_History.thy ===== *)
theory Event_History
  imports Hash_Map
begin

text \<open>
  The event histories of \<open>event_history.rs\<close>: one append-only list of events per workflow, with
  the queries by id, by type and by page, and the store that keeps them by workflow key.
\<close>

section \<open>One history\<close>

datatype history_event_type = WorkflowStarted | WorkflowCompleted | WorkflowFailed | WorkflowCanceled
  | WorkflowTerminated | WorkflowTimedOut | WorkflowContinuedAsNew | StepCompleted
  | ActivityScheduled | ActivityStarted | ActivityCompleted | ActivityFailed | ActivityTimedOut
  | SignalReceived | UpdateReceived | QueryReceived | TimerStarted | TimerFired | TimerCanceled
  | ChildWorkflowStarted | ChildWorkflowCompleted | ChildWorkflowFailed | MarkerRecorded | WorkflowReset

record history_event =
  event_id :: u64
  event_type :: history_event_type
  he_workflow_key :: u64
  he_timestamp_ms :: u64
  he_payload :: bytes
  he_attributes :: "(string, string) hash_map"

record workflow_history =
  events :: "history_event list"
  next_event_id :: u64

definition WorkflowHistory_new :: workflow_history where
  "WorkflowHistory_new = \<lparr>events = [], next_event_id = 1\<rparr>"

definition append_with_attrs ::
    "workflow_history \<Rightarrow> history_event_type \<Rightarrow> u64 \<Rightarrow> bytes \<Rightarrow> (string, string) hash_map \<Rightarrow> workflow_history \<times> u64" where
  "append_with_attrs h typ key payload attrs =
     (let i = next_event_id h
      in (h\<lparr>next_event_id := next_event_id h + 1,
            events := events h @ [\<lparr>event_id = i, event_type = typ, he_workflow_key = key,
              he_timestamp_ms = 0, he_payload = payload, he_attributes = attrs\<rparr>]\<rparr>, i))"

definition append_event :: "workflow_history \<Rightarrow> history_event_type \<Rightarrow> u64 \<Rightarrow> bytes \<Rightarrow> workflow_history \<times> u64" where
  "append_event h typ key payload =
     (let i = next_event_id h
      in (h\<lparr>next_event_id := next_event_id h + 1,
            events := events h @ [\<lparr>event_id = i, event_type = typ, he_workflow_key = key,
              he_timestamp_ms = 0, he_payload = payload, he_attributes = []\<rparr>]\<rparr>, i))"

definition get_event :: "workflow_history \<Rightarrow> u64 \<Rightarrow> history_event option" where
  "get_event h i = find (\<lambda>e. event_id e = i) (events h)"

definition get_events_by_type :: "workflow_history \<Rightarrow> history_event_type \<Rightarrow> history_event list" where
  "get_events_by_type h typ = filter (\<lambda>e. event_type e = typ) (events h)"

definition last_event_id :: "workflow_history \<Rightarrow> u64" where
  "last_event_id h = (if events h = [] then 0 else event_id (last (events h)))"

definition get_events_page :: "workflow_history \<Rightarrow> u64 \<Rightarrow> nat \<Rightarrow> history_event list" where
  "get_events_page h start max_count = take max_count (filter (\<lambda>e. event_id e \<ge> start) (events h))"

section \<open>The store\<close>

type_synonym history_store = "(u64, workflow_history) hash_map"

definition record_event_with_attrs ::
    "history_store \<Rightarrow> u64 \<Rightarrow> history_event_type \<Rightarrow> bytes \<Rightarrow> (string, string) hash_map \<Rightarrow> history_store \<times> u64" where
  "record_event_with_attrs s key typ payload attrs =
     (let (h, i) = append_with_attrs (get_or s key WorkflowHistory_new) typ key payload attrs
      in (hm_insert s key h, i))"

definition record_event :: "history_store \<Rightarrow> u64 \<Rightarrow> history_event_type \<Rightarrow> bytes \<Rightarrow> history_store \<times> u64" where
  "record_event s key typ payload =
     (let (h, i) = append_event (get_or s key WorkflowHistory_new) typ key payload
      in (hm_insert s key h, i))"

definition get_history :: "history_store \<Rightarrow> u64 \<Rightarrow> history_event list option" where
  "get_history s key = map_option events (map_of s key)"

definition get_history_page :: "history_store \<Rightarrow> u64 \<Rightarrow> u64 \<Rightarrow> nat \<Rightarrow> history_event list" where
  "get_history_page s key start max_count =
     (case map_of s key of None \<Rightarrow> [] | Some h \<Rightarrow> get_events_page h start max_count)"

definition history_event_count :: "history_store \<Rightarrow> u64 \<Rightarrow> nat" where
  "history_event_count s key = (case map_of s key of None \<Rightarrow> 0 | Some h \<Rightarrow> length (events h))"

definition workflow_count :: "history_store \<Rightarrow> nat" where
  "workflow_count s = length s"

definition remove_history :: "history_store \<Rightarrow> u64 \<Rightarrow> history_store \<times> bool" where
  "remove_history s key = (hm_remove s key, map_of s key \<noteq> None)"

section \<open>Ids are positions\<close>

definition history_wf :: "workflow_history \<Rightarrow> bool" where
  "history_wf h \<longleftrightarrow> map event_id (events h) = map word_of_nat [1..<Suc (length (events h))]
     \<and> next_event_id h = word_of_nat (Suc (length (events h)))"

lemma history_wf_new [velocity_wf]: "history_wf WorkflowHistory_new"
  by (simp add: history_wf_def WorkflowHistory_new_def)

lemma append_as_attrs: "append_event h typ key payload = append_with_attrs h typ key payload []"
  by (simp add: append_event_def append_with_attrs_def)

lemma history_wf_append [velocity_wf]:
  "history_wf h \<Longrightarrow> history_wf (fst (append_with_attrs h typ key payload attrs))"
  by (simp add: history_wf_def append_with_attrs_def Let_def)

lemma event_id_nth:
  assumes "history_wf h" and "i < length (events h)"
  shows "event_id (events h ! i) = word_of_nat (Suc i)"
proof -
  have "map event_id (events h) ! i = map word_of_nat [1..<Suc (length (events h))] ! i"
    using assms(1) by (simp add: history_wf_def)
  then show ?thesis using assms(2) by (simp del: upt_Suc)
qed

lemma unat_event_id:
  assumes "history_wf h" and "length (events h) < 2 ^ 64" and "i < length (events h)"
  shows "unat (event_id (events h ! i)) = Suc i"
  unfolding event_id_nth [OF assms(1,3)] unat_of_nat using assms(2,3) by simp

text \<open>A page starts at the position its first id names.\<close>

lemma page_is_slice:
  assumes "history_wf h" and "length (events h) < 2 ^ 64" and "start \<noteq> 0"
  shows "get_events_page h start n = take n (drop (unat start - 1) (events h))"
proof -
  let ?es = "events h" and ?k = "unat start - 1"
  have start: "unat start = Suc ?k" using assms(3) by (simp add: unat_gt_0)
  have "event_id (?es ! i) \<ge> start \<longleftrightarrow> ?k \<le> i" if "i < length ?es" for i
    using unat_event_id [OF assms(1,2) that] start by (simp add: word_le_nat_alt) arith
  then have "\<forall>e\<in>set (take ?k ?es). \<not> event_id e \<ge> start" "\<forall>e\<in>set (drop ?k ?es). event_id e \<ge> start"
    by (auto simp: in_set_conv_nth)
  then have "filter (\<lambda>e. event_id e \<ge> start) (take ?k ?es @ drop ?k ?es) = drop ?k ?es"
    unfolding filter_append by (simp add: filter_empty_conv filter_id_conv del: append_take_drop_id)
  then show ?thesis by (simp add: get_events_page_def)
qed

lemma get_event_at:
  assumes "history_wf h" and "length (events h) < 2 ^ 64" and "i \<noteq> 0"
  shows "get_event h i = (if unat i \<le> length (events h) then Some (events h ! (unat i - 1)) else None)"
proof -
  let ?es = "events h"
  have ids: "event_id (?es ! j) = i \<longleftrightarrow> j = unat i - 1" if "j < length ?es" for j
  proof -
    have "0 < unat i" using assms(3) by (simp add: unat_gt_0)
    then show ?thesis
      using unat_event_id [OF assms(1,2) that] by (auto simp: word_unat_eq_iff)
  qed
  show ?thesis
  proof (cases "unat i \<le> length ?es")
    case True
    then have lt: "unat i - 1 < length ?es" using assms(3) by (simp add: unat_gt_0) (metis Suc_pred unat_gt_0 Suc_le_lessD)
    have "find (\<lambda>e. event_id e = i) ?es = Some (?es ! (unat i - 1))"
      unfolding find_Some_iff using lt ids by (intro exI [of _ "unat i - 1"]) auto
    then show ?thesis using True by (simp add: get_event_def)
  next
    case False
    have "\<forall>e\<in>set ?es. event_id e \<noteq> i"
    proof
      fix e assume "e \<in> set ?es"
      then obtain j where "j < length ?es" "e = ?es ! j" by (auto simp: in_set_conv_nth)
      then show "event_id e \<noteq> i" using unat_event_id [OF assms(1,2), of j] False by auto
    qed
    then have "find (\<lambda>e. event_id e = i) ?es = None" by (simp add: find_None_iff)
    then show ?thesis using False by (simp add: get_event_def)
  qed
qed

section \<open>The store keeps what was recorded\<close>

datatype history_op = RecordEvent u64 history_event_type bytes "(string, string) hash_map" | RemoveHistory u64

fun history_apply :: "history_op \<Rightarrow> history_store \<Rightarrow> history_store" where
  "history_apply (RecordEvent key typ payload attrs) s = fst (record_event_with_attrs s key typ payload attrs)"
| "history_apply (RemoveHistory key) s = fst (remove_history s key)"

lemma record_event_as_op: "fst (record_event s key typ payload) = history_apply (RecordEvent key typ payload []) s"
  by (simp add: record_event_def record_event_with_attrs_def append_as_attrs case_prod_beta Let_def)

text \<open>What was recorded for a key since its history was last removed.\<close>

fun recorded :: "u64 \<Rightarrow> history_op \<Rightarrow> (history_event_type \<times> bytes \<times> (string, string) hash_map) list
    \<Rightarrow> (history_event_type \<times> bytes \<times> (string, string) hash_map) list" where
  "recorded key (RecordEvent k typ payload attrs) acc = (if k = key then acc @ [(typ, payload, attrs)] else acc)"
| "recorded key (RemoveHistory k) acc = (if k = key then [] else acc)"

abbreviation history_of :: "history_store \<Rightarrow> u64 \<Rightarrow> workflow_history" where
  "history_of s key \<equiv> get_or s key WorkflowHistory_new"

definition event_data :: "history_event \<Rightarrow> history_event_type \<times> bytes \<times> (string, string) hash_map" where
  "event_data e = (event_type e, he_payload e, he_attributes e)"

definition store_inv :: "history_store \<Rightarrow> bool" where
  "store_inv s \<longleftrightarrow> (\<forall>key. history_wf (history_of s key) \<and> (\<forall>e\<in>set (events (history_of s key)). he_workflow_key e = key))"

lemma history_of_apply:
  "history_of (history_apply op s) key = (case op of
     RecordEvent k typ payload attrs \<Rightarrow>
       if key = k then fst (append_with_attrs (history_of s key) typ key payload attrs) else history_of s key
   | RemoveHistory k \<Rightarrow> if key = k then WorkflowHistory_new else history_of s key)"
  by (cases op) (auto simp: record_event_with_attrs_def remove_history_def case_prod_beta Let_def get_or_def)

lemma store_run:
  assumes "store_inv s" and "map event_data (events (history_of s key)) = acc"
  shows "store_inv (fold history_apply ops s)
    \<and> map event_data (events (history_of (fold history_apply ops s) key)) = fold (recorded key) ops acc"
  using assms
proof (induction ops arbitrary: s acc)
  case (Cons op ops)
  have "history_wf (history_of (history_apply op s) k)
      \<and> (\<forall>e\<in>set (events (history_of (history_apply op s) k)). he_workflow_key e = k)" for k
    unfolding history_of_apply using Cons.prems(1) history_wf_append history_wf_new
    by (cases op) (auto simp: store_inv_def append_with_attrs_def WorkflowHistory_new_def Let_def)
  then have inv: "store_inv (history_apply op s)" by (simp add: store_inv_def)
  have "map event_data (events (history_of (history_apply op s) key)) = recorded key op acc"
    unfolding history_of_apply using Cons.prems(2)
    by (cases op) (auto simp: append_with_attrs_def event_data_def WorkflowHistory_new_def Let_def)
  from Cons.IH [OF inv this] show ?case by simp
qed simp

lemma store_inv_empty: "store_inv []"
  by (simp add: store_inv_def history_wf_new WorkflowHistory_new_def) (simp add: history_wf_def)

text \<open>
  C33.  The history of a workflow is what was recorded for it, in order and nothing else, since
  its history was last removed; ids count up from 1, so that the event with id \<open>i\<close> is the
  \<open>i\<close>-th, and a page of \<open>n\<close> events from id \<open>i\<close> is the \<open>n\<close> events from the \<open>i\<close>-th on.
\<close>

theorem history_is_what_was_recorded:
  fixes ops :: "history_op list" and key i :: u64 and n :: nat
  defines "s \<equiv> fold history_apply ops []"
  assumes "length (events (history_of s key)) < 2 ^ 64" and "i \<noteq> 0"
  shows "map event_data (events (history_of s key)) = fold (recorded key) ops []
    \<and> get_history_page s key i n = take n (drop (unat i - 1) (events (history_of s key)))
    \<and> get_event (history_of s key) i
        = (if unat i \<le> length (events (history_of s key)) then Some (events (history_of s key) ! (unat i - 1)) else None)"
proof -
  have "map event_data (events (history_of [] key)) = []" by (simp add: get_or_def WorkflowHistory_new_def)
  from store_run [OF store_inv_empty this, of ops]
  have inv: "history_wf (history_of s key)"
    and data: "map event_data (events (history_of s key)) = fold (recorded key) ops []"
    by (auto simp: s_def store_inv_def)
  have "get_history_page s key i n = get_events_page (history_of s key) i n"
    by (simp add: get_history_page_def get_or_def get_events_page_def WorkflowHistory_new_def split: option.split)
  then show ?thesis
    using data page_is_slice [OF inv assms(2,3)] get_event_at [OF inv assms(2,3)] by simp
qed

theorem history_is_what_was_recorded_witness:
  "let s = fold history_apply [RecordEvent 5 WorkflowStarted [1] [], RecordEvent 6 WorkflowStarted [2] [],
             RecordEvent 5 StepCompleted [3] []] []
   in map event_data (get_history_page s 5 2 10) = [(StepCompleted, [3], [])]"
proof -
  let ?s = "fold history_apply [RecordEvent 5 WorkflowStarted [1] [], RecordEvent 6 WorkflowStarted [2] [],
             RecordEvent 5 StepCompleted [3] []] []"
  have ev: "map event_data (events (history_of ?s 5)) = [(WorkflowStarted, [1], []), (StepCompleted, [3], [])]"
    by code_simp
  then have "length (events (history_of ?s 5)) = 2" by (metis length_map length_Cons list.size(3) numeral_2_eq_2 One_nat_def)
  then show ?thesis
    using history_is_what_was_recorded [of "[RecordEvent 5 WorkflowStarted [1] [], RecordEvent 6 WorkflowStarted [2] [],
             RecordEvent 5 StepCompleted [3] []]" 5 2 10] ev
    unfolding Let_def by (simp flip: drop_map del: history_apply.simps)
qed

end
