(* ===== verification/Workflow_Context.thy ===== *)
theory Workflow_Context
  imports Slab Zero_Alloc
begin

text \<open>
  The execution state of one workflow in \<open>engine.rs\<close>: retry policies, activity timeouts and the
  \<open>WorkflowContext\<close> with its slab header, step results and signal and update buffers.  Clock
  readings are arguments.  The floating-point computation in \<open>calculate_delay\<close>, a number of
  milliseconds times a power of the backoff coefficient, truncated to \<open>u64\<close>, is the parameter
  \<open>scale\<close>; the coefficient is its bit pattern.
\<close>

section \<open>Retry policies and activity timeouts\<close>

type_synonym f64_scale = "nat \<Rightarrow> u64 \<Rightarrow> int \<Rightarrow> u64"

record activity_retry_policy =
  max_attempts :: u32
  initial_interval :: nat
  backoff_coefficient :: u64
  max_interval :: "nat option"

definition ActivityRetryPolicy_new :: "u32 \<Rightarrow> u64 \<Rightarrow> u64 \<Rightarrow> activity_retry_policy" where
  "ActivityRetryPolicy_new attempts initial_ms coefficient =
     \<lparr>max_attempts = attempts, initial_interval = from_millis initial_ms,
      backoff_coefficient = coefficient, max_interval = None\<rparr>"

definition with_max_interval :: "activity_retry_policy \<Rightarrow> u64 \<Rightarrow> activity_retry_policy" where
  "with_max_interval p ms = p\<lparr>max_interval := Some (from_millis ms)\<rparr>"

definition calculate_delay :: "f64_scale \<Rightarrow> activity_retry_policy \<Rightarrow> u32 \<Rightarrow> nat" where
  "calculate_delay scale p attempt =
     (let delay = from_millis (scale (initial_interval p div 1000000) (backoff_coefficient p) (sint attempt))
      in case max_interval p of Some m \<Rightarrow> min delay m | None \<Rightarrow> delay)"

record activity_timeouts =
  schedule_to_start :: "nat option"
  start_to_close :: "nat option"
  schedule_to_close :: "nat option"
  heartbeat_timeout :: "nat option"
  scheduled_at :: instant
  started_at :: "instant option"
  at_retry_policy :: "activity_retry_policy option"
  at_attempt :: u32

definition ActivityTimeouts_new ::
    "nat option \<Rightarrow> nat option \<Rightarrow> nat option \<Rightarrow> nat option \<Rightarrow> instant \<Rightarrow> activity_timeouts" where
  "ActivityTimeouts_new sts stc sc hb now =
     \<lparr>schedule_to_start = sts, start_to_close = stc, schedule_to_close = sc, heartbeat_timeout = hb,
      scheduled_at = now, started_at = None, at_retry_policy = None, at_attempt = 1\<rparr>"

definition with_retry_policy :: "activity_timeouts \<Rightarrow> activity_retry_policy \<Rightarrow> activity_timeouts" where
  "with_retry_policy t p = t\<lparr>at_retry_policy := Some p\<rparr>"

definition mark_started :: "activity_timeouts \<Rightarrow> instant \<Rightarrow> activity_timeouts" where
  "mark_started t now = t\<lparr>started_at := Some now\<rparr>"

text \<open>\<open>duration_since\<close> of a later instant is zero.\<close>

definition check_timeouts :: "activity_timeouts \<Rightarrow> instant \<Rightarrow> string option" where
  "check_timeouts t now =
     (if (case schedule_to_start t of None \<Rightarrow> False
          | Some timeout \<Rightarrow> started_at t = None \<and> now - scheduled_at t > timeout) then Some ''ScheduleToStart''
      else if (case (start_to_close t, started_at t) of (Some timeout, Some started) \<Rightarrow> now - started > timeout
               | _ \<Rightarrow> False) then Some ''StartToClose''
      else if (case schedule_to_close t of None \<Rightarrow> False
               | Some timeout \<Rightarrow> now - scheduled_at t > timeout) then Some ''ScheduleToClose''
      else None)"

section \<open>The context\<close>

datatype workflow_status = Void | Running | Completed | Failed | Canceled | Terminated | WContinuedAsNew | TimedOut

datatype parent_close_policy = PTerminate | PCancel | PAbandon

record workflow_context =
  wc_workflow_id :: u64
  wc_run_id :: u64
  wc_workflow_type_id :: u64
  wc_namespace_id :: u64
  wc_task_queue_hash :: u64
  wc_slab :: slab_header
  wc_status :: workflow_status
  step_results :: "bytes slot_map"
  signal_buffer :: "bytes slot_vec"
  update_buffer :: "bytes slot_vec"
  start_time :: instant
  close_time :: "instant option"
  event_sequence :: u64
  parent_key :: "u64 option"
  child_keys :: "u64 list"
  input_data :: "bytes option"
  result_data :: "bytes option"
  wc_activity_timeouts :: "activity_timeouts slot_map"
  activity_inputs :: "bytes slot_map"
  workflow_execution_timeout :: "nat option"
  workflow_run_timeout :: "nat option"
  workflow_task_timeout :: "nat option"

definition WorkflowContext_new :: "digest_fn \<Rightarrow> u64 \<Rightarrow> u64 \<Rightarrow> u64 \<Rightarrow> u64 \<Rightarrow> u32 \<Rightarrow> instant \<Rightarrow> workflow_context" where
  "WorkflowContext_new sha wid rid tid tq steps now =
     \<lparr>wc_workflow_id = wid, wc_run_id = rid, wc_workflow_type_id = tid, wc_namespace_id = 0,
      wc_task_queue_hash = tq, wc_slab = SlabHeader_new sha wid rid steps, wc_status = Running,
      step_results = SlotMap_with_capacity 64, signal_buffer = SlotVec_with_capacity 16,
      update_buffer = SlotVec_with_capacity 16, start_time = now, close_time = None,
      event_sequence = 0, parent_key = None, child_keys = [], input_data = None, result_data = None,
      wc_activity_timeouts = SlotMap_with_capacity 16, activity_inputs = SlotMap_with_capacity 16,
      workflow_execution_timeout = None, workflow_run_timeout = None, workflow_task_timeout = None\<rparr>"

definition Context_is_step_completed :: "workflow_context \<Rightarrow> u32 \<Rightarrow> bool" where
  "Context_is_step_completed c step = is_step_set (sh_step_bitmask (wc_slab c)) (unat step)"

definition Context_complete_step :: "digest_fn \<Rightarrow> workflow_context \<Rightarrow> u32 \<Rightarrow> bytes \<Rightarrow> workflow_context" where
  "Context_complete_step sha c step result =
     c\<lparr>wc_slab := fst (mark_step_completed sha (wc_slab c) (unat step)),
       step_results := SlotMap_insert (step_results c) (ucast step) result,
       event_sequence := event_sequence c + 1\<rparr>"

definition Context_get_step_result :: "workflow_context \<Rightarrow> u32 \<Rightarrow> bytes option" where
  "Context_get_step_result c step = SlotMap_get (step_results c) (ucast step)"

definition Context_signal :: "workflow_context \<Rightarrow> u64 \<Rightarrow> bytes \<Rightarrow> workflow_context" where
  "Context_signal c name payload =
     c\<lparr>signal_buffer := SlotVec_push (signal_buffer c) name payload, event_sequence := event_sequence c + 1\<rparr>"

definition Context_update :: "workflow_context \<Rightarrow> u64 \<Rightarrow> bytes \<Rightarrow> workflow_context" where
  "Context_update c name payload =
     c\<lparr>update_buffer := SlotVec_push (update_buffer c) name payload, event_sequence := event_sequence c + 1\<rparr>"

definition Context_has_update :: "workflow_context \<Rightarrow> u64 \<Rightarrow> bool" where
  "Context_has_update c name \<longleftrightarrow> \<not> SlotVec_is_empty_at (update_buffer c) name"

definition Context_take_update :: "workflow_context \<Rightarrow> u64 \<Rightarrow> workflow_context \<times> bytes option" where
  "Context_take_update c name =
     (case SlotVec_pop_front (update_buffer c) name of (b, r) \<Rightarrow> (c\<lparr>update_buffer := b\<rparr>, r))"

definition Context_has_signal :: "workflow_context \<Rightarrow> u64 \<Rightarrow> bool" where
  "Context_has_signal c name \<longleftrightarrow> \<not> SlotVec_is_empty_at (signal_buffer c) name"

definition Context_take_signal :: "workflow_context \<Rightarrow> u64 \<Rightarrow> workflow_context \<times> bytes option" where
  "Context_take_signal c name =
     (case SlotVec_pop_front (signal_buffer c) name of (b, r) \<Rightarrow> (c\<lparr>signal_buffer := b\<rparr>, r))"

definition Context_complete :: "workflow_context \<Rightarrow> bytes option \<Rightarrow> instant \<Rightarrow> workflow_context" where
  "Context_complete c result now = c\<lparr>result_data := result, wc_status := Completed, close_time := Some now\<rparr>"

definition Context_fail :: "workflow_context \<Rightarrow> instant \<Rightarrow> workflow_context" where
  "Context_fail c now = c\<lparr>wc_status := Failed, close_time := Some now\<rparr>"

definition Context_cancel :: "workflow_context \<Rightarrow> instant \<Rightarrow> workflow_context" where
  "Context_cancel c now = c\<lparr>wc_status := Canceled, close_time := Some now\<rparr>"

definition Context_terminate :: "workflow_context \<Rightarrow> instant \<Rightarrow> workflow_context" where
  "Context_terminate c now = c\<lparr>wc_status := Terminated, close_time := Some now\<rparr>"

text \<open>The key that start, child start and continue-as-new compute in the same way.\<close>

definition workflow_key_of :: "u64 \<Rightarrow> u64 \<Rightarrow> u64" where
  "workflow_key_of namespace wid = push_bit 32 namespace OR wid"

definition Context_key :: "workflow_context \<Rightarrow> u64" where
  "Context_key c = workflow_key_of (wc_namespace_id c) (wc_workflow_id c)"

section \<open>Keys\<close>

lemma bit_workflow_key:
  "bit (workflow_key_of n w) i \<longleftrightarrow> (32 \<le> i \<and> i < 64 \<and> bit n (i - 32)) \<or> bit w i"
  by (auto simp: workflow_key_of_def bit_simps dest: bit_imp_le_length)

lemma small_no_high_bits:
  assumes "(w :: u64) < 2 ^ 32" and "32 \<le> i"
  shows "\<not> bit w i"
proof -
  have "unat w < 2 ^ 32" using assms(1) by (simp add: word_less_nat_alt)
  also have "(2 :: nat) ^ 32 \<le> 2 ^ i" using assms(2) by (rule power_increasing) simp
  finally have "\<not> bit (unat w) i" by (simp add: bit_iff_odd)
  then show ?thesis by (simp add: bit_unsigned_iff)
qed

lemma workflow_key_inj:
  assumes "n < 2 ^ 32" "w < 2 ^ 32" "n' < 2 ^ 32" "w' < 2 ^ 32"
    and eq: "workflow_key_of n w = workflow_key_of n' w'"
  shows "n = n' \<and> w = w'"
proof
  note high = small_no_high_bits [OF assms(1)] small_no_high_bits [OF assms(2)]
    small_no_high_bits [OF assms(3)] small_no_high_bits [OF assms(4)]
  have bits: "bit (workflow_key_of n w) i \<longleftrightarrow> bit (workflow_key_of n' w') i" for i by (simp add: eq)
  show "w = w'"
  proof (rule bit_word_eqI)
    fix i assume "i < LENGTH(64)"
    show "bit w i \<longleftrightarrow> bit w' i"
      using bits [of i] high(2,4) [of i] by (cases "32 \<le> i") (auto simp: bit_workflow_key)
  qed
  show "n = n'"
  proof (rule bit_word_eqI)
    fix i assume i: "i < LENGTH(64)"
    show "bit n i \<longleftrightarrow> bit n' i"
      using bits [of "i + 32"] high [of "i + 32"] high(1,3) [of i]
      by (cases "32 \<le> i") (auto simp: bit_workflow_key)
  qed
qed

section \<open>Completing steps\<close>

definition context_wf :: "digest_fn \<Rightarrow> workflow_context \<Rightarrow> bool" where
  "context_wf sha c \<longleftrightarrow> slab_ok sha (wc_slab c) \<and> slot_map_wf (step_results c)"

lemma context_wf_new: "digest32 sha \<Longrightarrow> context_wf sha (WorkflowContext_new sha wid rid tid tq steps now)"
  by (simp add: context_wf_def WorkflowContext_new_def slab_ok_new)

lemma context_wf_complete_step:
  "digest32 sha \<Longrightarrow> context_wf sha c \<Longrightarrow> context_wf sha (Context_complete_step sha c s r)"
  by (simp add: context_wf_def Context_complete_step_def slab_ok_mark sm.wf_put)

lemma unat_ucast_u32 [simp]: "unat (ucast (s :: u32) :: u64) = unat s"
  using unat_less_exp [of s] by (simp add: unsigned_ucast_eq take_bit_nat_eq_self_iff)

lemma ucast_u32_eq: "(ucast (s :: u32) :: u64) = ucast t \<longleftrightarrow> s = t"
  by (simp add: word_unat_eq_iff)

lemma complete_step_effect:
  assumes "context_wf sha c"
  shows "Context_get_step_result (Context_complete_step sha c s r) t
      = (if t = s then Some r else Context_get_step_result c t)"
    and "Context_is_step_completed (Context_complete_step sha c s r) t
      \<longleftrightarrow> (t = s \<and> unat s < 256) \<or> Context_is_step_completed c t"
proof -
  show "Context_get_step_result (Context_complete_step sha c s r) t
      = (if t = s then Some r else Context_get_step_result c t)"
    using assms by (simp add: Context_get_step_result_def Context_complete_step_def context_wf_def
        sm.lookup_put ucast_u32_eq)
  have "bitmask_wf (sh_step_bitmask (wc_slab c))"
    using assms by (simp add: context_wf_def slab_ok_def slab_wf_def)
  from steps_of_set_step [OF this, of "unat s"]
  show "Context_is_step_completed (Context_complete_step sha c s r) t
      \<longleftrightarrow> (t = s \<and> unat s < 256) \<or> Context_is_step_completed c t"
    by (auto simp: Context_is_step_completed_def Context_complete_step_def steps_of_def set_eq_iff
        word_unat_eq_iff split: if_splits)
qed

lemma complete_steps_effect:
  assumes "digest32 sha" and "context_wf sha c"
  shows "context_wf sha (fold (\<lambda>(s, r) c. Context_complete_step sha c s r) xs c)
    \<and> Context_get_step_result (fold (\<lambda>(s, r) c. Context_complete_step sha c s r) xs c) t
        = (case map_of (rev xs) t of None \<Rightarrow> Context_get_step_result c t | Some r \<Rightarrow> Some r)
    \<and> (Context_is_step_completed (fold (\<lambda>(s, r) c. Context_complete_step sha c s r) xs c) t
        \<longleftrightarrow> (t \<in> fst ` set xs \<and> unat t < 256) \<or> Context_is_step_completed c t)
    \<and> event_sequence (fold (\<lambda>(s, r) c. Context_complete_step sha c s r) xs c)
        = event_sequence c + word_of_nat (length xs)"
  using assms(2)
proof (induction xs arbitrary: c)
  case (Cons x xs)
  obtain s r where x: "x = (s, r)" by (cases x)
  have wf: "context_wf sha (Context_complete_step sha c s r)"
    by (rule context_wf_complete_step [OF assms(1) Cons.prems])
  have "event_sequence (Context_complete_step sha c s r) = event_sequence c + 1"
    by (simp add: Context_complete_step_def)
  then show ?case
    using Cons.IH [OF wf] complete_step_effect [OF Cons.prems, of s r t]
    by (auto simp: x map_add_def split: option.splits)
qed simp

text \<open>
  C34.  A workflow keeps what its steps returned: after any completions, in any order and with
  repetitions, the cached result of a step is the last one reported for it, a step below 256
  counts as completed exactly when it was reported, and the slab header still verifies.  A
  step from 256 on never counts as completed, though its result is cached.
\<close>

theorem completed_steps_are_cached:
  assumes "digest32 sha"
  shows "let c = fold (\<lambda>(s, r) c. Context_complete_step sha c s r) xs (WorkflowContext_new sha wid rid tid tq steps now)
    in Context_get_step_result c t = map_of (rev xs) t
       \<and> (Context_is_step_completed c t \<longleftrightarrow> t \<in> fst ` set xs \<and> unat t < 256)
       \<and> slab_ok sha (wc_slab c) \<and> event_sequence c = word_of_nat (length xs)"
proof -
  let ?c = "WorkflowContext_new sha wid rid tid tq steps now"
  have "Context_get_step_result ?c t = None" "\<not> Context_is_step_completed ?c t" "event_sequence ?c = 0"
    using steps_of_new
    by (auto simp: SlotMap_get_map_of [OF slot_map_wf_new] Context_get_step_result_def Context_is_step_completed_def WorkflowContext_new_def steps_of_def)
  then show ?thesis
    using complete_steps_effect [OF assms context_wf_new [OF assms], of xs wid rid tid tq steps now t]
    by (auto simp: Let_def context_wf_def split: option.splits)
qed

theorem completed_steps_are_cached_witness:
  "let sha = (\<lambda>_. replicate 32 0);
       c = fold (\<lambda>(s, r) c. Context_complete_step sha c s r) [(0, [1]), (300, [2]), (0, [3])]
             (WorkflowContext_new sha 1 1 1 1 2 0)
   in Context_get_step_result c 0 = Some [3] \<and> Context_get_step_result c 300 = Some [2]
      \<and> Context_is_step_completed c 0 \<and> \<not> Context_is_step_completed c 300"
proof -
  let ?sha = "\<lambda>_. replicate 32 0"
  have sha: "digest32 ?sha" by (simp add: digest32_def)
  show ?thesis
    using completed_steps_are_cached [OF sha, of "[(0, [1]), (300, [2]), (0, [3])]" 1 1 1 1 2 0 0]
      completed_steps_are_cached [OF sha, of "[(0, [1]), (300, [2]), (0, [3])]" 1 1 1 1 2 0 300]
    by (simp add: Let_def)
qed

text \<open>
  Workflow keys are unique as long as namespace and workflow ids are below two to the
  32: two different pairs never share a key.  Beyond that they do, for the workflow id is
  or-ed onto the shifted namespace without a mask.
\<close>

theorem workflow_keys_unique:
  "(n < 2 ^ 32 \<and> w < 2 ^ 32 \<and> n' < 2 ^ 32 \<and> w' < 2 ^ 32 \<and> (n, w) \<noteq> (n', w')
      \<longrightarrow> workflow_key_of n w \<noteq> workflow_key_of n' w')
   \<and> workflow_key_of 1 5 = workflow_key_of 0 (2 ^ 32 + 5)"
proof
  show "n < 2 ^ 32 \<and> w < 2 ^ 32 \<and> n' < 2 ^ 32 \<and> w' < 2 ^ 32 \<and> (n, w) \<noteq> (n', w')
      \<longrightarrow> workflow_key_of n w \<noteq> workflow_key_of n' w'"
    using workflow_key_inj by blast
  show "workflow_key_of 1 5 = workflow_key_of 0 (2 ^ 32 + 5)"
    by (simp add: workflow_key_of_def)
qed

theorem workflow_keys_unique_witness:
  "workflow_key_of 1 5 \<noteq> workflow_key_of 2 5"
  using conjunct1 [OF workflow_keys_unique [of 1 5 2 5]] by simp

end
