(* ===== verification/Wal.thy ===== *)
theory Wal
  imports Vctp_Packet Hash_Map
begin

text \<open>
  The write-ahead log of \<open>wal.rs\<close>: records and their encoding, the writer, the reader and the
  manager with its rotated files.  A file is its bytes, with the length the last fsync
  covered; reading from a file is decoding its bytes and handing back the rest.  Calls into the
  file system are taken to succeed; what can fail here is what the code finds in a
  file.  The thread that syncs in the background is a call of \<open>WalWriter_sync\<close> between two
  other calls.
\<close>

section \<open>Records\<close>

definition WAL_MAGIC :: bytes where
  "WAL_MAGIC = [0x56, 0x45, 0x4C, 0x4F]"

definition WAL_VERSION :: u32 where
  "WAL_VERSION = 1"

definition WAL_VERSION_MAX :: u32 where
  "WAL_VERSION_MAX = 1"

datatype wal_event_type = WalWorkflowStarted | WalStepCompleted | WalWorkflowCompleted
  | WalWorkflowFailed | WalWorkflowCanceled | WalWorkflowTerminated | WalSignalReceived
  | WalTimerScheduled | WalActivityScheduled | WalChildWorkflowStarted

fun wal_event_code :: "wal_event_type \<Rightarrow> u8" where
  "wal_event_code WalWorkflowStarted = 1"
| "wal_event_code WalStepCompleted = 2"
| "wal_event_code WalWorkflowCompleted = 3"
| "wal_event_code WalWorkflowFailed = 4"
| "wal_event_code WalWorkflowCanceled = 5"
| "wal_event_code WalWorkflowTerminated = 6"
| "wal_event_code WalSignalReceived = 7"
| "wal_event_code WalTimerScheduled = 8"
| "wal_event_code WalActivityScheduled = 9"
| "wal_event_code WalChildWorkflowStarted = 10"

definition WalEventType_from_u8 :: "u8 \<Rightarrow> wal_event_type option" where
  "WalEventType_from_u8 v =
     (if v = 1 then Some WalWorkflowStarted
      else if v = 2 then Some WalStepCompleted
      else if v = 3 then Some WalWorkflowCompleted
      else if v = 4 then Some WalWorkflowFailed
      else if v = 5 then Some WalWorkflowCanceled
      else if v = 6 then Some WalWorkflowTerminated
      else if v = 7 then Some WalSignalReceived
      else if v = 8 then Some WalTimerScheduled
      else if v = 9 then Some WalActivityScheduled
      else if v = 10 then Some WalChildWorkflowStarted
      else None)"

record wal_record =
  wr_event_type :: wal_event_type
  wr_workflow_key :: u64
  wr_data :: bytes

definition WalRecord_new :: "wal_event_type \<Rightarrow> u64 \<Rightarrow> bytes \<Rightarrow> wal_record" where
  "WalRecord_new typ key data = \<lparr>wr_event_type = typ, wr_workflow_key = key, wr_data = data\<rparr>"

section \<open>The checksum\<close>

definition crc_table_step :: "u32 \<Rightarrow> u32" where
  "crc_table_step crc = (if crc AND 1 \<noteq> 0 then 0xEDB88320 XOR drop_bit 1 crc else drop_bit 1 crc)"

definition make_crc32_table :: "u32 list" where
  "make_crc32_table = map (\<lambda>i. (crc_table_step ^^ 8) (word_of_nat i)) [0..<256]"

definition crc32_fast :: "bytes \<Rightarrow> u32" where
  "crc32_fast data =
     fold (\<lambda>byte crc. make_crc32_table ! unat ((crc XOR ucast byte) AND 0xFF) XOR drop_bit 8 crc)
       data 0xFFFFFFFF XOR 0xFFFFFFFF"

section \<open>Encoding and decoding\<close>

datatype io_error = UnexpectedEof | InvalidEventType | CrcMismatch | BadMagic | UnsupportedVersion

definition record_body :: "wal_record \<Rightarrow> bytes" where
  "record_body r = wal_event_code (wr_event_type r) # to_le_bytes (wr_workflow_key r)
     @ to_le_bytes (word_of_nat (length (wr_data r)) :: u32) @ wr_data r"

definition WalRecord_encode :: "wal_record \<Rightarrow> bytes" where
  "WalRecord_encode r = record_body r @ to_le_bytes (crc32_fast (record_body r))"

text \<open>The \<open>?\<close> operator, and \<open>read_exact\<close> on a reader that has the given bytes left.\<close>

definition and_then :: "'e + 'a \<Rightarrow> ('a \<Rightarrow> 'e + 'b) \<Rightarrow> 'e + 'b" where
  "and_then r f = (case r of Inl e \<Rightarrow> Inl e | Inr x \<Rightarrow> f x)"

definition read_exact :: "nat \<Rightarrow> bytes \<Rightarrow> io_error + bytes \<times> bytes" where
  "read_exact n bs = (if length bs < n then Inl UnexpectedEof else Inr (take n bs, drop n bs))"

definition WalRecord_decode :: "bytes \<Rightarrow> io_error + (wal_record \<times> bytes) option" where
  "WalRecord_decode bs =
     (case bs of
        [] \<Rightarrow> Inr None
      | event_byte # bs \<Rightarrow>
          (case WalEventType_from_u8 event_byte of
             None \<Rightarrow> Inl InvalidEventType
           | Some typ \<Rightarrow>
               and_then (read_exact 8 bs) (\<lambda>(key_buf, bs).
               and_then (read_exact 4 bs) (\<lambda>(len_buf, bs).
               let workflow_key = from_le_bytes key_buf :: u64;
                   data_len = unat (from_le_bytes len_buf :: u32) in
               and_then (read_exact data_len bs) (\<lambda>(data, bs).
               and_then (read_exact 4 bs) (\<lambda>(crc_buf, bs).
               let check_buf = event_byte # to_le_bytes workflow_key
                     @ to_le_bytes (word_of_nat data_len :: u32) @ data in
               if crc32_fast check_buf \<noteq> from_le_bytes crc_buf then Inl CrcMismatch
               else Inr (Some (WalRecord_new typ workflow_key data, bs))))))))"

lemma decode_shorter: "WalRecord_decode bs = Inr (Some (r, rest)) \<Longrightarrow> length rest < length bs"
  by (auto simp: WalRecord_decode_def and_then_def read_exact_def Let_def
      split: list.splits option.splits sum.splits if_splits prod.splits)

function read_loop :: "bytes \<Rightarrow> io_error + wal_record list" where
  "read_loop bs =
     (case WalRecord_decode bs of
        Inl e \<Rightarrow> Inl e
      | Inr None \<Rightarrow> Inr []
      | Inr (Some (r, rest)) \<Rightarrow> map_sum id ((#) r) (read_loop rest))"
  by pat_completeness auto
termination
  by (relation "measure length") (auto dest: decode_shorter)

declare read_loop.simps [simp del]

definition wal_header :: bytes where
  "wal_header = WAL_MAGIC @ to_le_bytes WAL_VERSION"

definition read_wal_records :: "bytes \<Rightarrow> io_error + wal_record list" where
  "read_wal_records file =
     and_then (read_exact 4 file) (\<lambda>(magic, bs).
     if magic \<noteq> WAL_MAGIC then Inl BadMagic
     else and_then (read_exact 4 bs) (\<lambda>(ver_bytes, bs).
     if (from_le_bytes ver_bytes :: u32) > WAL_VERSION_MAX then Inl UnsupportedVersion
     else read_loop bs))"

section \<open>Writer\<close>

record wal_writer =
  ww_file :: bytes
  ww_durable :: nat
  ww_record_count :: u64
  ww_unsynced_count :: u64

text \<open>
  Opening a path with the contents found there, if there are any.  What is found is what survived
  the last failure, so it counts as being on disk; the open itself syncs nothing, and the
  header of a new file waits for the first sync.
\<close>

definition WalWriter_open :: "bytes option \<Rightarrow> wal_writer" where
  "WalWriter_open found =
     (let file = (case found of None \<Rightarrow> [] | Some f \<Rightarrow> f)
      in \<lparr>ww_file = (if file = [] then wal_header else file), ww_durable = length file,
          ww_record_count = 0, ww_unsynced_count = 0\<rparr>)"

definition WalWriter_append :: "wal_writer \<Rightarrow> wal_record \<Rightarrow> wal_writer" where
  "WalWriter_append w r =
     w\<lparr>ww_file := ww_file w @ WalRecord_encode r, ww_record_count := ww_record_count w + 1,
       ww_unsynced_count := ww_unsynced_count w + 1\<rparr>"

definition WalWriter_sync :: "wal_writer \<Rightarrow> wal_writer" where
  "WalWriter_sync w =
     (if ww_unsynced_count w > 0 then w\<lparr>ww_durable := length (ww_file w), ww_unsynced_count := 0\<rparr> else w)"

definition WalWriter_append_event :: "wal_writer \<Rightarrow> wal_event_type \<Rightarrow> u64 \<Rightarrow> bytes \<Rightarrow> wal_writer" where
  "WalWriter_append_event w typ key data = WalWriter_append w (WalRecord_new typ key data)"

section \<open>Manager\<close>

text \<open>The rotated files are kept by the number that ends their path.\<close>

record wal_manager =
  wm_writer :: wal_writer
  wm_rotated :: "(nat, bytes) hash_map"
  wm_max_file_size :: u64
  wm_retain_count :: nat

definition WalManager_with_retention :: "bytes option \<Rightarrow> (nat, bytes) hash_map \<Rightarrow> u64 \<Rightarrow> nat \<Rightarrow> wal_manager" where
  "WalManager_with_retention found rotated max_file_size retain_count =
     \<lparr>wm_writer = WalWriter_open found, wm_rotated = rotated, wm_max_file_size = max_file_size,
      wm_retain_count = retain_count\<rparr>"

definition WalManager_new :: "bytes option \<Rightarrow> (nat, bytes) hash_map \<Rightarrow> u64 \<Rightarrow> wal_manager" where
  "WalManager_new found rotated max_file_size = WalManager_with_retention found rotated max_file_size 3"

definition shift_file :: "nat \<Rightarrow> (nat, bytes) hash_map \<Rightarrow> (nat, bytes) hash_map" where
  "shift_file i files =
     (case map_of files i of
        None \<Rightarrow> files
      | Some f \<Rightarrow> hm_insert (hm_remove files i) (i + 1) f)"

definition rotate_wal :: "wal_manager \<Rightarrow> wal_manager" where
  "rotate_wal m =
     (let w = WalWriter_sync (wm_writer m);
          files = hm_remove (wm_rotated m) (wm_retain_count m);
          files = fold shift_file (rev [1..<wm_retain_count m]) files;
          files = hm_insert files 1 (ww_file w)
      in m\<lparr>wm_rotated := files, wm_writer := WalWriter_open None\<rparr>)"

definition check_rotate :: "wal_manager \<Rightarrow> wal_manager" where
  "check_rotate m =
     (if word_of_nat (length (ww_file (wm_writer m))) > wm_max_file_size m then rotate_wal m else m)"

definition WalManager_append :: "wal_manager \<Rightarrow> wal_event_type \<Rightarrow> u64 \<Rightarrow> bytes \<Rightarrow> wal_manager" where
  "WalManager_append m typ key data =
     check_rotate (m\<lparr>wm_writer := WalWriter_append_event (wm_writer m) typ key data\<rparr>)"

definition WalManager_sync :: "wal_manager \<Rightarrow> wal_manager" where
  "WalManager_sync m = m\<lparr>wm_writer := WalWriter_sync (wm_writer m)\<rparr>"

definition WalManager_replay :: "wal_manager \<Rightarrow> io_error + wal_record list" where
  "WalManager_replay m = read_wal_records (ww_file (wm_writer m))"

fun replay_files :: "(nat, bytes) hash_map \<Rightarrow> nat list \<Rightarrow> io_error + wal_record list" where
  "replay_files files [] = Inr []"
| "replay_files files (i # is) =
     (case map_of files i of
        None \<Rightarrow> replay_files files is
      | Some f \<Rightarrow> and_then (read_wal_records f) (\<lambda>rs. map_sum id ((@) rs) (replay_files files is)))"

definition replay_old :: "wal_manager \<Rightarrow> io_error + wal_record list" where
  "replay_old m = replay_files (wm_rotated m) (rev [1..<Suc (wm_retain_count m)])"

definition replay_all :: "wal_manager \<Rightarrow> io_error + wal_record list" where
  "replay_all m = and_then (replay_old m) (\<lambda>old. map_sum id ((@) old) (WalManager_replay m))"

text \<open>A snapshot is a copy of the current file, synced first; shutting down ends with a sync.\<close>

definition WalManager_snapshot :: "wal_manager \<Rightarrow> wal_manager \<times> bytes" where
  "WalManager_snapshot m = (let m = WalManager_sync m in (m, ww_file (wm_writer m)))"

definition WalManager_shutdown :: "wal_manager \<Rightarrow> wal_manager" where
  "WalManager_shutdown m = WalManager_sync m"

section \<open>The table-driven checksum\<close>

lemma crc_table_step_eq: "crc_table_step = crc_bit"
  by (rule ext) (simp add: crc_table_step_def crc_bit_def xor.commute)

lemma table_entry: "make_crc32_table ! unat (x AND 0xFF) = (crc_bit ^^ 8) (x AND 0xFF)" for x :: u32
proof -
  have "x AND 0xFF = take_bit 8 x"
    by (simp add: take_bit_eq_mask mask_eq_exp_minus_1)
  then have "unat (x AND 0xFF) < 256"
    using take_bit_nat_less_exp [of 8 "unat x"] by (simp add: unsigned_take_bit_eq)
  then show ?thesis by (simp add: make_crc32_table_def crc_table_step_eq)
qed

lemma split_low_byte: "x = (x AND 0xFF) XOR push_bit 8 (drop_bit 8 x)" for x :: u32
proof (rule bit_word_eqI)
  fix n assume "n < LENGTH(32)"
  have "x AND 0xFF = take_bit 8 x"
    by (simp add: take_bit_eq_mask mask_eq_exp_minus_1)
  then show "bit x n \<longleftrightarrow> bit ((x AND 0xFF) XOR push_bit 8 (drop_bit 8 x)) n"
    using \<open>n < LENGTH(32)\<close> by (auto simp: bit_simps)
qed

lemma crc_table_byte:
  "make_crc32_table ! unat ((c XOR ucast b) AND 0xFF) XOR drop_bit 8 c = crc_byte b c" for c :: u32
proof -
  let ?x = "c XOR ucast b"
  have "drop_bit 8 ?x = drop_bit 8 c"
    by (rule bit_word_eqI) (auto simp: bit_simps dest: bit_imp_le_length)
  moreover have "(crc_bit ^^ 8) (push_bit 8 (drop_bit 8 c)) = drop_bit 8 c"
    by (rule crc_bits_push) (auto simp: bit_simps dest: bit_imp_le_length)
  ultimately have "(crc_bit ^^ 8) ?x = (crc_bit ^^ 8) (?x AND 0xFF) XOR drop_bit 8 c"
    using split_low_byte [of ?x] crc_bits_xor [of 8 "?x AND 0xFF"] by metis
  then show ?thesis by (simp add: table_entry crc_byte_def)
qed

lemma crc32_fast_eq: "crc32_fast data = NOT (fold crc_byte data 0xFFFFFFFF)"
proof -
  have "(0xFFFFFFFF :: u32) = - 1" by simp
  then have "x XOR 0xFFFFFFFF = NOT x" for x :: u32
    by (simp only:) (rule bit_word_eqI, simp add: bit_simps)
  then show ?thesis by (simp add: crc32_fast_def crc_table_byte)
qed

section \<open>Records read back\<close>

definition encodable :: "wal_record \<Rightarrow> bool" where
  "encodable r \<longleftrightarrow> length (wr_data r) < 2 ^ 32"

lemma event_code_round_trip [simp]: "WalEventType_from_u8 (wal_event_code t) = Some t"
  by (cases t) (simp_all add: WalEventType_from_u8_def)

lemma event_from_u8: "WalEventType_from_u8 v = Some t \<Longrightarrow> wal_event_code t = v"
  by (auto simp: WalEventType_from_u8_def split: if_splits)

lemma read_exact_append: "length xs = n \<Longrightarrow> read_exact n (xs @ ys) = Inr (xs, ys)"
  by (simp add: read_exact_def)

lemma read_exact_eof: "length xs < n \<Longrightarrow> read_exact n xs = Inl UnexpectedEof"
  by (simp add: read_exact_def)

lemma read_exact_Inr: "read_exact n bs = Inr (xs, ys) \<Longrightarrow> bs = xs @ ys \<and> length xs = n"
  by (auto simp: read_exact_def split: if_splits)

lemma and_then_simps [simp]: "and_then (Inl e) f = Inl e" "and_then (Inr x) f = f x"
  by (simp_all add: and_then_def)

lemma and_then_Inr: "and_then r f = Inr y \<longleftrightarrow> (\<exists>x. r = Inr x \<and> f x = Inr y)"
  by (cases r) simp_all

lemma unat_data_len: "encodable r \<Longrightarrow> unat (word_of_nat (length (wr_data r)) :: u32) = length (wr_data r)"
  by (simp add: encodable_def unat_of_nat)

lemma length_encode: "length (WalRecord_encode r) = 17 + length (wr_data r)"
  by (simp add: WalRecord_encode_def record_body_def)

text \<open>What the decoder does after the three fields in front of the data.\<close>

lemma decode_fields:
  assumes "length key = 8" and "length len = 4" and "WalEventType_from_u8 b = Some t"
  shows "WalRecord_decode (b # key @ len @ bs) =
    and_then (read_exact (unat (from_le_bytes len :: u32)) bs) (\<lambda>(data, bs).
    and_then (read_exact 4 bs) (\<lambda>(crc, bs).
      if crc32_fast (b # key @ len @ data) \<noteq> from_le_bytes crc then Inl CrcMismatch
      else Inr (Some (WalRecord_new t (from_le_bytes key) data, bs))))"
proof -
  have "to_le_bytes (from_le_bytes key :: u64) = key" "to_le_bytes (from_le_bytes len :: u32) = len"
    using to_from_le_bytes [of key, where 'a = 64] to_from_le_bytes [of len, where 'a = 32] assms by simp_all
  then show ?thesis
    using assms by (simp add: WalRecord_decode_def read_exact_append Let_def)
qed

lemma WalRecord_new_fields [simp]:
  "WalRecord_new (wr_event_type r) (wr_workflow_key r) (wr_data r) = r"
  by (simp add: WalRecord_new_def)

lemma decode_body:
  assumes "encodable r"
  shows "WalRecord_decode (record_body r @ bs) =
    and_then (read_exact 4 bs) (\<lambda>(crc, bs).
      if crc32_fast (record_body r) \<noteq> from_le_bytes crc then Inl CrcMismatch else Inr (Some (r, bs)))"
  using decode_fields [of "to_le_bytes (wr_workflow_key r)"
      "to_le_bytes (word_of_nat (length (wr_data r)) :: u32)" "wal_event_code (wr_event_type r)"
      "wr_event_type r" "wr_data r @ bs"]
  by (simp add: record_body_def read_exact_append unat_data_len [OF assms] cong: if_cong)

lemma decode_encode:
  "encodable r \<Longrightarrow> WalRecord_decode (WalRecord_encode r @ rest) = Inr (Some (r, rest))"
  by (simp add: WalRecord_encode_def decode_body read_exact_append)

lemma decode_Nil [simp]: "WalRecord_decode [] = Inr None"
  by (simp add: WalRecord_decode_def)

lemma encode_nonempty [simp]: "WalRecord_encode r \<noteq> []"
  using length_encode [of r] by auto

text \<open>A record cut short is an error, not the end of the log.\<close>

lemma decode_torn:
  assumes r: "encodable r" and n: "0 < n" "n < length (WalRecord_encode r)"
  shows "WalRecord_decode (take n (WalRecord_encode r)) = Inl UnexpectedEof"
proof -
  let ?t = "wal_event_code (wr_event_type r)" and ?k = "to_le_bytes (wr_workflow_key r)"
  let ?l = "to_le_bytes (word_of_nat (length (wr_data r)) :: u32)"
  let ?c = "to_le_bytes (crc32_fast (record_body r))"
  have enc: "WalRecord_encode r = ?t # ?k @ ?l @ wr_data r @ ?c"
    by (simp add: WalRecord_encode_def record_body_def)
  obtain m where m: "n = Suc m" using n(1) by (cases n) auto
  show ?thesis
  proof (cases "m < 12")
    case True
    then show ?thesis
      unfolding enc m
      by (cases "m < 8")
        (simp_all add: WalRecord_decode_def read_exact_def not_less Let_def)
  next
    case False
    then have "take n (WalRecord_encode r) = ?t # ?k @ ?l @ take (m - 12) (wr_data r @ ?c)"
      by (simp add: enc m)
    then have "WalRecord_decode (take n (WalRecord_encode r)) =
        and_then (read_exact (length (wr_data r)) (take (m - 12) (wr_data r @ ?c))) (\<lambda>(data, bs).
        and_then (read_exact 4 bs) (\<lambda>(crc, bs).
          if crc32_fast (?t # ?k @ ?l @ data) \<noteq> from_le_bytes crc then Inl CrcMismatch
          else Inr (Some (WalRecord_new (wr_event_type r) (from_le_bytes ?k) data, bs))))"
      using decode_fields [of ?k ?l ?t "wr_event_type r"] by (simp add: unat_data_len [OF r])
    moreover have "m - (12 + length (wr_data r)) < 4"
      using n(2) False by (simp add: length_encode m)
    ultimately show ?thesis
      by (cases "m - 12 < length (wr_data r)") (simp_all add: read_exact_def not_less)
  qed
qed

lemma decode_sound:
  assumes "WalRecord_decode bs = Inr (Some (r, rest))"
  shows "bs = WalRecord_encode r @ rest \<and> encodable r"
proof -
  obtain b cs where bs: "bs = b # cs" using assms by (cases bs) simp_all
  obtain t where t: "WalEventType_from_u8 b = Some t"
    using assms by (auto simp: bs WalRecord_decode_def split: option.splits)
  obtain key len ds where cs: "cs = key @ len @ ds" and l: "length key = 8" "length len = 4"
    using assms
    by (fastforce simp: bs t WalRecord_decode_def and_then_Inr Let_def dest!: read_exact_Inr split: prod.splits)
  note fields = decode_fields [OF l t, of ds]
  obtain data es crc where ds: "ds = data @ crc @ rest" and n: "length data = unat (from_le_bytes len :: u32)"
    and c: "length crc = 4" "crc32_fast (b # key @ len @ data) = from_le_bytes crc"
    and r: "r = WalRecord_new t (from_le_bytes key) data"
    using assms unfolding bs cs fields
    by (fastforce simp: and_then_Inr dest!: read_exact_Inr split: prod.splits if_splits)
  have le: "to_le_bytes (from_le_bytes key :: u64) = key" "to_le_bytes (from_le_bytes len :: u32) = len"
    "to_le_bytes (from_le_bytes crc :: u32) = crc"
    using to_from_le_bytes [of key, where 'a = 64] to_from_le_bytes [of len, where 'a = 32]
      to_from_le_bytes [of crc, where 'a = 32] l c by simp_all
  have "record_body r = b # key @ len @ data"
    by (simp add: r record_body_def WalRecord_new_def event_from_u8 [OF t] le n)
  then show ?thesis
    using unat_less_exp [of "from_le_bytes len :: u32"]
    by (simp add: bs cs ds r WalRecord_encode_def c(2) le(3) encodable_def WalRecord_new_def n)
qed

lemma read_loop_Nil: "read_loop [] = Inr []"
  by (simp add: read_loop.simps)

lemma read_loop_records:
  "list_all encodable rs \<Longrightarrow>
     read_loop (concat (map WalRecord_encode rs) @ tail) = map_sum id ((@) rs) (read_loop tail)"
proof (induction rs)
  case Nil
  then show ?case by (cases "read_loop tail") simp_all
next
  case (Cons r rs)
  then have "read_loop (WalRecord_encode r @ concat (map WalRecord_encode rs) @ tail)
      = map_sum id ((#) r) (map_sum id ((@) rs) (read_loop tail))"
    by (subst read_loop.simps) (simp add: decode_encode id_def)
  then show ?case by (cases "read_loop tail") simp_all
qed

definition wal_file :: "wal_record list \<Rightarrow> bytes" where
  "wal_file rs = wal_header @ concat (map WalRecord_encode rs)"

lemma read_after_header: "read_wal_records (wal_header @ bs) = read_loop bs"
proof -
  have "read_exact 4 ((WAL_MAGIC @ to_le_bytes WAL_VERSION) @ bs) = Inr (WAL_MAGIC, to_le_bytes WAL_VERSION @ bs)"
    unfolding append_assoc by (rule read_exact_append) (simp add: WAL_MAGIC_def)
  moreover have "read_exact 4 (to_le_bytes WAL_VERSION @ bs) = Inr (to_le_bytes WAL_VERSION, bs)"
    by (rule read_exact_append) simp
  ultimately show ?thesis
    by (simp add: read_wal_records_def wal_header_def WAL_VERSION_MAX_def WAL_VERSION_def)
qed

lemma read_wal_file:
  "list_all encodable rs \<Longrightarrow> read_wal_records (wal_file rs @ tail) = map_sum id ((@) rs) (read_loop tail)"
  by (simp add: wal_file_def read_after_header read_loop_records)

lemma read_wal_file_all: "list_all encodable rs \<Longrightarrow> read_wal_records (wal_file rs) = Inr rs"
  using read_wal_file [of rs "[]"] by (simp add: read_loop_Nil)

lemma wal_file_snoc: "wal_file (rs @ [r]) = wal_file rs @ WalRecord_encode r"
  by (simp add: wal_file_def)

lemma wal_file_Nil: "wal_file [] = wal_header"
  by (simp add: wal_file_def)

lemma read_torn_file:
  assumes "list_all encodable rs" and "encodable r" and "0 < n" and "n < length (WalRecord_encode r)"
  shows "read_wal_records (wal_file rs @ take n (WalRecord_encode r)) = Inl UnexpectedEof"
proof -
  have "read_loop (take n (WalRecord_encode r)) = Inl UnexpectedEof"
    by (subst read_loop.simps) (simp add: decode_torn [OF assms(2-4)])
  then show ?thesis by (simp add: read_wal_file [OF assms(1)])
qed

section \<open>Segments\<close>

text \<open>
  How the records of a log are spread over files: a file that has outgrown the limit is closed,
  and the next record starts a new one.
\<close>

definition add_to_segments :: "u64 \<Rightarrow> wal_record \<Rightarrow> wal_record list list \<Rightarrow> wal_record list list" where
  "add_to_segments limit r segs =
     (let segs = butlast segs @ [last segs @ [r]]
      in if word_of_nat (length (wal_file (last segs))) > limit then segs @ [[]] else segs)"

definition wal_segments :: "u64 \<Rightarrow> wal_record list \<Rightarrow> wal_record list list" where
  "wal_segments limit rs = fold (add_to_segments limit) rs [[]]"

definition last_n :: "nat \<Rightarrow> 'a list \<Rightarrow> 'a list" where
  "last_n n xs = drop (length xs - n) xs"

definition manager_holds :: "wal_manager \<Rightarrow> wal_record list list \<Rightarrow> bool" where
  "manager_holds m segs \<longleftrightarrow> segs \<noteq> [] \<and> ww_file (wm_writer m) = wal_file (last segs)
     \<and> (\<forall>i. 1 \<le> i \<and> i \<le> wm_retain_count m \<longrightarrow>
          map_of (wm_rotated m) i = (if i < length segs then Some (wal_file (segs ! (length segs - 1 - i))) else None))"

lemma manager_holdsD:
  "manager_holds m segs \<Longrightarrow> 1 \<le> i \<Longrightarrow> i \<le> wm_retain_count m \<Longrightarrow>
     map_of (wm_rotated m) i = (if i < length segs then Some (wal_file (segs ! (length segs - 1 - i))) else None)"
  by (simp add: manager_holds_def)

lemma map_of_shift_file:
  "map_of files (Suc i) = None \<Longrightarrow>
     map_of (shift_file i files) = (map_of files)(i := None, Suc i := map_of files i)"
  by (auto simp: shift_file_def split: option.split)

lemma map_of_shift_files:
  assumes "map_of files n = None" and "1 \<le> j" and "j \<le> n"
  shows "map_of (fold shift_file (rev [j..<n]) files) =
    (\<lambda>i. if j < i \<and> i \<le> n then map_of files (i - 1) else if i = j then None else map_of files i)"
  using assms(3,2)
proof (induction "n - j" arbitrary: j)
  case 0
  then show ?case using assms(1) by (auto intro!: ext)
next
  case (Suc d)
  then have j: "j < n" by simp
  let ?fs = "fold shift_file (rev [Suc j..<n]) files"
  have IH: "map_of ?fs = (\<lambda>i. if Suc j < i \<and> i \<le> n then map_of files (i - 1) else if i = Suc j then None else map_of files i)"
    using Suc.hyps(1) [of "Suc j"] Suc.hyps(2) j by simp
  have "rev [j..<n] = rev [Suc j..<n] @ [j]" using j by (simp add: upt_conv_Cons)
  then have "map_of (fold shift_file (rev [j..<n]) files) = map_of (shift_file j ?fs)" by simp
  also have "\<dots> = (map_of ?fs)(j := None, Suc j := map_of ?fs j)"
    by (rule map_of_shift_file) (simp add: IH)
  also have "\<dots> = (\<lambda>i. if j < i \<and> i \<le> n then map_of files (i - 1) else if i = j then None else map_of files i)"
    using j by (intro ext) (auto simp: IH)
  finally show ?case .
qed

lemma file_of_sync [simp]: "ww_file (WalWriter_sync w) = ww_file w"
  by (simp add: WalWriter_sync_def)

lemma rotate_wal_holds:
  assumes "manager_holds m segs"
  shows "manager_holds (rotate_wal m) (segs @ [[]])"
proof -
  let ?n = "wm_retain_count m"
  let ?files = "hm_remove (wm_rotated m) ?n"
  have rot: "map_of (wm_rotated (rotate_wal m)) i =
      (if i = 1 then Some (ww_file (wm_writer m)) else map_of (wm_rotated m) (i - 1))"
    if "1 \<le> i" "i \<le> ?n" for i
    using that map_of_shift_files [of ?files ?n 1] by (auto simp: rotate_wal_def Let_def)
  have "map_of (wm_rotated (rotate_wal m)) i =
      (if i < length (segs @ [[]]) then Some (wal_file ((segs @ [[]]) ! (length (segs @ [[]]) - 1 - i))) else None)"
    if i: "1 \<le> i" "i \<le> ?n" for i
  proof (cases "i = 1")
    case True
    then show ?thesis
      using rot [OF i] assms by (simp add: manager_holds_def last_conv_nth nth_append)
  next
    case False
    then have "map_of (wm_rotated m) (i - 1) =
        (if i - 1 < length segs then Some (wal_file (segs ! (length segs - 1 - (i - 1)))) else None)"
      using manager_holdsD [OF assms, of "i - 1"] i by simp
    moreover have "length segs - i = length segs - 1 - (i - 1)" using i by simp
    ultimately show ?thesis using rot [OF i] False i by (auto simp: nth_append)
  qed
  moreover have "ww_file (wm_writer (rotate_wal m)) = wal_file (last (segs @ [[]]))"
    by (simp add: rotate_wal_def Let_def WalWriter_open_def wal_file_Nil)
  ultimately show ?thesis by (simp add: manager_holds_def rotate_wal_def Let_def)
qed

lemma append_holds:
  assumes "manager_holds m segs"
  shows "manager_holds (WalManager_append m t k d) (add_to_segments (wm_max_file_size m) (WalRecord_new t k d) segs)"
proof -
  let ?r = "WalRecord_new t k d"
  let ?m = "m\<lparr>wm_writer := WalWriter_append_event (wm_writer m) t k d\<rparr>"
  let ?segs = "butlast segs @ [last segs @ [?r]]"
  have wf: "ww_file (wm_writer ?m) = wal_file (last ?segs)"
    using assms by (simp add: manager_holds_def WalWriter_append_event_def WalWriter_append_def wal_file_snoc)
  have "?segs ! (length ?segs - 1 - i) = segs ! (length segs - 1 - i)" if "1 \<le> i" "i < length segs" for i
  proof -
    have "length segs - Suc i < length segs - 1" using that by linarith
    then show ?thesis by (simp add: nth_append nth_butlast)
  qed
  then have holds: "manager_holds ?m ?segs"
    using assms wf by (auto simp: manager_holds_def)
  show ?thesis
    using rotate_wal_holds [OF holds] holds
    by (simp add: WalManager_append_def check_rotate_def add_to_segments_def Let_def wf [simplified])
qed

lemma last_n_Suc:
  "n < length xs \<Longrightarrow> last_n (Suc n) xs = xs ! (length xs - Suc n) # last_n n xs"
  using Cons_nth_drop_Suc [of "length xs - Suc n" xs] by (simp add: last_n_def Suc_diff_Suc)

lemma last_n_all: "length xs \<le> n \<Longrightarrow> last_n n xs = xs"
  by (simp add: last_n_def)

lemma last_n_snoc: "last_n (Suc n) (xs @ [x]) = last_n n xs @ [x]"
  by (simp add: last_n_def)

lemma replay_files_holds:
  assumes holds: "manager_holds m segs" and enc: "list_all (list_all encodable) segs" and "k \<le> wm_retain_count m"
  shows "replay_files (wm_rotated m) (rev [1..<Suc k]) = Inr (concat (last_n k (butlast segs)))"
  using assms(3)
proof (induction k)
  case 0
  show ?case by (simp add: last_n_def)
next
  case (Suc k)
  have IH: "replay_files (wm_rotated m) (rev [1..<Suc k]) = Inr (concat (last_n k (butlast segs)))"
    using Suc by simp
  show ?case
  proof (cases "Suc k < length segs")
    case True
    let ?seg = "segs ! (length segs - 1 - Suc k)"
    have "?seg \<in> set segs" using True by simp
    then have "list_all encodable ?seg" using enc by (auto simp: list_all_iff)
    moreover have "map_of (wm_rotated m) (Suc k) = Some (wal_file ?seg)"
      using manager_holdsD [OF holds, of "Suc k"] True Suc.prems by simp
    moreover have "last_n (Suc k) (butlast segs) = ?seg # last_n k (butlast segs)"
      using True by (simp add: last_n_Suc nth_butlast)
    ultimately show ?thesis using IH by (simp add: read_wal_file_all)
  next
    case False
    then have "map_of (wm_rotated m) (Suc k) = None"
      using manager_holdsD [OF holds, of "Suc k"] Suc.prems by simp
    then show ?thesis using IH False by (simp add: last_n_all)
  qed
qed

lemma replay_all_holds:
  assumes holds: "manager_holds m segs" and enc: "list_all (list_all encodable) segs"
  shows "replay_all m = Inr (concat (last_n (Suc (wm_retain_count m)) segs))"
proof -
  have segs: "segs = butlast segs @ [last segs]" and w: "ww_file (wm_writer m) = wal_file (last segs)"
    using holds by (simp_all add: manager_holds_def)
  have "list_all encodable (last segs)"
    using enc holds by (auto simp: manager_holds_def list_all_iff)
  then have "WalManager_replay m = Inr (last segs)"
    by (simp add: WalManager_replay_def w read_wal_file_all)
  moreover have "last_n (Suc (wm_retain_count m)) segs = last_n (wm_retain_count m) (butlast segs) @ [last segs]"
    using last_n_snoc [of "wm_retain_count m" "butlast segs" "last segs"] segs by (simp only: segs [symmetric])
  ultimately show ?thesis
    using replay_files_holds [OF holds enc order_refl] by (simp add: replay_all_def replay_old_def)
qed

text \<open>Appending a list of records through the manager.\<close>

definition append_records :: "wal_record list \<Rightarrow> wal_manager \<Rightarrow> wal_manager" where
  "append_records rs m =
     fold (\<lambda>r m. WalManager_append m (wr_event_type r) (wr_workflow_key r) (wr_data r)) rs m"

lemma append_keeps_config [simp]:
  "wm_max_file_size (WalManager_append m t k d) = wm_max_file_size m"
  "wm_retain_count (WalManager_append m t k d) = wm_retain_count m"
  by (simp_all add: WalManager_append_def check_rotate_def rotate_wal_def Let_def)

lemma append_records_holds:
  "manager_holds m segs \<Longrightarrow>
     manager_holds (append_records rs m) (fold (add_to_segments (wm_max_file_size m)) rs segs)
     \<and> wm_retain_count (append_records rs m) = wm_retain_count m"
proof (induction rs arbitrary: m segs)
  case (Cons r rs)
  then show ?case
    using append_holds [OF Cons.prems, of "wr_event_type r" "wr_workflow_key r" "wr_data r"]
      Cons.IH [of "WalManager_append m (wr_event_type r) (wr_workflow_key r) (wr_data r)"]
    by (simp add: append_records_def)
qed (simp add: append_records_def)

lemma concat_wal_segments:
  "segs \<noteq> [] \<Longrightarrow> concat (fold (add_to_segments limit) rs segs) = concat segs @ rs"
proof (induction rs arbitrary: segs)
  case (Cons r rs)
  have "concat segs = concat (butlast segs) @ last segs"
    using Cons.prems by (metis append_butlast_last_id concat.simps concat_append append_Nil2)
  then have "concat (add_to_segments limit r segs) = concat segs @ [r]"
    by (simp add: add_to_segments_def Let_def)
  moreover have "add_to_segments limit r segs \<noteq> []" by (simp add: add_to_segments_def Let_def)
  ultimately show ?case using Cons.IH by simp
qed simp

lemma segments_encodable:
  "list_all encodable rs \<Longrightarrow> list_all (list_all encodable) (wal_segments limit rs)"
proof -
  assume enc: "list_all encodable rs"
  have "set (concat (wal_segments limit rs)) = set rs"
    using concat_wal_segments [of "[[]]" limit rs] by (simp add: wal_segments_def)
  then show ?thesis using enc unfolding list_all_iff by fastforce
qed

lemma fresh_manager_holds:
  "manager_holds (WalManager_with_retention None [] limit n) [[]]"
  by (simp add: manager_holds_def WalManager_with_retention_def WalWriter_open_def wal_file_Nil)

section \<open>Damaged records\<close>

lemma crc_trailer:
  assumes "length c = 4"
  shows "crc32_fast xs = from_le_bytes c \<longleftrightarrow> fold crc_byte (xs @ c) 0xFFFFFFFF = crc_residue"
proof -
  let ?d = "fold crc_byte xs 0xFFFFFFFF"
  have "fold crc_byte (xs @ c) 0xFFFFFFFF = (crc_bit ^^ 32) (?d XOR from_le_bytes c)"
    using assms by (simp add: fold_crc_byte_short)
  also have "\<dots> = crc_residue \<longleftrightarrow> ?d XOR from_le_bytes c = - 1"
    by (simp add: crc_residue_def crc_bits_inj)
  also have "\<dots> \<longleftrightarrow> NOT ?d = from_le_bytes c" by (rule xor_eq_ones)
  finally show ?thesis by (simp add: crc32_fast_eq)
qed

lemma encode_residue: "fold crc_byte (WalRecord_encode r) 0xFFFFFFFF = crc_residue"
  using crc_trailer [of "to_le_bytes (crc32_fast (record_body r))" "record_body r"]
  by (simp add: WalRecord_encode_def)

lemma frame_fields:
  assumes "length e = 17 + n"
  obtains b key len data crc where "e = b # key @ len @ data @ crc" "length key = 8" "length len = 4"
    "length data = n" "length crc = 4" "len = take 4 (drop 9 e)"
proof
  have e: "e \<noteq> []" using assms by auto
  have "e = take 9 e @ take 4 (drop 9 e) @ take n (drop 13 e) @ drop (13 + n) e"
    using assms by (intro nth_equalityI) (auto simp: nth_append)
  then show "e = hd e # take 8 (tl e) @ take 4 (drop 9 e) @ take n (drop 13 e) @ drop (13 + n) e"
    using e by (cases e) simp_all
qed (use assms in simp_all)

lemma burst_detected:
  assumes r: "encodable r" and e: "WalRecord_encode r = as @ xs @ bs"
    and l: "length ys = length xs" "length xs \<le> 4" "xs \<noteq> ys"
    and outside: "length as + length xs \<le> 9 \<or> 13 \<le> length as"
  shows "WalRecord_decode (as @ ys @ bs @ rest) \<in> {Inl InvalidEventType, Inl CrcMismatch}"
proof -
  let ?e = "as @ ys @ bs"
  have "length ?e = 17 + length (wr_data r)" using length_encode [of r] l e by simp
  then obtain b key len data crc where f: "?e = b # key @ len @ data @ crc" "length key = 8" "length len = 4"
    "length data = length (wr_data r)" "length crc = 4" "len = take 4 (drop 9 ?e)"
    by (rule frame_fields)
  have "take 4 (drop 9 ?e) = take 4 (drop 9 (WalRecord_encode r))"
    using outside l(1) unfolding e by (auto simp: drop_Cons')
  also have "\<dots> = to_le_bytes (word_of_nat (length (wr_data r)) :: u32)"
    by (simp add: WalRecord_encode_def record_body_def)
  finally have n: "unat (from_le_bytes len :: u32) = length (wr_data r)"
    using f(6) unat_data_len [OF r] by simp
  have "fold crc_byte ?e 0xFFFFFFFF \<noteq> fold crc_byte (as @ xs @ bs) 0xFFFFFFFF"
    by (rule crc_burst) (use l in auto)
  then have bad: "crc32_fast (b # key @ len @ data) \<noteq> from_le_bytes crc"
    using encode_residue [of r] crc_trailer [OF f(5), of "b # key @ len @ data"] unfolding e f(1) by simp
  have all: "as @ ys @ bs @ rest = b # key @ len @ data @ crc @ rest"
    using arg_cong [OF f(1), of "\<lambda>l. l @ rest"] by simp
  show ?thesis
  proof (cases "WalEventType_from_u8 b")
    case None
    then show ?thesis unfolding all by (simp add: WalRecord_decode_def)
  next
    case (Some t)
    then show ?thesis
      unfolding all using bad f(4,5)
      by (simp add: decode_fields [OF f(2,3) Some] n read_exact_append)
  qed
qed

section \<open>Properties\<close>

text \<open>
  C11.  A full replay gives back what was appended: with files cut at the size limit and \<open>n\<close>
  rotated files kept, it returns, in order and unchanged, the records of the last \<open>n + 1\<close>
  segments, and so every record as long as there were at most \<open>n\<close> rotations.
\<close>

theorem wal_replays_what_was_appended:
  assumes "list_all encodable rs"
  shows "replay_all (append_records rs (WalManager_with_retention None [] limit n))
      = Inr (concat (last_n (Suc n) (wal_segments limit rs)))
    \<and> concat (wal_segments limit rs) = rs
    \<and> (length (wal_segments limit rs) \<le> Suc n \<longrightarrow>
        replay_all (append_records rs (WalManager_with_retention None [] limit n)) = Inr rs)"
proof -
  let ?m = "WalManager_with_retention None [] limit n"
  have cfg: "wm_max_file_size ?m = limit" "wm_retain_count ?m = n"
    by (simp_all add: WalManager_with_retention_def)
  have "manager_holds (append_records rs ?m) (wal_segments limit rs)"
    and "wm_retain_count (append_records rs ?m) = n"
    using append_records_holds [OF fresh_manager_holds, of rs limit n] by (simp_all add: wal_segments_def cfg)
  then have "replay_all (append_records rs ?m) = Inr (concat (last_n (Suc n) (wal_segments limit rs)))"
    using replay_all_holds segments_encodable [OF assms] by metis
  moreover have "concat (wal_segments limit rs) = rs"
    using concat_wal_segments [of "[[]]" limit rs] by (simp add: wal_segments_def)
  ultimately show ?thesis by (simp add: last_n_all)
qed

theorem wal_replays_what_was_appended_witness:
  "let rs = [WalRecord_new WalWorkflowStarted 7 [1, 2], WalRecord_new WalStepCompleted 7 []]
   in replay_all (append_records rs (WalManager_with_retention None [] 20 1)) = Inr (concat (last_n 2 (wal_segments 20 rs)))"
proof -
  have "list_all encodable [WalRecord_new WalWorkflowStarted 7 [1, 2], WalRecord_new WalStepCompleted 7 []]"
    by (simp add: encodable_def WalRecord_new_def)
  from wal_replays_what_was_appended [OF this, of 20 1] show ?thesis by (simp add: numeral_2_eq_2)
qed

text \<open>
  C12.  Damage to a stored record is noticed: after any change of at most four consecutive bytes of
  a record, outside its length field, the decoder reports an invalid event type or a
  checksum mismatch, whatever follows in the file.
\<close>

theorem wal_damage_detected:
  assumes "encodable r" and "WalRecord_encode r = as @ xs @ bs"
    and "length ys = length xs" and "length xs \<le> 4" and "xs \<noteq> ys"
    and "length as + length xs \<le> 9 \<or> 13 \<le> length as"
  shows "WalRecord_decode (as @ ys @ bs @ rest) \<in> {Inl InvalidEventType, Inl CrcMismatch}"
  using burst_detected [OF assms] .

theorem wal_damage_detected_witness:
  "let e = WalRecord_encode (WalRecord_new WalStepCompleted 7 [])
   in WalRecord_decode (7 # drop 1 e) \<in> {Inl InvalidEventType, Inl CrcMismatch}"
proof -
  let ?r = "WalRecord_new WalStepCompleted 7 []"
  have e: "WalRecord_encode ?r = [] @ [2] @ drop 1 (WalRecord_encode ?r)"
    by (simp add: WalRecord_encode_def record_body_def WalRecord_new_def)
  have "encodable ?r" by (simp add: encodable_def WalRecord_new_def)
  from wal_damage_detected [OF this e, of "[7]" "[]"] show ?thesis by simp
qed

text \<open>
  C13.  The table-driven checksum of the log is the bit-serial CRC-32 of the packet layer: on every
  input both give the same value, and it accepts exactly the inputs whose trailer leaves the
  residue.
\<close>

theorem wal_crc_is_packet_crc:
  "crc32_fast data = NOT (fold crc_byte data 0xFFFFFFFF)
   \<and> fold crc_byte (data @ to_le_bytes (crc32_fast data)) 0xFFFFFFFF = crc_residue"
  using crc32_fast_eq [of data] crc_trailer [of "to_le_bytes (crc32_fast data)" data] by simp

end
