(* ===== verification/Secondary_Index.thy ===== *)
theory Secondary_Index
  imports Hash_Map
begin

text \<open>
  Secondary indices as the visibility index and the archive keep them: a hash map from an
  attribute's value to the list of the keys that have it, beside the map of the entries.  An
  index is right when every list holds, once each, the keys of the entries with that value.
\<close>

text \<open>\<open>entry().or_default().push()\<close>, and \<open>retain\<close> on the list under a key that is present.\<close>

definition index_push :: "('k, u64 list) hash_map \<Rightarrow> 'k \<Rightarrow> u64 \<Rightarrow> ('k, u64 list) hash_map" where
  "index_push idx v key = hm_insert idx v (get_or idx v [] @ [key])"

definition index_drop :: "('k, u64 list) hash_map \<Rightarrow> 'k \<Rightarrow> u64 \<Rightarrow> ('k, u64 list) hash_map" where
  "index_drop idx v key = modify idx v (filter (\<lambda>k. k \<noteq> key))"

definition resolve :: "('a \<rightharpoonup> 'i) \<Rightarrow> 'a list \<Rightarrow> 'i list" where
  "resolve M keys = List.map_filter M keys"

definition index_ok ::
    "('i \<Rightarrow> 'k) \<Rightarrow> (u64 \<rightharpoonup> 'i) \<Rightarrow> ('k, u64 list) hash_map \<Rightarrow> bool" where
  "index_ok f M idx \<longleftrightarrow> hm_wf idx \<and> (\<forall>v. distinct (get_or idx v [])
     \<and> set (get_or idx v []) = {k. \<exists>i. M k = Some i \<and> f i = v})"

lemma get_or_push [simp]:
  "get_or (index_push idx v k) w [] = (if w = v then get_or idx v [] @ [k] else get_or idx w [])"
  by (simp add: index_push_def)

lemma get_or_drop [simp]:
  "get_or (index_drop idx v k) w [] =
     (if w = v then filter (\<lambda>x. x \<noteq> k) (get_or idx v []) else get_or idx w [])"
  by (simp add: index_drop_def get_or_def map_of_modify split: option.split)

lemma hm_wf_index [simp]:
  "hm_wf idx \<Longrightarrow> hm_wf (index_push idx v k)" "hm_wf idx \<Longrightarrow> hm_wf (index_drop idx v k)"
  by (simp_all add: index_push_def index_drop_def)

lemma index_ok_new [velocity_wf]: "index_ok f Map.empty []"
  by (simp add: index_ok_def)

lemma index_ok_push [velocity_wf]:
  assumes "index_ok f M idx" and "M k = None"
  shows "index_ok f (M(k \<mapsto> i)) (index_push idx (f i) k)"
  using assms by (auto simp: index_ok_def)

lemma index_ok_drop [velocity_wf]:
  assumes "index_ok f M idx" and "M k = Some i"
  shows "index_ok f (M(k := None)) (index_drop idx (f i) k)"
  using assms by (auto simp: index_ok_def)

lemma index_ok_keep [velocity_wf]:
  assumes "index_ok f M idx" and "M k = Some i" and "f j = f i"
  shows "index_ok f (M(k \<mapsto> j)) idx"
proof -
  have "{k'. \<exists>i'. (M(k \<mapsto> j)) k' = Some i' \<and> f i' = v} = {k'. \<exists>i'. M k' = Some i' \<and> f i' = v}" for v
    using assms(2,3) by auto
  then show ?thesis using assms(1) by (simp only: index_ok_def) blast
qed

lemma index_ok_move [velocity_wf]:
  assumes "index_ok f M idx" and "M k = Some i"
  shows "index_ok f (M(k \<mapsto> j)) (index_push (index_drop idx (f i) k) (f j) k)"
  using index_ok_push [OF index_ok_drop [OF assms], of k j] by simp

lemma set_values: "hm_wf m \<Longrightarrow> set (map snd m) = {i. \<exists>k. map_of m k = Some i}"
  by (simp only: hm_values ran_def)

lemma the_image:
  "(\<lambda>k. the (M k)) ` {k. \<exists>i. M k = Some i \<and> P i} = {i \<in> {i. \<exists>k. M k = Some i}. P i}"
  by (auto simp: image_iff) (metis option.sel)

lemma map_filter_total:
  "(\<And>x. x \<in> set xs \<Longrightarrow> f x \<noteq> None) \<Longrightarrow> List.map_filter f xs = map (\<lambda>x. the (f x)) xs"
  by (induction xs) (auto simp: List.map_filter_simps split: option.splits)

lemma resolve_index:
  assumes key: "\<And>k i. M k = Some i \<Longrightarrow> key i = k" and ok: "index_ok f M idx"
  shows "distinct (resolve M (get_or idx v []))"
    and "set (resolve M (get_or idx v [])) = {i \<in> {i. \<exists>k. M k = Some i}. f i = v}"
    and "length (resolve M (get_or idx v [])) = length (get_or idx v [])"
proof -
  let ?keys = "get_or idx v []"
  have keys: "distinct ?keys" "set ?keys = {k. \<exists>i. M k = Some i \<and> f i = v}"
    using ok by (auto simp: index_ok_def)
  have res: "resolve M ?keys = map (\<lambda>k. the (M k)) ?keys"
    unfolding resolve_def by (rule map_filter_total) (auto simp: keys(2))
  show "length (resolve M ?keys) = length ?keys" by (simp add: res)
  show "distinct (resolve M ?keys)"
    unfolding res distinct_map
  proof (intro conjI inj_onI)
    fix k k' assume k: "k \<in> set ?keys" "k' \<in> set ?keys" and eq: "the (M k) = the (M k')"
    obtain i i' where i: "M k = Some i" "M k' = Some i'" using k by (auto simp: keys(2))
    then show "k = k'" using eq key [OF i(1)] key [OF i(2)] by simp
  qed (rule keys(1))
  show "set (resolve M ?keys) = {i \<in> {i. \<exists>k. M k = Some i}. f i = v}"
    unfolding res set_map keys(2) by (rule the_image)
qed

end
