(* ===== verification/Visibility.thy ===== *)
theory Visibility
  imports Workflow_Context Secondary_Index "HOL-Library.Multiset"
begin

text \<open>
  The visibility index of \<open>visibility.rs\<close>: summaries of the workflow executions by key, with
  secondary indices by status, namespace, type, start and close time, the listings that read
  them, and queries with filters, sorting and pages.  The sorted maps are hash maps whose
  \<open>range\<close> sorts its entries.  A floating-point attribute is its bit pattern.
\<close>

section \<open>Data\<close>

datatype search_attribute_value = AString string | AInteger "64 word" | ADouble u64 | ABool bool
  | ADateTime u64 | AKeyword string

record workflow_execution_info =
  vi_workflow_key :: u64
  vi_workflow_id :: u64
  vi_run_id :: u64
  vi_workflow_type_id :: u64
  vi_namespace_id :: u64
  vi_status :: workflow_status
  vi_start_time_ms :: u64
  vi_close_time_ms :: "u64 option"
  vi_task_queue_hash :: u64
  vi_search_attributes :: "(string, search_attribute_value) hash_map"
  vi_memo :: "(string, bytes) hash_map"

text \<open>The comparison of two doubles, and with it the derived one of attribute values.\<close>

definition f64_is_nan :: "u64 \<Rightarrow> bool" where
  "f64_is_nan x \<longleftrightarrow> x AND 0x7FFFFFFFFFFFFFFF > 0x7FF0000000000000"

definition f64_eq :: "u64 \<Rightarrow> u64 \<Rightarrow> bool" where
  "f64_eq x y \<longleftrightarrow> \<not> f64_is_nan x \<and> \<not> f64_is_nan y
     \<and> (x = y \<or> (x AND 0x7FFFFFFFFFFFFFFF = 0 \<and> y AND 0x7FFFFFFFFFFFFFFF = 0))"

fun attribute_eq :: "search_attribute_value \<Rightarrow> search_attribute_value \<Rightarrow> bool" where
  "attribute_eq (ADouble x) (ADouble y) = f64_eq x y"
| "attribute_eq a b = (a = b)"

datatype sort_order = Ascending | Descending

datatype sort_field = StartTime | CloseTime | WorkflowKey

type_synonym page_token = nat

record paginated_result =
  items :: "workflow_execution_info list"
  next_token :: "page_token option"
  total_count :: nat

datatype visibility_filter = FStatus workflow_status | FNamespace u64 | FWorkflowType u64
  | FTimeRange u64 u64 | FCloseTimeRange u64 u64 | FSearchAttribute string search_attribute_value
  | FPrefix string | FAnd "visibility_filter list" | FOr "visibility_filter list" | FNot visibility_filter

record visibility_query =
  vq_filter :: visibility_filter
  vq_sort_field :: sort_field
  vq_sort_order :: sort_order
  page_size :: nat
  page_token :: "page_token option"

definition VisibilityQuery_new :: "visibility_filter \<Rightarrow> visibility_query" where
  "VisibilityQuery_new f = \<lparr>vq_filter = f, vq_sort_field = StartTime, vq_sort_order = Descending,
     page_size = 100, page_token = None\<rparr>"

definition with_sort :: "visibility_query \<Rightarrow> sort_field \<Rightarrow> sort_order \<Rightarrow> visibility_query" where
  "with_sort q fld ord = q\<lparr>vq_sort_field := fld, vq_sort_order := ord\<rparr>"

definition with_pagination :: "visibility_query \<Rightarrow> nat \<Rightarrow> page_token option \<Rightarrow> visibility_query" where
  "with_pagination q n token = q\<lparr>page_size := n, page_token := token\<rparr>"

record visibility_aggregation =
  agg_by_status :: "(u8, nat) hash_map"
  agg_by_namespace :: "(u64, nat) hash_map"
  agg_by_type :: "(u64, nat) hash_map"
  agg_total :: nat

record visibility_index =
  executions :: "(u64, workflow_execution_info) hash_map"
  by_status :: "(u8, u64 list) hash_map"
  by_namespace :: "(u64, u64 list) hash_map"
  by_type :: "(u64, u64 list) hash_map"
  by_start_time :: "(u64, u64 list) hash_map"
  by_close_time :: "(u64, u64 list) hash_map"

fun status_code :: "workflow_status \<Rightarrow> u8" where
  "status_code Void = 0"
| "status_code Running = 1"
| "status_code Completed = 2"
| "status_code Failed = 3"
| "status_code Canceled = 4"
| "status_code Terminated = 5"
| "status_code WContinuedAsNew = 6"
| "status_code TimedOut = 7"

section \<open>Operations\<close>

definition VisibilityIndex_new :: visibility_index where
  "VisibilityIndex_new = \<lparr>executions = [], by_status = [], by_namespace = [], by_type = [],
     by_start_time = [], by_close_time = []\<rparr>"

definition vis_register :: "visibility_index \<Rightarrow> workflow_execution_info \<Rightarrow> visibility_index" where
  "vis_register x info =
     (let key = vi_workflow_key info
      in x\<lparr>executions := hm_insert (executions x) key info,
           by_status := index_push (by_status x) (status_code (vi_status info)) key,
           by_namespace := index_push (by_namespace x) (vi_namespace_id info) key,
           by_type := index_push (by_type x) (vi_workflow_type_id info) key,
           by_start_time := index_push (by_start_time x) (vi_start_time_ms info) key,
           by_close_time := (case vi_close_time_ms info of
              None \<Rightarrow> by_close_time x | Some ct \<Rightarrow> index_push (by_close_time x) ct key)\<rparr>)"

definition vis_update_status ::
    "visibility_index \<Rightarrow> u64 \<Rightarrow> workflow_status \<Rightarrow> u64 option \<Rightarrow> visibility_index" where
  "vis_update_status x key new_status close_time_ms =
     (case map_of (executions x) key of
        None \<Rightarrow> x
      | Some info \<Rightarrow>
          x\<lparr>executions := hm_insert (executions x) key
                (info\<lparr>vi_status := new_status, vi_close_time_ms := close_time_ms\<rparr>),
            by_close_time := (case close_time_ms of
               None \<Rightarrow> by_close_time x | Some ct \<Rightarrow> index_push (by_close_time x) ct key),
            by_status := index_push (index_drop (by_status x) (status_code (vi_status info)) key)
               (status_code new_status) key\<rparr>)"

definition set_search_attribute ::
    "visibility_index \<Rightarrow> u64 \<Rightarrow> string \<Rightarrow> search_attribute_value \<Rightarrow> visibility_index" where
  "set_search_attribute x key name v =
     x\<lparr>executions := modify (executions x) key
         (\<lambda>info. info\<lparr>vi_search_attributes := hm_insert (vi_search_attributes info) name v\<rparr>)\<rparr>"

definition set_memo :: "visibility_index \<Rightarrow> u64 \<Rightarrow> (string, bytes) hash_map \<Rightarrow> visibility_index" where
  "set_memo x key memo = x\<lparr>executions := modify (executions x) key (\<lambda>info. info\<lparr>vi_memo := memo\<rparr>)\<rparr>"

definition vis_remove :: "visibility_index \<Rightarrow> u64 \<Rightarrow> visibility_index" where
  "vis_remove x key =
     (case map_of (executions x) key of
        None \<Rightarrow> x
      | Some info \<Rightarrow>
          x\<lparr>executions := hm_remove (executions x) key,
            by_status := index_drop (by_status x) (status_code (vi_status info)) key,
            by_namespace := index_drop (by_namespace x) (vi_namespace_id info) key,
            by_type := index_drop (by_type x) (vi_workflow_type_id info) key,
            by_start_time := index_drop (by_start_time x) (vi_start_time_ms info) key,
            by_close_time := (case vi_close_time_ms info of
               None \<Rightarrow> by_close_time x | Some ct \<Rightarrow> index_drop (by_close_time x) ct key)\<rparr>)"

section \<open>Listings\<close>

definition resolve_keys :: "visibility_index \<Rightarrow> u64 list \<Rightarrow> workflow_execution_info list" where
  "resolve_keys x keys = resolve (map_of (executions x)) keys"

definition list_by_status :: "visibility_index \<Rightarrow> workflow_status \<Rightarrow> workflow_execution_info list" where
  "list_by_status x s = resolve_keys x (get_or (by_status x) (status_code s) [])"



text \<open>\<open>BTreeMap::range\<close> panics when the start lies behind the end.\<close>

definition btree_range :: "(u64, 'v) hash_map \<Rightarrow> u64 \<Rightarrow> u64 \<Rightarrow> panic + (u64 \<times> 'v) list" where
  "btree_range m a b =
     (if a > b then Inl RangePanic
      else Inr (sort_key fst (filter (\<lambda>(k, _). a \<le> k \<and> k \<le> b) m)))"


definition list_by_close_time_range :: "visibility_index \<Rightarrow> u64 \<Rightarrow> u64 \<Rightarrow> panic + workflow_execution_info list" where
  "list_by_close_time_range x a b =
     map_sum id (\<lambda>es. concat (map (\<lambda>(_, keys). resolve_keys x keys) es)) (btree_range (by_close_time x) a b)"

definition has_attribute :: "workflow_execution_info \<Rightarrow> string \<Rightarrow> search_attribute_value \<Rightarrow> bool" where
  "has_attribute info name v =
     (case map_of (vi_search_attributes info) name of None \<Rightarrow> False | Some w \<Rightarrow> attribute_eq w v)"

definition list_by_search_attribute ::
    "visibility_index \<Rightarrow> string \<Rightarrow> search_attribute_value \<Rightarrow> workflow_execution_info list" where
  "list_by_search_attribute x name v = filter (\<lambda>info. has_attribute info name v) (map snd (executions x))"

definition vis_get :: "visibility_index \<Rightarrow> u64 \<Rightarrow> workflow_execution_info option" where
  "vis_get x key = map_of (executions x) key"

definition vis_count :: "visibility_index \<Rightarrow> nat" where
  "vis_count x = length (executions x)"

definition count_by_status :: "visibility_index \<Rightarrow> workflow_status \<Rightarrow> nat" where
  "count_by_status x s = length (get_or (by_status x) (status_code s) [])"



definition list_all_executions :: "visibility_index \<Rightarrow> workflow_execution_info list" where
  "list_all_executions x = map snd (executions x)"

section \<open>Queries\<close>

fun decimal :: "nat \<Rightarrow> string" where
  "decimal n = (if n < 10 then [char_of (48 + n)] else decimal (n div 10) @ [char_of (48 + n mod 10)])"

declare decimal.simps [simp del]

definition id_has_prefix :: "workflow_execution_info \<Rightarrow> string \<Rightarrow> bool" where
  "id_has_prefix info prefix =
     (take (length prefix) (decimal (unat (vi_workflow_id info))) = prefix)"

definition list_by_prefix :: "visibility_index \<Rightarrow> string \<Rightarrow> workflow_execution_info list" where
  "list_by_prefix x prefix = filter (\<lambda>info. id_has_prefix info prefix) (map snd (executions x))"

fun matches_filter :: "workflow_execution_info \<Rightarrow> visibility_filter \<Rightarrow> bool" where
  "matches_filter info (FStatus s) = (vi_status info = s)"
| "matches_filter info (FNamespace ns) = (vi_namespace_id info = ns)"
| "matches_filter info (FWorkflowType t) = (vi_workflow_type_id info = t)"
| "matches_filter info (FTimeRange a b) = (vi_start_time_ms info \<ge> a \<and> vi_start_time_ms info \<le> b)"
| "matches_filter info (FCloseTimeRange a b) =
     (case vi_close_time_ms info of None \<Rightarrow> False | Some ct \<Rightarrow> ct \<ge> a \<and> ct \<le> b)"
| "matches_filter info (FSearchAttribute name v) = has_attribute info name v"
| "matches_filter info (FPrefix prefix) = id_has_prefix info prefix"
| "matches_filter info (FAnd fs) = list_all (matches_filter info) fs"
| "matches_filter info (FOr fs) = list_ex (matches_filter info) fs"
| "matches_filter info (FNot f) = (\<not> matches_filter info f)"

definition sort_value :: "sort_field \<Rightarrow> workflow_execution_info \<Rightarrow> u64" where
  "sort_value fld info =
     (case fld of
        StartTime \<Rightarrow> vi_start_time_ms info
      | CloseTime \<Rightarrow> (case vi_close_time_ms info of None \<Rightarrow> 0 | Some ct \<Rightarrow> ct)
      | WorkflowKey \<Rightarrow> vi_workflow_key info)"

text \<open>\<open>sort_by\<close> is stable; the reversed comparison is the comparison of the negated values.\<close>

definition sort_infos :: "sort_field \<Rightarrow> sort_order \<Rightarrow> workflow_execution_info list \<Rightarrow> workflow_execution_info list" where
  "sort_infos fld ord xs =
     (case ord of
        Ascending \<Rightarrow> sort_key (sort_value fld) xs
      | Descending \<Rightarrow> sort_key (\<lambda>info. - int (unat (sort_value fld info))) xs)"

definition matched :: "visibility_index \<Rightarrow> visibility_query \<Rightarrow> workflow_execution_info list" where
  "matched x q = sort_infos (vq_sort_field q) (vq_sort_order q)
     (filter (\<lambda>info. matches_filter info (vq_filter q)) (map snd (executions x)))"

definition execute_query :: "visibility_index \<Rightarrow> visibility_query \<Rightarrow> paginated_result" where
  "execute_query x q =
     (let found = matched x q;
          total = length found;
          offset = (case page_token q of None \<Rightarrow> 0 | Some t \<Rightarrow> t);
          page = take (page_size q) (drop offset found);
          next_offset = offset + length page
      in \<lparr>items = page, next_token = (if next_offset < total then Some next_offset else None),
          total_count = total\<rparr>)"

definition tally :: "('a \<Rightarrow> 'k) \<Rightarrow> 'a list \<Rightarrow> ('k, nat) hash_map" where
  "tally f xs = fold (\<lambda>a m. hm_insert m (f a) (get_or m (f a) 0 + 1)) xs []"

definition aggregate :: "visibility_index \<Rightarrow> visibility_aggregation" where
  "aggregate x =
     (let infos = map snd (executions x)
      in \<lparr>agg_by_status = tally (status_code \<circ> vi_status) infos,
          agg_by_namespace = tally vi_namespace_id infos,
          agg_by_type = tally vi_workflow_type_id infos,
          agg_total = length (executions x)\<rparr>)"

section \<open>The indices agree with the executions\<close>

definition vis_wf :: "visibility_index \<Rightarrow> bool" where
  "vis_wf x \<longleftrightarrow> hm_wf (executions x)
     \<and> (\<forall>k i. map_of (executions x) k = Some i \<longrightarrow> vi_workflow_key i = k)
     \<and> index_ok (status_code \<circ> vi_status) (map_of (executions x)) (by_status x)
     \<and> index_ok vi_namespace_id (map_of (executions x)) (by_namespace x)
     \<and> index_ok vi_workflow_type_id (map_of (executions x)) (by_type x)
     \<and> index_ok vi_start_time_ms (map_of (executions x)) (by_start_time x)"

lemma vis_wf_new: "vis_wf VisibilityIndex_new"
  by (simp add: vis_wf_def VisibilityIndex_new_def index_ok_new)

lemma vis_wf_register:
  assumes "vis_wf x" and "map_of (executions x) (vi_workflow_key info) = None"
  shows "vis_wf (vis_register x info)"
  using assms index_ok_push [where f = "status_code \<circ> vi_status" and k = "vi_workflow_key info" and i = info]
  by (simp add: vis_wf_def vis_register_def Let_def index_ok_push)

lemma vis_wf_change:
  assumes "vis_wf x" and k: "map_of (executions x) key = Some i"
    and "vi_workflow_key j = vi_workflow_key i" "vi_namespace_id j = vi_namespace_id i"
    "vi_workflow_type_id j = vi_workflow_type_id i" "vi_start_time_ms j = vi_start_time_ms i"
    and "index_ok (status_code \<circ> vi_status) ((map_of (executions x))(key \<mapsto> j)) statuses"
  shows "vis_wf (x\<lparr>executions := hm_insert (executions x) key j, by_close_time := closes, by_status := statuses\<rparr>)"
  using assms(1,3-) by (simp add: vis_wf_def k index_ok_keep [where M = "map_of (executions x)", OF _ k])

lemma vis_wf_update_status: "vis_wf x \<Longrightarrow> vis_wf (vis_update_status x key s ct)"
proof (cases "map_of (executions x) key")
  case (Some i)
  assume wf: "vis_wf x"
  let ?j = "i\<lparr>vi_status := s, vi_close_time_ms := ct\<rparr>"
  have "index_ok (status_code \<circ> vi_status) ((map_of (executions x))(key \<mapsto> ?j))
      (index_push (index_drop (by_status x) ((status_code \<circ> vi_status) i) key) ((status_code \<circ> vi_status) ?j) key)"
    by (rule index_ok_move) (use wf Some in \<open>simp_all add: vis_wf_def\<close>)
  then show ?thesis
    using vis_wf_change [OF wf Some, of ?j] by (simp add: vis_update_status_def Some)
qed (simp add: vis_update_status_def)

lemma vis_wf_modify:
  assumes wf: "vis_wf x"
    and f: "\<And>i. vi_workflow_key (f i) = vi_workflow_key i" "\<And>i. vi_namespace_id (f i) = vi_namespace_id i"
    "\<And>i. vi_workflow_type_id (f i) = vi_workflow_type_id i" "\<And>i. vi_start_time_ms (f i) = vi_start_time_ms i"
    "\<And>i. vi_status (f i) = vi_status i"
  shows "vis_wf (x\<lparr>executions := modify (executions x) key f\<rparr>)"
proof (cases "map_of (executions x) key")
  case None
  then show ?thesis using wf by (simp add: modify_def)
next
  case (Some i)
  have "index_ok (status_code \<circ> vi_status) ((map_of (executions x))(key \<mapsto> f i)) (by_status x)"
    by (rule index_ok_keep) (use wf Some f in \<open>simp_all add: vis_wf_def\<close>)
  then show ?thesis
    using vis_wf_change [OF wf Some, of "f i" "by_status x" "by_close_time x"] f by (simp add: modify_def Some)
qed

lemma vis_wf_remove: "vis_wf x \<Longrightarrow> vis_wf (vis_remove x key)"
proof (cases "map_of (executions x) key")
  case (Some i)
  assume wf: "vis_wf x"
  have "index_ok (status_code \<circ> vi_status) ((map_of (executions x))(key := None))
      (index_drop (by_status x) ((status_code \<circ> vi_status) i) key)"
    by (rule index_ok_drop) (use wf Some in \<open>simp_all add: vis_wf_def\<close>)
  then show ?thesis
    using wf by (simp add: Some vis_wf_def vis_remove_def index_ok_drop [where M = "map_of (executions x)", OF _ Some])
qed (simp add: vis_remove_def)

section \<open>Runs\<close>

datatype vis_op = VRegister workflow_execution_info | VUpdate u64 workflow_status "u64 option"
  | VSetAttribute u64 string search_attribute_value | VSetMemo u64 "(string, bytes) hash_map" | VRemove u64

fun vis_step :: "vis_op \<Rightarrow> visibility_index \<Rightarrow> visibility_index" where
  "vis_step (VRegister info) x = vis_register x info"
| "vis_step (VUpdate key s ct) x = vis_update_status x key s ct"
| "vis_step (VSetAttribute key name v) x = set_search_attribute x key name v"
| "vis_step (VSetMemo key memo) x = set_memo x key memo"
| "vis_step (VRemove key) x = vis_remove x key"

text \<open>Every registration is for a key that the index does not hold at that moment.\<close>

fun registers_fresh :: "vis_op list \<Rightarrow> visibility_index \<Rightarrow> bool" where
  "registers_fresh [] x = True"
| "registers_fresh (op # ops) x =
     ((case op of VRegister info \<Rightarrow> map_of (executions x) (vi_workflow_key info) = None | _ \<Rightarrow> True)
      \<and> registers_fresh ops (vis_step op x))"

lemma vis_wf_run: "vis_wf x \<Longrightarrow> registers_fresh ops x \<Longrightarrow> vis_wf (fold vis_step ops x)"
proof (induction ops arbitrary: x)
  case (Cons op ops)
  have "vis_wf (vis_step op x)"
    using Cons.prems
    by (cases op) (simp_all add: vis_wf_register vis_wf_update_status vis_wf_remove
        vis_wf_modify set_search_attribute_def set_memo_def)
  then show ?case using Cons by simp
qed simp


lemma status_code_inj [simp]: "status_code s = status_code t \<longleftrightarrow> s = t"
  by (cases s; cases t) simp_all



section \<open>Pages\<close>

text \<open>
  A client that follows the page tokens until a page comes without one, with the items fetched so
  far.  A client that never gets such a page is the value \<open>None\<close>.
\<close>

partial_function (option) fetch_pages ::
    "visibility_index \<Rightarrow> visibility_query \<Rightarrow> workflow_execution_info list \<Rightarrow> workflow_execution_info list option" where
  "fetch_pages x q fetched =
     (let r = execute_query x q
      in case next_token r of
           None \<Rightarrow> Some (fetched @ items r)
         | Some t \<Rightarrow> fetch_pages x (q\<lparr>page_token := Some t\<rparr>) (fetched @ items r))"

declare fetch_pages.simps [code]

lemma matched_page_token [simp]: "matched x (q\<lparr>page_token := t\<rparr>) = matched x q"
  by (simp add: matched_def)

lemma fetch_pages_from:
  assumes "0 < page_size q"
  shows "fetch_pages x (q\<lparr>page_token := Some off\<rparr>) fetched = Some (fetched @ drop off (matched x q))"
proof (induction "length (matched x q) - off" arbitrary: off fetched rule: less_induct)
  case less
  let ?l = "matched x q" and ?p = "page_size q"
  let ?off = "off + length (take ?p (drop off ?l))"
  show ?case
  proof (cases "?off < length ?l")
    case True
    then have off: "?off = ?p + off" by (simp add: min_def split: if_splits)
    have "length ?l - ?off < length ?l - off" using True off assms by linarith
    from less [OF this] have "fetch_pages x (q\<lparr>page_token := Some ?off\<rparr>) (fetched @ take ?p (drop off ?l)) =
        Some ((fetched @ take ?p (drop off ?l)) @ drop ?off ?l)" .
    moreover have "drop off ?l = take ?p (drop off ?l) @ drop (?p + off) ?l"
      by (simp only: drop_drop [symmetric] append_take_drop_id)
    ultimately show ?thesis
      using True off by (subst fetch_pages.simps) (simp add: execute_query_def Let_def add.commute)
  next
    case False
    then have "take ?p (drop off ?l) = drop off ?l" by simp
    then show ?thesis using False by (subst fetch_pages.simps) (simp add: execute_query_def Let_def)
  qed
qed

lemma fetch_pages_None: "fetch_pages x (q\<lparr>page_token := None\<rparr>) [] = fetch_pages x (q\<lparr>page_token := Some 0\<rparr>) []"
  by (subst (1 2) fetch_pages.simps) (simp add: execute_query_def Let_def)

lemma set_sort_infos [simp]: "mset (sort_infos fld ord xs) = mset xs"
  by (simp add: sort_infos_def split: sort_order.split)

lemma sorted_infos:
  "sorted_wrt (\<lambda>i j. case ord of Ascending \<Rightarrow> sort_value fld i \<le> sort_value fld j
     | Descending \<Rightarrow> sort_value fld j \<le> sort_value fld i) (sort_infos fld ord xs)"
proof (cases ord)
  case Ascending
  then show ?thesis
    using sorted_sort_key [of "sort_value fld" xs] by (simp add: sort_infos_def sorted_wrt_map)
next
  case Descending
  then show ?thesis
    using sorted_sort_key [of "\<lambda>i. - int (unat (sort_value fld i))" xs]
    by (simp add: sort_infos_def sorted_wrt_map word_le_def)
qed

section \<open>Properties\<close>


definition sample_info :: "u64 \<Rightarrow> workflow_status \<Rightarrow> workflow_execution_info" where
  "sample_info key s = \<lparr>vi_workflow_key = key, vi_workflow_id = key, vi_run_id = 1, vi_workflow_type_id = 3,
     vi_namespace_id = 0, vi_status = s, vi_start_time_ms = 5, vi_close_time_ms = None, vi_task_queue_hash = 9,
     vi_search_attributes = [], vi_memo = []\<rparr>"


text \<open>
  Registering a key again, as starting a workflow under an id that is in use does, leaves the
  key in the lists of its old values: the execution is then listed under the status it no
  longer has, and counted there.
\<close>

theorem re_registered_execution_listed_wrongly:
  assumes "registers_fresh ops VisibilityIndex_new"
    and "x = fold vis_step ops VisibilityIndex_new"
    and "vis_get x (vi_workflow_key info) = Some old" and "vi_status info \<noteq> vi_status old"
  shows "info \<in> set (list_by_status (vis_register x info) (vi_status old))
    \<and> count_by_status (vis_register x info) (vi_status old) = count_by_status x (vi_status old)"
proof -
  let ?k = "vi_workflow_key info"
  have "vis_wf x" using vis_wf_run [OF vis_wf_new assms(1)] assms(2) by simp
  then have "?k \<in> set (get_or (by_status x) (status_code (vi_status old)) [])"
    using assms(3) by (auto simp: vis_wf_def index_ok_def vis_get_def)
  then have "info \<in> set (resolve_keys (vis_register x info) (get_or (by_status x) (status_code (vi_status old)) []))"
    by (fastforce simp: resolve_keys_def resolve_def List.map_filter_def vis_register_def Let_def image_iff)
  moreover have "get_or (by_status (vis_register x info)) (status_code (vi_status old)) []
      = get_or (by_status x) (status_code (vi_status old)) []"
    using assms(4) by (simp add: vis_register_def Let_def)
  ultimately show ?thesis by (simp add: list_by_status_def count_by_status_def)
qed

theorem re_registered_execution_listed_wrongly_witness:
  "let x = fold vis_step [VRegister (sample_info 1 Running), VUpdate 1 Completed (Some 8)] VisibilityIndex_new
   in sample_info 1 Running \<in> set (list_by_status (vis_register x (sample_info 1 Running)) Completed)"
proof -
  let ?ops = "[VRegister (sample_info 1 Running), VUpdate 1 Completed (Some 8)]"
  let ?x = "fold vis_step ?ops VisibilityIndex_new"
  let ?old = "(sample_info 1 Running)\<lparr>vi_status := Completed, vi_close_time_ms := Some 8\<rparr>"
  have fresh: "registers_fresh ?ops VisibilityIndex_new" by code_simp
  have old: "vis_get ?x (vi_workflow_key (sample_info 1 Running)) = Some ?old" by code_simp
  have "vi_status (sample_info 1 Running) \<noteq> vi_status ?old" by (simp add: sample_info_def)
  from re_registered_execution_listed_wrongly [OF fresh refl old this] show ?thesis by (simp add: Let_def)
qed

text \<open>
  Closing an execution again leaves its first close time in the index: a query of the range around
  that time returns the execution, whose close time is another one.
\<close>

lemma old_close_time_listed:
  "let x = fold vis_step [VRegister (sample_info 1 Running), VUpdate 1 Completed (Some 8), VUpdate 1 Terminated (Some 9)]
         VisibilityIndex_new
   in map_sum id (map vi_close_time_ms) (list_by_close_time_range x 8 8) = Inr [Some 9]"
  by code_simp

text \<open>
  C19.  Following the page tokens of a query visits its result: with a positive page size the
  client reaches a page without a token, the pages together are all matching executions, each
  once and in the order asked for, and every page reports their number.
\<close>

theorem pages_cover_the_result:
  assumes "0 < page_size q"
  shows "fetch_pages x (q\<lparr>page_token := None\<rparr>) [] = Some (matched x q)
    \<and> mset (matched x q) = mset (filter (\<lambda>i. matches_filter i (vq_filter q)) (list_all_executions x))
    \<and> sorted_wrt (\<lambda>i j. case vq_sort_order q of
          Ascending \<Rightarrow> sort_value (vq_sort_field q) i \<le> sort_value (vq_sort_field q) j
        | Descending \<Rightarrow> sort_value (vq_sort_field q) j \<le> sort_value (vq_sort_field q) i) (matched x q)
    \<and> total_count (execute_query x q) = length (matched x q)"
proof -
  have "fetch_pages x (q\<lparr>page_token := None\<rparr>) [] = Some (matched x q)"
    unfolding fetch_pages_None using fetch_pages_from [OF assms, of x 0 "[]"] by simp
  then show ?thesis
    using sorted_infos [of "vq_sort_field q" "vq_sort_order q"]
    by (simp add: matched_def list_all_executions_def) (simp add: execute_query_def Let_def matched_def)
qed

theorem pages_cover_the_result_witness:
  "let x = fold vis_step [VRegister (sample_info 1 Running), VRegister (sample_info 2 Running)] VisibilityIndex_new;
       q = with_pagination (VisibilityQuery_new (FNamespace 0)) 1 None
   in fetch_pages x (q\<lparr>page_token := None\<rparr>) [] = Some (matched x q) \<and> length (matched x q) = 2"
proof -
  let ?x = "fold vis_step [VRegister (sample_info 1 Running), VRegister (sample_info 2 Running)] VisibilityIndex_new"
  let ?q = "with_pagination (VisibilityQuery_new (FNamespace 0)) 1 None"
  have "0 < page_size ?q" by (simp add: with_pagination_def)
  moreover have "length (matched ?x ?q) = 2" by code_simp
  ultimately show ?thesis using pages_cover_the_result [of ?q ?x] by (simp add: Let_def)
qed

end
