(* ===== verification/Archival.thy ===== *)
theory Archival
  imports Visibility
begin

text \<open>
  The archive of closed workflows in \<open>archival.rs\<close>: records by workflow key with secondary
  indices by namespace, type and status, and the policy that says which workflows are
  archived when they close.
\<close>

record archive_record =
  ar_workflow_key :: u64
  ar_workflow_id :: u64
  ar_run_id :: u64
  ar_workflow_type_id :: u64
  ar_namespace_id :: u64
  ar_status :: workflow_status
  ar_input_data :: "bytes option"
  ar_result_data :: "bytes option"
  ar_step_count :: u32
  ar_step_results :: "(u32, bytes) hash_map"
  ar_event_count :: u64
  ar_archived_at_ms :: u64
  ar_start_time_ms :: u64
  ar_close_time_ms :: u64

record archive_store =
  as_records :: "(u64, archive_record) hash_map"
  as_by_namespace :: "(u64, u64 list) hash_map"
  as_by_type :: "(u64, u64 list) hash_map"
  as_by_status :: "(u8, u64 list) hash_map"
  next_archive_id :: u64

definition ArchiveStore_new :: archive_store where
  "ArchiveStore_new = \<lparr>as_records = [], as_by_namespace = [], as_by_type = [], as_by_status = [], next_archive_id = 1\<rparr>"

definition archive :: "archive_store \<Rightarrow> archive_record \<Rightarrow> archive_store \<times> u64" where
  "archive s r =
     (let key = ar_workflow_key r
      in (s\<lparr>next_archive_id := next_archive_id s + 1,
            as_records := hm_insert (as_records s) key r,
            as_by_namespace := index_push (as_by_namespace s) (ar_namespace_id r) key,
            as_by_type := index_push (as_by_type s) (ar_workflow_type_id r) key,
            as_by_status := index_push (as_by_status s) (status_code (ar_status r)) key\<rparr>,
          next_archive_id s))"

definition archive_get :: "archive_store \<Rightarrow> u64 \<Rightarrow> archive_record option" where
  "archive_get s key = map_of (as_records s) key"

definition archive_list_by_namespace :: "archive_store \<Rightarrow> u64 \<Rightarrow> archive_record list" where
  "archive_list_by_namespace s ns = resolve (map_of (as_records s)) (get_or (as_by_namespace s) ns [])"

definition archive_list_by_type :: "archive_store \<Rightarrow> u64 \<Rightarrow> archive_record list" where
  "archive_list_by_type s t = resolve (map_of (as_records s)) (get_or (as_by_type s) t [])"

definition archive_list_by_status :: "archive_store \<Rightarrow> workflow_status \<Rightarrow> archive_record list" where
  "archive_list_by_status s st = resolve (map_of (as_records s)) (get_or (as_by_status s) (status_code st) [])"

definition archive_count :: "archive_store \<Rightarrow> nat" where
  "archive_count s = length (as_records s)"

definition archive_count_by_namespace :: "archive_store \<Rightarrow> u64 \<Rightarrow> nat" where
  "archive_count_by_namespace s ns = length (get_or (as_by_namespace s) ns [])"

definition archive_count_by_status :: "archive_store \<Rightarrow> workflow_status \<Rightarrow> nat" where
  "archive_count_by_status s st = length (get_or (as_by_status s) (status_code st) [])"

definition archive_delete :: "archive_store \<Rightarrow> u64 \<Rightarrow> archive_store \<times> bool" where
  "archive_delete s key =
     (case map_of (as_records s) key of
        None \<Rightarrow> (s, False)
      | Some r \<Rightarrow>
          (s\<lparr>as_records := hm_remove (as_records s) key,
             as_by_namespace := index_drop (as_by_namespace s) (ar_namespace_id r) key,
             as_by_type := index_drop (as_by_type s) (ar_workflow_type_id r) key,
             as_by_status := index_drop (as_by_status s) (status_code (ar_status r)) key\<rparr>, True))"

record archive_policy =
  auto_archive_completed :: bool
  auto_archive_failed :: bool
  auto_archive_canceled :: bool
  auto_archive_terminated :: bool
  retention_days :: u32

definition default_completed :: archive_policy where
  "default_completed = \<lparr>auto_archive_completed = True, auto_archive_failed = False,
     auto_archive_canceled = False, auto_archive_terminated = False, retention_days = 0\<rparr>"

definition archive_all :: archive_policy where
  "archive_all = \<lparr>auto_archive_completed = True, auto_archive_failed = True,
     auto_archive_canceled = True, auto_archive_terminated = True, retention_days = 0\<rparr>"

fun should_archive :: "archive_policy \<Rightarrow> workflow_status \<Rightarrow> bool" where
  "should_archive p Completed = auto_archive_completed p"
| "should_archive p Failed = auto_archive_failed p"
| "should_archive p Canceled = auto_archive_canceled p"
| "should_archive p Terminated = auto_archive_terminated p"
| "should_archive p _ = False"

section \<open>The indices agree with the records\<close>

definition archive_wf :: "archive_store \<Rightarrow> bool" where
  "archive_wf s \<longleftrightarrow> hm_wf (as_records s)
     \<and> (\<forall>k r. map_of (as_records s) k = Some r \<longrightarrow> ar_workflow_key r = k)
     \<and> index_ok ar_namespace_id (map_of (as_records s)) (as_by_namespace s)
     \<and> index_ok ar_workflow_type_id (map_of (as_records s)) (as_by_type s)
     \<and> index_ok (status_code \<circ> ar_status) (map_of (as_records s)) (as_by_status s)"

lemma archive_wf_new: "archive_wf ArchiveStore_new"
  by (simp add: archive_wf_def ArchiveStore_new_def index_ok_new)

lemma archive_wf_archive:
  assumes "archive_wf s" and "map_of (as_records s) (ar_workflow_key r) = None"
  shows "archive_wf (fst (archive s r))"
  using assms index_ok_push [where f = "status_code \<circ> ar_status" and k = "ar_workflow_key r" and i = r]
  by (simp add: archive_wf_def archive_def Let_def index_ok_push)

lemma archive_wf_delete: "archive_wf s \<Longrightarrow> archive_wf (fst (archive_delete s key))"
proof (cases "map_of (as_records s) key")
  case (Some r)
  assume wf: "archive_wf s"
  have "index_ok (status_code \<circ> ar_status) ((map_of (as_records s))(key := None))
      (index_drop (as_by_status s) ((status_code \<circ> ar_status) r) key)"
    by (rule index_ok_drop) (use wf Some in \<open>simp_all add: archive_wf_def\<close>)
  then show ?thesis
    using wf by (simp add: Some archive_wf_def archive_delete_def
        index_ok_drop [where M = "map_of (as_records s)", OF _ Some])
qed (simp add: archive_delete_def)

datatype archive_op = OArchive archive_record | ODelete u64

fun archive_step :: "archive_op \<Rightarrow> archive_store \<Rightarrow> archive_store" where
  "archive_step (OArchive r) s = fst (archive s r)"
| "archive_step (ODelete key) s = fst (archive_delete s key)"

fun archives_once :: "archive_op list \<Rightarrow> archive_store \<Rightarrow> bool" where
  "archives_once [] s = True"
| "archives_once (op # ops) s =
     ((case op of OArchive r \<Rightarrow> map_of (as_records s) (ar_workflow_key r) = None | _ \<Rightarrow> True)
      \<and> archives_once ops (archive_step op s))"

lemma archive_wf_run: "archive_wf s \<Longrightarrow> archives_once ops s \<Longrightarrow> archive_wf (fold archive_step ops s)"
proof (induction ops arbitrary: s)
  case (Cons op ops)
  have "archive_wf (archive_step op s)"
    using Cons.prems by (cases op) (simp_all add: archive_wf_archive archive_wf_delete)
  then show ?case using Cons by simp
qed simp

section \<open>Properties\<close>

text \<open>
  C20.  The archive lists what it holds as long as no workflow is archived twice: through any
  archivals and deletions the listings by namespace, type and status give exactly the
  records with that value, each once, and the counts are their lengths.
\<close>

theorem archive_indices_exact:
  assumes "archives_once ops ArchiveStore_new"
  shows "let s = fold archive_step ops ArchiveStore_new; recs = {r. \<exists>k. archive_get s k = Some r}
    in distinct (archive_list_by_namespace s ns)
       \<and> set (archive_list_by_namespace s ns) = {r \<in> recs. ar_namespace_id r = ns}
       \<and> archive_count_by_namespace s ns = length (archive_list_by_namespace s ns)
       \<and> distinct (archive_list_by_type s t) \<and> set (archive_list_by_type s t) = {r \<in> recs. ar_workflow_type_id r = t}
       \<and> distinct (archive_list_by_status s st) \<and> set (archive_list_by_status s st) = {r \<in> recs. ar_status r = st}
       \<and> archive_count_by_status s st = length (archive_list_by_status s st)"
proof -
  define s where "s = fold archive_step ops ArchiveStore_new"
  have wf: "archive_wf s" unfolding s_def using archive_wf_run [OF archive_wf_new assms] .
  have key: "\<And>k r. map_of (as_records s) k = Some r \<Longrightarrow> ar_workflow_key r = k"
    and n: "index_ok ar_namespace_id (map_of (as_records s)) (as_by_namespace s)"
    and t: "index_ok ar_workflow_type_id (map_of (as_records s)) (as_by_type s)"
    and st: "index_ok (status_code \<circ> ar_status) (map_of (as_records s)) (as_by_status s)"
    using wf by (simp_all only: archive_wf_def)
  show ?thesis
    using resolve_index [where key = ar_workflow_key, OF key n, of ns]
      resolve_index [where key = ar_workflow_key, OF key t, of t]
      resolve_index [where key = ar_workflow_key, OF key st, of "status_code st"]
    unfolding s_def [symmetric] Let_def archive_get_def
    by (simp add: archive_list_by_namespace_def archive_list_by_type_def archive_list_by_status_def
        archive_count_by_namespace_def archive_count_by_status_def)
qed

definition sample_record :: "u64 \<Rightarrow> workflow_status \<Rightarrow> archive_record" where
  "sample_record key st = \<lparr>ar_workflow_key = key, ar_workflow_id = key, ar_run_id = 1, ar_workflow_type_id = 3,
     ar_namespace_id = 0, ar_status = st, ar_input_data = None, ar_result_data = None, ar_step_count = 2,
     ar_step_results = [], ar_event_count = 1, ar_archived_at_ms = 0, ar_start_time_ms = 0, ar_close_time_ms = 0\<rparr>"

theorem archive_indices_exact_witness:
  "let s = fold archive_step [OArchive (sample_record 1 Completed), OArchive (sample_record 2 Failed), ODelete 1] ArchiveStore_new;
       recs = {r. \<exists>k. archive_get s k = Some r}
   in set (archive_list_by_status s Failed) = {r \<in> recs. ar_status r = Failed}"
proof -
  let ?ops = "[OArchive (sample_record 1 Completed), OArchive (sample_record 2 Failed), ODelete 1]"
  have "archives_once ?ops ArchiveStore_new" by code_simp
  from archive_indices_exact [OF this, of _ _ Failed] show ?thesis by (simp only: Let_def)
qed

end
