(* ===== verification/Cron.thy ===== *)
theory Cron
  imports Visibility "HOL-Library.While_Combinator"
begin

text \<open>
  The cron scheduler of \<open>cron.rs\<close>: parsing of five-field expressions, the search for the next
  fire time in the simplified calendar of the source, and the table of schedules.  Strings are
  lists of characters; \<open>None\<close> is a parse that does not return.
\<close>

section \<open>Strings\<close>

definition is_whitespace :: "char \<Rightarrow> bool" where
  "is_whitespace c \<longleftrightarrow> (let n = (of_char c :: nat) in (9 \<le> n \<and> n \<le> 13) \<or> n = 32 \<or> n = 133 \<or> n = 160)"

fun split_on :: "('a \<Rightarrow> bool) \<Rightarrow> 'a list \<Rightarrow> 'a list list" where
  "split_on P [] = [[]]"
| "split_on P (x # xs) =
     (if P x then [] # split_on P xs
      else case split_on P xs of y # ys \<Rightarrow> (x # y) # ys | [] \<Rightarrow> [[x]])"

definition split_whitespace :: "string \<Rightarrow> string list" where
  "split_whitespace s = filter (\<lambda>w. w \<noteq> []) (split_on is_whitespace s)"

definition trim :: "string \<Rightarrow> string" where
  "trim s = rev (dropWhile is_whitespace (rev (dropWhile is_whitespace s)))"

definition digit_value :: "char \<Rightarrow> nat option" where
  "digit_value c = (let n = of_char c in if 48 \<le> n \<and> n \<le> 57 then Some (n - 48) else None)"

text \<open>\<open>str::parse::<u8>\<close>: digits after an optional plus sign, at most 255.\<close>

definition parse_u8 :: "string \<Rightarrow> u8 option" where
  "parse_u8 s =
     (let s = (case s of c # cs \<Rightarrow> if c = CHR ''+'' then cs else s | [] \<Rightarrow> s);
          n = foldl (\<lambda>acc c. 10 * acc + the (digit_value c)) 0 s
      in if s = [] \<or> list_ex (\<lambda>c. digit_value c = None) s \<or> n > 255 then None else Some (word_of_nat n))"

section \<open>Expressions\<close>

record cron_expression =
  ce_minutes :: "u8 list"
  ce_hours :: "u8 list"
  ce_days_of_month :: "u8 list"
  ce_months :: "u8 list"
  ce_days_of_week :: "u8 list"

datatype cron_error = InvalidFormat string | InvalidValue string | OutOfRange string u8 u8

definition u8_range :: "u8 \<Rightarrow> u8 \<Rightarrow> u8 list" where
  "u8_range a b = map word_of_nat [unat a..<Suc (unat b)]"

text \<open>The loop over the steps of \<open>*/step\<close>; the addition wraps.\<close>

definition step_values :: "u8 \<Rightarrow> u8 \<Rightarrow> u8 \<Rightarrow> u8 list option" where
  "step_values lo hi step =
     map_option snd (while_option (\<lambda>(v, vs). v \<le> hi) (\<lambda>(v, vs). (v + step, vs @ [v])) (lo, []))"

definition parse_part :: "string \<Rightarrow> u8 \<Rightarrow> u8 \<Rightarrow> (cron_error + u8 list) option" where
  "parse_part part lo hi =
     (if part = ''*'' then Some (Inr (u8_range lo hi))
      else if take 2 part = ''*/'' then
        (case parse_u8 (drop 2 part) of
           None \<Rightarrow> Some (Inl (InvalidValue part))
         | Some step \<Rightarrow>
             if step = 0 then Some (Inl (InvalidValue ''Step cannot be zero''))
             else map_option Inr (step_values lo hi step))
      else if CHR ''-'' \<in> set part then
        (case split_on (\<lambda>c. c = CHR ''-'') part of
           [a, b] \<Rightarrow>
             (case (parse_u8 a, parse_u8 b) of
                (Some start, Some stop) \<Rightarrow>
                  if start > hi \<or> stop > hi then Some (Inl (OutOfRange part lo hi))
                  else Some (Inr (u8_range start stop))
              | _ \<Rightarrow> Some (Inl (InvalidValue part)))
         | _ \<Rightarrow> Some (Inl (InvalidValue part)))
      else
        (case parse_u8 part of
           None \<Rightarrow> Some (Inl (InvalidValue part))
         | Some v \<Rightarrow> if v < lo \<or> v > hi then Some (Inl (OutOfRange part lo hi)) else Some (Inr [v])))"

fun parse_parts :: "string list \<Rightarrow> u8 \<Rightarrow> u8 \<Rightarrow> u8 list \<Rightarrow> (cron_error + u8 list) option" where
  "parse_parts [] lo hi vs = Some (Inr vs)"
| "parse_parts (p # ps) lo hi vs =
     (case parse_part (trim p) lo hi of
        None \<Rightarrow> None
      | Some (Inl err) \<Rightarrow> Some (Inl err)
      | Some (Inr new) \<Rightarrow> parse_parts ps lo hi (vs @ new))"

definition parse_field :: "string \<Rightarrow> u8 \<Rightarrow> u8 \<Rightarrow> (cron_error + u8 list) option" where
  "parse_field field lo hi =
     map_option (map_sum id (\<lambda>vs. remdups_adj (sort vs))) (parse_parts (split_on (\<lambda>c. c = CHR '','') field) lo hi [])"

text \<open>The question mark operator on results that may not be there.\<close>

definition try_then :: "('e + 'a) option \<Rightarrow> ('a \<Rightarrow> ('e + 'b) option) \<Rightarrow> ('e + 'b) option" where
  "try_then x f = (case x of None \<Rightarrow> None | Some (Inl err) \<Rightarrow> Some (Inl err) | Some (Inr a) \<Rightarrow> f a)"

definition CronExpression_parse :: "string \<Rightarrow> (cron_error + cron_expression) option" where
  "CronExpression_parse expr =
     (case split_whitespace expr of
        [f0, f1, f2, f3, f4] \<Rightarrow>
          try_then (parse_field f0 0 59) (\<lambda>minutes.
          try_then (parse_field f1 0 23) (\<lambda>hours.
          try_then (parse_field f2 1 31) (\<lambda>days.
          try_then (parse_field f3 1 12) (\<lambda>months.
          try_then (parse_field f4 0 6) (\<lambda>weekdays.
            Some (Inr \<lparr>ce_minutes = minutes, ce_hours = hours, ce_days_of_month = days, ce_months = months,
                       ce_days_of_week = weekdays\<rparr>))))))
      | fs \<Rightarrow> Some (Inl (InvalidFormat (''Expected 5 fields, got '' @ decimal (length fs)))))"

section \<open>Fire times\<close>

definition fires_at :: "cron_expression \<Rightarrow> u64 \<Rightarrow> bool" where
  "fires_at c t \<longleftrightarrow> ucast (t mod 60) \<in> set (ce_minutes c) \<and> ucast (t div 60 mod 24) \<in> set (ce_hours c)
     \<and> ucast (t div 1440 mod 31) + 1 \<in> set (ce_days_of_month c) \<and> ucast (t div 43200 mod 12) + 1 \<in> set (ce_months c)
     \<and> ucast (t div 1440 mod 7) \<in> set (ce_days_of_week c)"

fun search_fire :: "nat \<Rightarrow> cron_expression \<Rightarrow> u64 \<Rightarrow> u64 option" where
  "search_fire 0 c candidate = None"
| "search_fire (Suc n) c candidate = (if fires_at c candidate then Some candidate else search_fire n c (candidate + 1))"

definition max_iterations :: nat where
  "max_iterations = 4 * 366 * 24 * 60"

definition next_fire_after :: "cron_expression \<Rightarrow> u64 \<Rightarrow> u64" where
  "next_fire_after c after =
     (case search_fire max_iterations c (after + 1) of Some t \<Rightarrow> t | None \<Rightarrow> after + 60)"

section \<open>Schedules\<close>

record cron_entry =
  cn_schedule_id :: u64
  cn_cron_expr :: cron_expression
  cn_workflow_type_id :: u64
  cn_namespace_id :: u64
  cn_task_queue_hash :: u64
  cn_total_steps :: u32
  cn_last_fire_time :: u64
  cn_next_fire_time :: u64
  cn_fire_count :: u64
  cn_paused :: bool

record cron_fire_event =
  cf_schedule_id :: u64
  cf_workflow_type_id :: u64
  cf_namespace_id :: u64
  cf_task_queue_hash :: u64
  cf_total_steps :: u32
  cf_fire_number :: u64

record cron_scheduler =
  cs_entries :: "(u64, cron_entry) hash_map"
  cs_next_id :: u64

definition CronScheduler_new :: cron_scheduler where
  "CronScheduler_new = \<lparr>cs_entries = [], cs_next_id = 1\<rparr>"

definition cron_register ::
    "cron_scheduler \<Rightarrow> string \<Rightarrow> u64 \<Rightarrow> u64 \<Rightarrow> u64 \<Rightarrow> u32 \<Rightarrow> u64 \<Rightarrow> (cron_error + cron_scheduler \<times> u64) option" where
  "cron_register s expression tid ns tq steps now =
     try_then (CronExpression_parse expression) (\<lambda>expr.
       let i = cs_next_id s
       in Some (Inr (s\<lparr>cs_next_id := i + 1, cs_entries := hm_insert (cs_entries s) i
            \<lparr>cn_schedule_id = i, cn_cron_expr = expr, cn_workflow_type_id = tid, cn_namespace_id = ns,
             cn_task_queue_hash = tq, cn_total_steps = steps, cn_last_fire_time = 0,
             cn_next_fire_time = next_fire_after expr now, cn_fire_count = 0, cn_paused = False\<rparr>\<rparr>, i)))"

definition cron_unregister :: "cron_scheduler \<Rightarrow> u64 \<Rightarrow> cron_scheduler \<times> bool" where
  "cron_unregister s i = (s\<lparr>cs_entries := hm_remove (cs_entries s) i\<rparr>, map_of (cs_entries s) i \<noteq> None)"

definition set_paused :: "cron_scheduler \<Rightarrow> u64 \<Rightarrow> bool \<Rightarrow> cron_scheduler \<times> bool" where
  "set_paused s i paused =
     (s\<lparr>cs_entries := modify (cs_entries s) i (\<lambda>x. x\<lparr>cn_paused := paused\<rparr>)\<rparr>, map_of (cs_entries s) i \<noteq> None)"

definition is_due :: "u64 \<Rightarrow> cron_entry \<Rightarrow> bool" where
  "is_due now x \<longleftrightarrow> \<not> cn_paused x \<and> cn_next_fire_time x \<le> now"

definition fire_event :: "cron_entry \<Rightarrow> cron_fire_event" where
  "fire_event x = \<lparr>cf_schedule_id = cn_schedule_id x, cf_workflow_type_id = cn_workflow_type_id x,
     cf_namespace_id = cn_namespace_id x, cf_task_queue_hash = cn_task_queue_hash x, cf_total_steps = cn_total_steps x,
     cf_fire_number = cn_fire_count x + 1\<rparr>"

definition fired_entry :: "u64 \<Rightarrow> cron_entry \<Rightarrow> cron_entry" where
  "fired_entry now x = x\<lparr>cn_last_fire_time := cn_next_fire_time x, cn_fire_count := cn_fire_count x + 1,
     cn_next_fire_time := next_fire_after (cn_cron_expr x) now\<rparr>"

definition advance_to :: "cron_scheduler \<Rightarrow> u64 \<Rightarrow> cron_scheduler \<times> cron_fire_event list" where
  "advance_to s now =
     (s\<lparr>cs_entries := map_values (\<lambda>x. if is_due now x then fired_entry now x else x) (cs_entries s)\<rparr>,
      map fire_event (filter (is_due now) (map snd (cs_entries s))))"

definition next_fire_time :: "cron_scheduler \<Rightarrow> u64 \<Rightarrow> u64 option" where
  "next_fire_time s i = map_option cn_next_fire_time (map_of (cs_entries s) i)"

definition fire_count :: "cron_scheduler \<Rightarrow> u64 \<Rightarrow> u64 option" where
  "fire_count s i = map_option cn_fire_count (map_of (cs_entries s) i)"

section \<open>Parsing returns\<close>

lemma step_values_return:
  assumes "lo \<le> hi" and "hi \<le> 59" and "step \<noteq> 0"
  obtains vs where "step_values lo hi step = Some vs" "\<forall>v \<in> set vs. v \<le> hi"
proof -
  let ?b = "\<lambda>(v, vs). v \<le> hi" and ?c = "\<lambda>(v, vs :: u8 list). (v + step, vs @ [v])"
  let ?f = "\<lambda>(v, vs :: u8 list). if v > hi then 0 else if unat step \<le> 196 then 256 - unat v else Suc (unat v)"
  have hi: "unat hi \<le> 59" using assms(2) by (simp add: word_le_nat_alt)
  have step: "0 < unat step" "unat step < 256" using assms(3) unat_less_exp [of step] by (simp_all add: unat_gt_0)
  have "?f (?c s) < ?f s" if "?b s" for s
  proof -
    obtain v vs where s: "s = (v, vs)" by (cases s)
    have v: "unat v \<le> unat hi" using that by (simp add: s word_le_nat_alt)
    have "unat (v + step) = (unat v + unat step) mod 256" by (simp add: unat_word_ariths)
    moreover have "(unat v + unat step) mod 256 = (if unat v + unat step < 256 then unat v + unat step else unat v + unat step - 256)"
      using v hi step(2) by (simp add: mod_if)
    ultimately show ?thesis using v hi step by (auto simp: s word_less_nat_alt)
  qed
  then obtain t where t: "while_option ?b ?c (lo, []) = Some t"
    using measure_while_option_Some [of "\<lambda>_. True" ?b ?c ?f "(lo, [])"] by auto
  have "\<forall>v \<in> set (snd t). v \<le> hi"
    by (rule while_option_rule [where P = "\<lambda>s. \<forall>v \<in> set (snd s). v \<le> hi", OF _ t]) auto
  then show thesis using that t by (simp add: step_values_def)
qed

lemma u8_range_bound: "v \<in> set (u8_range a b) \<Longrightarrow> v \<le> b"
  using unat_less_exp [of b] by (auto simp: u8_range_def word_le_nat_alt unsigned_of_nat take_bit_nat_eq_self)

text \<open>A parse that returns, with values up to a bound if it succeeds.\<close>

definition returns_upto :: "u8 \<Rightarrow> (cron_error + u8 list) option \<Rightarrow> bool" where
  "returns_upto hi x \<longleftrightarrow> (case x of None \<Rightarrow> False | Some (Inl _) \<Rightarrow> True | Some (Inr vs) \<Rightarrow> \<forall>v \<in> set vs. v \<le> hi)"

lemma returns_upto_simps [simp]:
  "returns_upto hi (Some (Inl err))" "returns_upto hi (Some (Inr vs)) \<longleftrightarrow> (\<forall>v \<in> set vs. v \<le> hi)" "\<not> returns_upto hi None"
  by (simp_all add: returns_upto_def)

lemma parse_part_returns:
  assumes "lo \<le> hi" and "hi \<le> 59"
  shows "returns_upto hi (parse_part part lo hi)"
proof -
  have step: "returns_upto hi (case o1 of None \<Rightarrow> Some (Inl (InvalidValue part))
      | Some step \<Rightarrow> if step = 0 then Some (Inl (InvalidValue msg)) else map_option Inr (step_values lo hi step))" for o1 msg
  proof (cases o1)
    case (Some st)
    show ?thesis
    proof (cases "st = 0")
      case False
      obtain vs where "step_values lo hi st = Some vs" "\<forall>v \<in> set vs. v \<le> hi"
        using step_values_return [OF assms False] .
      then show ?thesis using Some False by simp
    qed (simp add: Some)
  qed simp
  have range: "returns_upto hi (case bounds of [a, b] \<Rightarrow> (case (parse_u8 a, parse_u8 b) of
        (Some start, Some stop) \<Rightarrow> if start > hi \<or> stop > hi then Some (Inl (OutOfRange part lo hi)) else Some (Inr (u8_range start stop))
      | _ \<Rightarrow> Some (Inl (InvalidValue part))) | _ \<Rightarrow> Some (Inl (InvalidValue part)))" for bounds
  proof (cases "\<exists>a b. bounds = [a, b]")
    case True
    then obtain a b where ab: "bounds = [a, b]" by blast
    have "returns_upto hi (Some (Inr (u8_range start stop)))" if "\<not> (start > hi \<or> stop > hi)" for start stop
      using that by (auto simp: not_less dest!: u8_range_bound elim: order_trans)
    then show ?thesis unfolding ab by (cases "parse_u8 a"; cases "parse_u8 b") (simp_all del: returns_upto_simps(2))
  next
    case False
    then show ?thesis by (simp split: list.split)
  qed
  have single: "returns_upto hi (case o1 of None \<Rightarrow> Some (Inl (InvalidValue part))
      | Some v \<Rightarrow> if v < lo \<or> v > hi then Some (Inl (OutOfRange part lo hi)) else Some (Inr [v]))" for o1
    by (simp add: not_less split: option.split)
  have ite: "returns_upto hi x \<Longrightarrow> returns_upto hi y \<Longrightarrow> returns_upto hi (if b then x else y)" for x y b by simp
  have all: "returns_upto hi (Some (Inr (u8_range lo hi)))" by (simp add: u8_range_bound)
  show ?thesis unfolding parse_part_def
    by (intro ite step range single all)
qed

lemma parse_parts_returns:
  assumes "lo \<le> hi" and "hi \<le> 59" and "\<forall>v \<in> set vs. v \<le> hi"
  shows "returns_upto hi (parse_parts ps lo hi vs)"
  using assms(3)
proof (induction ps arbitrary: vs)
  case (Cons p ps)
  have part: "returns_upto hi (parse_part (trim p) lo hi)" by (rule parse_part_returns [OF assms(1,2)])
  show ?case
  proof (cases "parse_part (trim p) lo hi")
    case None
    then show ?thesis using part by simp
  next
    case (Some r)
    then show ?thesis using part Cons.prems Cons.IH [of "vs @ projr r"] by (cases r) auto
  qed
qed simp

text \<open>A field: strictly increasing values up to its bound.\<close>

definition field_ok :: "u8 \<Rightarrow> u8 list \<Rightarrow> bool" where
  "field_ok hi vs \<longleftrightarrow> sorted vs \<and> distinct vs \<and> (\<forall>v \<in> set vs. v \<le> hi)"

lemma parse_field_returns:
  assumes "lo \<le> hi" and "hi \<le> 59"
  shows "parse_field field lo hi \<noteq> None" and "parse_field field lo hi = Some (Inr vs) \<Longrightarrow> field_ok hi vs"
  using parse_parts_returns [OF assms, of "[]" "split_on (\<lambda>c. c = CHR '','') field"]
  by (auto simp: parse_field_def returns_upto_def field_ok_def distinct_remdups_adj_sorted split: option.splits sum.splits)

lemma try_then_SomeI:
  assumes "x \<noteq> None" and "\<And>a. x = Some (Inr a) \<Longrightarrow> \<exists>y. f a = Some y \<and> Q y" and "\<And>err. Q (Inl err)"
  shows "\<exists>y. try_then x f = Some y \<and> Q y"
  using assms by (auto simp: try_then_def split: option.splits sum.splits)

definition cron_wf :: "cron_error + cron_expression \<Rightarrow> bool" where
  "cron_wf r = (case r of Inl _ \<Rightarrow> True | Inr c \<Rightarrow> field_ok 59 (ce_minutes c) \<and> field_ok 23 (ce_hours c)
     \<and> field_ok 31 (ce_days_of_month c) \<and> field_ok 12 (ce_months c) \<and> field_ok 6 (ce_days_of_week c))"

text \<open>
  C35.  Parsing a cron expression always returns, and what it accepts has five strictly increasing
  lists of values that do not exceed the largest value of their field.
\<close>

theorem cron_parse_returns_sorted_fields: "\<exists>r. CronExpression_parse expr = Some r \<and> cron_wf r"
proof (cases "length (split_whitespace expr) = 5")
  case True
  then obtain f0 f1 f2 f3 f4 where fs: "split_whitespace expr = [f0, f1, f2, f3, f4]"
    by (auto simp: length_Suc_conv eval_nat_numeral)
  have b: "(0 :: u8) \<le> 59" "(0 :: u8) \<le> 23" "(1 :: u8) \<le> 31" "(1 :: u8) \<le> 12" "(0 :: u8) \<le> 6" "(23 :: u8) \<le> 59"
    "(31 :: u8) \<le> 59" "(12 :: u8) \<le> 59" "(6 :: u8) \<le> 59" by (simp_all add: word_le_nat_alt)
  note fields = parse_field_returns [OF b(1) order_refl] parse_field_returns [OF b(2,6)] parse_field_returns [OF b(3,7)]
    parse_field_returns [OF b(4,8)] parse_field_returns [OF b(5,9)]
  show ?thesis unfolding CronExpression_parse_def fs list.case
    by (intro try_then_SomeI fields) (simp_all add: cron_wf_def fields)
next
  case False
  then have "CronExpression_parse expr = Some (Inl (InvalidFormat (''Expected 5 fields, got '' @ decimal (length (split_whitespace expr)))))"
    by (auto simp: CronExpression_parse_def split: list.split)
  then show ?thesis by (simp add: cron_wf_def)
qed

section \<open>Fire times\<close>

lemma search_fire_cases:
  assumes "unat t + n \<le> 2 ^ 64"
  obtains "search_fire n c t = None" "\<forall>s. t \<le> s \<and> unat s < unat t + n \<longrightarrow> \<not> fires_at c s"
  | s where "search_fire n c t = Some s" "fires_at c s" "t \<le> s" "\<forall>u. t \<le> u \<and> u < s \<longrightarrow> \<not> fires_at c u"
proof -
  have "(search_fire n c t = None \<and> (\<forall>s. t \<le> s \<and> unat s < unat t + n \<longrightarrow> \<not> fires_at c s))
     \<or> (\<exists>s. search_fire n c t = Some s \<and> fires_at c s \<and> t \<le> s \<and> (\<forall>u. t \<le> u \<and> u < s \<longrightarrow> \<not> fires_at c u))"
    using assms
  proof (induction n arbitrary: t)
    case 0
    then show ?case by (auto simp: word_le_nat_alt)
  next
    case (Suc n)
    show ?case
    proof (cases "fires_at c t \<or> n = 0")
      case True
      then show ?thesis by (auto simp: word_le_nat_alt word_less_nat_alt dest: word_unat_eq_iff [THEN iffD2] le_antisym)
    next
      case False
      have u: "unat (t + 1) = Suc (unat t)" using Suc.prems False by (simp add: unat_word_ariths)
      have le: "t \<le> s \<longleftrightarrow> s = t \<or> t + 1 \<le> s" for s by (auto simp: word_le_nat_alt u word_unat_eq_iff)
      have "unat (t + 1) + n \<le> 2 ^ 64" using Suc.prems u by simp
      from Suc.IH [OF this] show ?thesis
      proof (elim disjE exE conjE)
        assume "search_fire n c (t + 1) = None" "\<forall>s. t + 1 \<le> s \<and> unat s < unat (t + 1) + n \<longrightarrow> \<not> fires_at c s"
        then show ?thesis using False u by (auto simp: le)
      next
        fix s assume "search_fire n c (t + 1) = Some s" "fires_at c s" "t + 1 \<le> s" "\<forall>v. t + 1 \<le> v \<and> v < s \<longrightarrow> \<not> fires_at c v"
        then show ?thesis using False by (auto simp: le)
      qed
    qed
  qed
  then show thesis using that by blast
qed

lemma unat_after:
  fixes after :: u64
  assumes "unat after + 1 + max_iterations \<le> 2 ^ 64"
  shows "unat (after + 1) = unat after + 1" and "unat (after + 1) + max_iterations \<le> 2 ^ 64"
    and "after < v \<longleftrightarrow> after + 1 \<le> v"
  using assms by (simp_all add: unat_word_ariths max_iterations_def word_less_nat_alt word_le_nat_alt Suc_le_eq)

lemma next_fire_later:
  assumes "unat after + 1 + max_iterations \<le> 2 ^ 64"
  shows "after < next_fire_after c after"
proof (rule search_fire_cases [OF unat_after(2) [OF assms], of c])
  assume "search_fire max_iterations c (after + 1) = None"
  then show ?thesis using assms by (simp add: next_fire_after_def word_less_nat_alt unat_word_ariths max_iterations_def)
next
  fix s assume "search_fire max_iterations c (after + 1) = Some s" "after + 1 \<le> s"
  then show ?thesis using unat_after(3) [OF assms] by (simp add: next_fire_after_def)
qed

text \<open>
  C36.  The next fire time is the first matching minute after the given one within the search
  bound of four years; without one it is an hour later, matching or not.
\<close>

theorem next_fire_is_first_match:
  assumes "unat after + 1 + max_iterations \<le> 2 ^ 64"
  shows "(fires_at c (next_fire_after c after) \<and> after < next_fire_after c after
          \<and> (\<forall>u. after < u \<and> u < next_fire_after c after \<longrightarrow> \<not> fires_at c u))
    \<or> (next_fire_after c after = after + 60
          \<and> (\<forall>u. after < u \<and> unat u \<le> unat after + max_iterations \<longrightarrow> \<not> fires_at c u))"
proof -
  note u = unat_after(1) [OF assms] and b = unat_after(2) [OF assms] and less = unat_after(3) [OF assms]
  show ?thesis
  proof (rule search_fire_cases [OF b, of c])
    assume "search_fire max_iterations c (after + 1) = None"
      "\<forall>s. after + 1 \<le> s \<and> unat s < unat (after + 1) + max_iterations \<longrightarrow> \<not> fires_at c s"
    then show ?thesis by (auto simp: next_fire_after_def less u)
  next
    fix s assume "search_fire max_iterations c (after + 1) = Some s" "fires_at c s" "after + 1 \<le> s"
      "\<forall>v. after + 1 \<le> v \<and> v < s \<longrightarrow> \<not> fires_at c v"
    then show ?thesis by (simp add: next_fire_after_def less)
  qed
qed

definition every_minute :: cron_expression where
  "every_minute = \<lparr>ce_minutes = u8_range 0 59, ce_hours = u8_range 0 23, ce_days_of_month = u8_range 1 31,
     ce_months = u8_range 1 12, ce_days_of_week = u8_range 0 6\<rparr>"

theorem next_fire_is_first_match_witness: "100 < next_fire_after every_minute 100"
proof -
  have "unat (100 :: u64) + 1 + max_iterations \<le> 2 ^ 64" by (simp add: max_iterations_def)
  from next_fire_is_first_match [OF this, of every_minute]
  show ?thesis
  proof
    assume "next_fire_after every_minute 100 = 100 + 60
        \<and> (\<forall>u. 100 < u \<and> unat u \<le> unat (100 :: u64) + max_iterations \<longrightarrow> \<not> fires_at every_minute u)"
    then show ?thesis by simp
  qed blast
qed


text \<open>
  C37.  A pass of the scheduler fires every schedule that is due and not paused once, however many of
  its fire times have passed, and a second pass at the same minute fires nothing.
\<close>

theorem cron_fires_due_once:
  assumes "unat now + 1 + max_iterations \<le> 2 ^ 64" and "advance_to s now = (s', fires)"
  shows "map cf_schedule_id fires = map cn_schedule_id (filter (\<lambda>x. \<not> cn_paused x \<and> cn_next_fire_time x \<le> now) (map snd (cs_entries s)))
    \<and> snd (advance_to s' now) = []
    \<and> map (\<lambda>x. (cn_schedule_id x, cn_paused x)) (map snd (cs_entries s')) = map (\<lambda>x. (cn_schedule_id x, cn_paused x)) (map snd (cs_entries s))"
proof -
  have due: "is_due now = (\<lambda>x. \<not> cn_paused x \<and> cn_next_fire_time x \<le> now)" by (simp add: fun_eq_iff is_due_def)
  let ?step = "\<lambda>x. if is_due now x then fired_entry now x else x"
  have again: "\<not> is_due now (?step x)" for x
    using next_fire_later [OF assms(1)] by (auto simp: is_due_def fired_entry_def not_le)
  have vals: "map snd (map_values f m) = map f (map snd m)" for f :: "cron_entry \<Rightarrow> cron_entry" and m :: "(u64, cron_entry) hash_map"
    by (simp add: map_values_def case_prod_beta)
  have s': "s' = s\<lparr>cs_entries := map_values ?step (cs_entries s)\<rparr>" and fires: "fires = map fire_event (filter (is_due now) (map snd (cs_entries s)))"
    using assms(2) by (simp_all add: advance_to_def)
  have none: "filter (is_due now) (map ?step xs) = []" for xs using again by (induction xs) simp_all
  have "map cf_schedule_id fires = map cn_schedule_id (filter (is_due now) (map snd (cs_entries s)))"
    by (simp add: fires fire_event_def)
  moreover have "snd (advance_to s' now) = []" unfolding s' by (simp add: advance_to_def vals none del: map_map)
  moreover have "map (\<lambda>x. (cn_schedule_id x, cn_paused x)) (map snd (cs_entries s')) = map (\<lambda>x. (cn_schedule_id x, cn_paused x)) (map snd (cs_entries s))"
    unfolding s' by (simp add: vals del: map_map) (simp add: fired_entry_def)
  ultimately show ?thesis unfolding due by blast
qed

theorem cron_fires_due_once_witness:
  "let x = \<lparr>cn_schedule_id = 1, cn_cron_expr = every_minute, cn_workflow_type_id = 9, cn_namespace_id = 0, cn_task_queue_hash = 5,
       cn_total_steps = 2, cn_last_fire_time = 0, cn_next_fire_time = 40, cn_fire_count = 0, cn_paused = False\<rparr>;
       s = \<lparr>cs_entries = [(1, x)], cs_next_id = 2\<rparr>
   in map cf_schedule_id (snd (advance_to s 100)) = [1] \<and> snd (advance_to (fst (advance_to s 100)) 100) = []"
proof -
  have "unat (100 :: u64) + 1 + max_iterations \<le> 2 ^ 64" by (simp add: max_iterations_def)
  from cron_fires_due_once [OF this prod.collapse [symmetric]]
  show ?thesis by (simp add: Let_def)
qed

end
