(* ===== verification/Engine.thy ===== *)
theory Engine
  imports Wal Archival Cron Slab_Pool Task_Queue Timer_Engine Event_History Dependency_Graph Circuit_Breaker
begin

text \<open>
  The workflow engine of \<open>engine.rs\<close>: the state it keeps in its subsystems and the handlers over
  them.  A handler is one step on the engine; the readings of the clocks within it are taken
  to be equal, a monotonic one and one in milliseconds since the epoch.  The subsystems modelled in
  their own theories are fields of the state.  Of the deployment pipeline only the table
  of active deployments is kept, for the two look-ups of the handlers; calls into metrics,
  matching, execution tracking, change versions, deployment statistics, resets and the hardware layer
  are appended in order to the list \<open>en_calls\<close>.
\<close>

section \<open>State\<close>

record durability_config =
  sync_steps :: u32
  flush_interval_ms :: u64
  direct_execution :: bool

definition Durability_strict :: durability_config where
  "Durability_strict = \<lparr>sync_steps = 0, flush_interval_ms = 0, direct_execution = False\<rparr>"

definition Durability_batched :: "u32 \<Rightarrow> u64 \<Rightarrow> durability_config" where
  "Durability_batched n ms = \<lparr>sync_steps = n, flush_interval_ms = ms, direct_execution = False\<rparr>"

definition Durability_async_only :: "u64 \<Rightarrow> durability_config" where
  "Durability_async_only ms = \<lparr>sync_steps = - 1, flush_interval_ms = ms, direct_execution = False\<rparr>"

definition with_direct_execution :: "durability_config \<Rightarrow> durability_config" where
  "with_direct_execution c = c\<lparr>direct_execution := True\<rparr>"

definition with_direct_execution_if :: "durability_config \<Rightarrow> bool \<Rightarrow> durability_config" where
  "with_direct_execution_if c b = (if b then c\<lparr>direct_execution := True\<rparr> else c)"

datatype subsystem_call = AddMatchTask u64 string | IncCounter string | SetGauge string int
  | TrackStart u64 | TrackCompletion u64 u64 | TrackFailure u64 | TrackCancellation u64 | TrackTermination u64
  | RegisterVersions u64 | UnregisterVersions u64 | RecordExecution u64 bool u64
  | SlabWrite u64 bytes bytes | CreateResetPoint u64 u64

record clock =
  mono :: instant
  epoch_ms :: u64

record engine =
  en_workflows :: "workflow_context ctx_pool"
  en_task_queue :: task_queue
  en_timers :: timer_engine
  en_wal :: "wal_manager option"
  en_visibility :: visibility_index
  en_archive :: archive_store
  en_archive_policy :: archive_policy
  en_next_run_id :: u64
  en_history :: history_store
  en_pending_retries :: "(u64, (u32 \<times> u64) list) hash_map"
  en_graph :: dependency_graph
  en_breakers :: breaker_registry
  en_active_deployments :: "(string, u64) hash_map"
  en_durability :: durability_config
  en_steps_since_sync :: u32
  en_last_sync :: instant
  en_cron :: cron_scheduler
  en_calls :: "subsystem_call list"

definition WorkflowEngine_new :: "clock \<Rightarrow> engine" where
  "WorkflowEngine_new t =
     \<lparr>en_workflows = WorkflowContextPool_new, en_task_queue = TaskQueue_new, en_timers = TimerEngine_new,
      en_wal = None, en_visibility = VisibilityIndex_new, en_archive = ArchiveStore_new,
      en_archive_policy = default_completed, en_next_run_id = 1, en_history = [], en_pending_retries = [],
      en_graph = Graph_new, en_breakers = Registry_new, en_active_deployments = [],
      en_durability = Durability_strict, en_steps_since_sync = 0, en_last_sync = mono t,
      en_cron = CronScheduler_new, en_calls = []\<rparr>"

definition WorkflowEngine_with_wal :: "bytes option \<Rightarrow> (nat, bytes) hash_map \<Rightarrow> u64 \<Rightarrow> clock \<Rightarrow> engine" where
  "WorkflowEngine_with_wal found rotated limit t =
     (WorkflowEngine_new t)\<lparr>en_wal := Some (WalManager_new found rotated limit)\<rparr>"

definition enable_wal :: "engine \<Rightarrow> bytes option \<Rightarrow> (nat, bytes) hash_map \<Rightarrow> u64 \<Rightarrow> engine" where
  "enable_wal e found rotated limit = e\<lparr>en_wal := Some (WalManager_new found rotated limit)\<rparr>"

definition with_durability_config :: "engine \<Rightarrow> durability_config \<Rightarrow> clock \<Rightarrow> engine" where
  "with_durability_config e c t = e\<lparr>en_durability := c, en_last_sync := mono t, en_steps_since_sync := 0\<rparr>"

definition init_timers :: "engine \<Rightarrow> engine" where
  "init_timers e = e\<lparr>en_timers := set_fire_callback (en_timers e)\<rparr>"

section \<open>Calls the handlers share\<close>

definition call_out :: "subsystem_call \<Rightarrow> engine \<Rightarrow> engine" where
  "call_out c e = e\<lparr>en_calls := en_calls e @ [c]\<rparr>"

definition log_event :: "wal_event_type \<Rightarrow> u64 \<Rightarrow> bytes \<Rightarrow> engine \<Rightarrow> engine" where
  "log_event typ key data e =
     (case en_wal e of None \<Rightarrow> e | Some w \<Rightarrow> e\<lparr>en_wal := Some (WalManager_append w typ key data)\<rparr>)"

definition sync_wal :: "engine \<Rightarrow> engine" where
  "sync_wal e = (case en_wal e of None \<Rightarrow> e | Some w \<Rightarrow> e\<lparr>en_wal := Some (WalManager_sync w)\<rparr>)"

definition new_task :: "task_kind \<Rightarrow> u64 \<Rightarrow> u64 \<Rightarrow> u32 \<Rightarrow> u64 \<Rightarrow> u32 \<Rightarrow> task_item" where
  "new_task kind key tq step name attempt =
     \<lparr>task_id = 0, ti_kind = kind, ti_workflow_key = key, task_queue_hash = tq, ti_step_index = step,
      ti_activity_name_id = name, ti_attempt = attempt, priority = 0, deadline_ms = 0\<rparr>"

definition enqueue_task :: "u64 \<Rightarrow> task_item \<Rightarrow> clock \<Rightarrow> engine \<Rightarrow> engine" where
  "enqueue_task tq task t e = e\<lparr>en_task_queue := enqueue (en_task_queue e) tq task (mono t)\<rparr>"

definition record_history :: "u64 \<Rightarrow> history_event_type \<Rightarrow> bytes \<Rightarrow> engine \<Rightarrow> engine" where
  "record_history key typ payload e = e\<lparr>en_history := fst (record_event (en_history e) key typ payload)\<rparr>"

definition show_status :: "u64 \<Rightarrow> workflow_status \<Rightarrow> u64 option \<Rightarrow> engine \<Rightarrow> engine" where
  "show_status key s close e = e\<lparr>en_visibility := vis_update_status (en_visibility e) key s close\<rparr>"

definition with_ctx :: "engine \<Rightarrow> u64 \<Rightarrow> (workflow_context option \<Rightarrow> 'r) \<Rightarrow> 'r" where
  "with_ctx e key f = WorkflowContextPool_with (en_workflows e) key f"

definition with_ctx_mut :: "engine \<Rightarrow> u64 \<Rightarrow> 'r \<Rightarrow> (workflow_context \<Rightarrow> workflow_context \<times> 'r) \<Rightarrow> engine \<times> 'r" where
  "with_ctx_mut e key none f =
     (case WorkflowContextPool_with_mut (en_workflows e) key none f of (p, r) \<Rightarrow> (e\<lparr>en_workflows := p\<rparr>, r))"

abbreviation update_ctx :: "u64 \<Rightarrow> (workflow_context \<Rightarrow> workflow_context) \<Rightarrow> engine \<Rightarrow> engine" where
  "update_ctx key f e \<equiv> fst (with_ctx_mut e key () (\<lambda>c. (f c, ())))"

section \<open>Reading a workflow\<close>

definition get_current_step :: "engine \<Rightarrow> u64 \<Rightarrow> u32" where
  "get_current_step e key = with_ctx e key (\<lambda>c. case c of None \<Rightarrow> 0 | Some c \<Rightarrow> sh_current_step (wc_slab c))"

definition Engine_is_step_completed :: "engine \<Rightarrow> u64 \<Rightarrow> u32 \<Rightarrow> bool" where
  "Engine_is_step_completed e key step =
     with_ctx e key (\<lambda>c. case c of None \<Rightarrow> False | Some c \<Rightarrow> Context_is_step_completed c step)"

definition Engine_get_step_result :: "engine \<Rightarrow> u64 \<Rightarrow> u32 \<Rightarrow> bytes option" where
  "Engine_get_step_result e key step =
     with_ctx e key (\<lambda>c. case c of None \<Rightarrow> None | Some c \<Rightarrow> Context_get_step_result c step)"

definition get_status :: "engine \<Rightarrow> u64 \<Rightarrow> workflow_status" where
  "get_status e key = with_ctx e key (\<lambda>c. case c of None \<Rightarrow> Void | Some c \<Rightarrow> wc_status c)"

definition get_total_steps :: "engine \<Rightarrow> u64 \<Rightarrow> u32" where
  "get_total_steps e key = with_ctx e key (\<lambda>c. case c of None \<Rightarrow> 0 | Some c \<Rightarrow> sh_total_steps (wc_slab c))"

definition get_activity_input :: "engine \<Rightarrow> u64 \<Rightarrow> u32 \<Rightarrow> bytes option" where
  "get_activity_input e key step =
     with_ctx e key (\<lambda>c. case c of None \<Rightarrow> None | Some c \<Rightarrow> SlotMap_get (activity_inputs c) (ucast step))"

definition get_event_sequence :: "engine \<Rightarrow> u64 \<Rightarrow> u64" where
  "get_event_sequence e key = with_ctx e key (\<lambda>c. case c of None \<Rightarrow> 0 | Some c \<Rightarrow> event_sequence c)"

definition Engine_workflow_count :: "engine \<Rightarrow> nat" where
  "Engine_workflow_count e = WorkflowContextPool_len (en_workflows e)"

definition type_id_of :: "engine \<Rightarrow> u64 \<Rightarrow> u64" where
  "type_id_of e key = with_ctx e key (\<lambda>c. case c of None \<Rightarrow> 0 | Some c \<Rightarrow> wc_workflow_type_id c)"

section \<open>Starting\<close>

definition started_context ::
    "digest_fn \<Rightarrow> u64 \<Rightarrow> u64 \<Rightarrow> u64 \<Rightarrow> u64 \<Rightarrow> u64 \<Rightarrow> u32 \<Rightarrow> bytes option \<Rightarrow> clock \<Rightarrow> workflow_context" where
  "started_context sha wid rid tid ns tq steps input t =
     (WorkflowContext_new sha wid rid tid tq steps (mono t))\<lparr>wc_namespace_id := ns, input_data := input\<rparr>"

definition start_record :: "u64 \<Rightarrow> u64 \<Rightarrow> u64 \<Rightarrow> u64 \<Rightarrow> u32 \<Rightarrow> bytes" where
  "start_record wid tid ns tq steps =
     to_le_bytes wid @ to_le_bytes tid @ to_le_bytes ns @ to_le_bytes tq @ to_le_bytes steps"

definition start_workflow_with_attrs ::
    "digest_fn \<Rightarrow> engine \<Rightarrow> u64 \<Rightarrow> u64 \<Rightarrow> u64 \<Rightarrow> u64 \<Rightarrow> u32 \<Rightarrow> bytes option
     \<Rightarrow> (string, search_attribute_value) hash_map \<Rightarrow> clock \<Rightarrow> engine \<times> u64" where
  "start_workflow_with_attrs sha e wid tid ns tq steps input attrs t =
     (let rid = en_next_run_id e;
          e = e\<lparr>en_next_run_id := en_next_run_id e + 1\<rparr>;
          key = workflow_key_of ns wid;
          ctx = started_context sha wid rid tid ns tq steps input t;
          e = enqueue_task tq (new_task WorkflowTask key tq 0 0 1) t e;
          e = call_out (AddMatchTask key (''tq-'' @ decimal (unat tq))) e;
          e = e\<lparr>en_workflows := fst (WorkflowContextPool_insert (en_workflows e) key ctx)\<rparr>;
          e = e\<lparr>en_visibility := vis_register (en_visibility e)
                 \<lparr>vi_workflow_key = key, vi_workflow_id = wid, vi_run_id = rid, vi_workflow_type_id = tid,
                  vi_namespace_id = ns, vi_status = Running, vi_start_time_ms = epoch_ms t,
                  vi_close_time_ms = None, vi_task_queue_hash = tq, vi_search_attributes = attrs, vi_memo = []\<rparr>\<rparr>;
          e = record_history key WorkflowStarted
                (map (word_of_nat \<circ> of_char) ''type='' @ to_le_bytes tid
                 @ map (word_of_nat \<circ> of_char) '';ns='' @ to_le_bytes ns) e;
          e = call_out (IncCounter ''velocity_workflow_started_total'') e;
          e = call_out (SetGauge ''velocity_workflows_running'' (int (WorkflowContextPool_len (en_workflows e)))) e;
          e = call_out (TrackStart tid) e;
          e = call_out (RegisterVersions key) e;
          e = log_event WalWorkflowStarted key (start_record wid tid ns tq steps) e
      in (e, key))"

definition start_workflow ::
    "digest_fn \<Rightarrow> engine \<Rightarrow> u64 \<Rightarrow> u64 \<Rightarrow> u64 \<Rightarrow> u64 \<Rightarrow> u32 \<Rightarrow> bytes option \<Rightarrow> clock \<Rightarrow> engine \<times> u64" where
  "start_workflow sha e wid tid ns tq steps input t =
     start_workflow_with_attrs sha e wid tid ns tq steps input [] t"

definition try_start_workflow ::
    "digest_fn \<Rightarrow> engine \<Rightarrow> u64 \<Rightarrow> u64 \<Rightarrow> u64 \<Rightarrow> u64 \<Rightarrow> u32 \<Rightarrow> bytes option \<Rightarrow> clock \<Rightarrow> engine \<times> u64 option" where
  "try_start_workflow sha e wid tid ns tq steps input t =
     (case Registry_allow_request (en_breakers e) tid (epoch_ms t) (epoch_ms t) (epoch_ms t) of
        (r, allowed) \<Rightarrow>
          if \<not> allowed
          then (call_out (IncCounter ''velocity_workflow_rejected_by_circuit_breaker_total'') (e\<lparr>en_breakers := r\<rparr>), None)
          else map_prod id Some (start_workflow sha (e\<lparr>en_breakers := r\<rparr>) wid tid ns tq steps input t))"

section \<open>Completing steps\<close>

definition step_record :: "u32 \<Rightarrow> bytes \<Rightarrow> bytes" where
  "step_record step result = to_le_bytes step @ result"

text \<open>The update of the context that the three completions share; \<open>None\<close> is their early return.\<close>

definition complete_in_context ::
    "digest_fn \<Rightarrow> engine \<Rightarrow> u64 \<Rightarrow> u32 \<Rightarrow> bytes \<Rightarrow> engine \<times> (u64 \<times> bytes) option" where
  "complete_in_context sha e key step result =
     with_ctx_mut e key None (\<lambda>c. let c = Context_complete_step sha c step result
        in (c, Some (wc_task_queue_hash c, sh_merkle_root (wc_slab c))))"

definition Engine_complete_step :: "digest_fn \<Rightarrow> engine \<Rightarrow> u64 \<Rightarrow> u32 \<Rightarrow> bytes \<Rightarrow> clock \<Rightarrow> engine" where
  "Engine_complete_step sha e key step result t =
     (let e = log_event WalStepCompleted key (step_record step result) e
      in case complete_in_context sha e key step result of
           (e, None) \<Rightarrow> e
         | (e, Some (tq, root)) \<Rightarrow>
             enqueue_task tq (new_task WorkflowTask key tq (step + 1) 0 1) t (call_out (SlabWrite key root root) e))"

definition complete_step_sync :: "digest_fn \<Rightarrow> engine \<Rightarrow> u64 \<Rightarrow> u32 \<Rightarrow> bytes \<Rightarrow> clock \<Rightarrow> engine" where
  "complete_step_sync sha e key step result t =
     (let e = sync_wal (log_event WalStepCompleted key (step_record step result) e)
      in case complete_in_context sha e key step result of
           (e, None) \<Rightarrow> e
         | (e, Some (tq, root)) \<Rightarrow>
             enqueue_task tq (new_task WorkflowTask key tq (step + 1) 0 1) t (call_out (SlabWrite key root root) e))"

definition complete_step_durable :: "digest_fn \<Rightarrow> engine \<Rightarrow> u64 \<Rightarrow> u32 \<Rightarrow> bytes \<Rightarrow> clock \<Rightarrow> engine" where
  "complete_step_durable sha e key step result t =
     (let sync = sync_steps (en_durability e);
          direct = direct_execution (en_durability e)
      in if sync = 0 then
           (let e = sync_wal (log_event WalStepCompleted key (step_record step result) e)
            in case complete_in_context sha e key step result of
                 (e, None) \<Rightarrow> e
               | (e, Some (tq, root)) \<Rightarrow>
                   let e = call_out (SlabWrite key root root) e
                   in if \<not> direct then enqueue_task tq (new_task WorkflowTask key tq (step + 1) 0 1) t e else e)
         else
           (let e = log_event WalStepCompleted key (step_record step result) e
            in case complete_in_context sha e key step result of
                 (e, None) \<Rightarrow> e
               | (e, Some (tq, root)) \<Rightarrow>
                   let e = call_out (SlabWrite key root root) e;
                       count = en_steps_since_sync e + 1;
                       e = e\<lparr>en_steps_since_sync := count\<rparr>;
                       step_threshold = count \<ge> sync;
                       time_threshold = mono t - en_last_sync e \<ge> from_millis (flush_interval_ms (en_durability e));
                       e = (if step_threshold \<or> time_threshold
                            then (sync_wal e)\<lparr>en_steps_since_sync := 0, en_last_sync := mono t\<rparr> else e)
                   in if \<not> direct then enqueue_task tq (new_task WorkflowTask key tq (step + 1) 0 1) t e else e))"

section \<open>Activities and timers\<close>

definition optional_millis :: "u64 \<Rightarrow> nat option" where
  "optional_millis ms = (if ms > 0 then Some (from_millis ms) else None)"

definition schedule_in_context ::
    "u32 \<Rightarrow> bytes \<Rightarrow> activity_timeouts \<Rightarrow> workflow_context \<Rightarrow> workflow_context \<times> u64 option" where
  "schedule_in_context step args timeouts c =
     (let c = c\<lparr>wc_activity_timeouts := SlotMap_insert (wc_activity_timeouts c) (ucast step) timeouts\<rparr>;
          c = (if args \<noteq> [] then c\<lparr>activity_inputs := SlotMap_insert (activity_inputs c) (ucast step) args\<rparr> else c)
      in (c, Some (wc_task_queue_hash c)))"

definition schedule_activity_with_timeouts ::
    "engine \<Rightarrow> u64 \<Rightarrow> u32 \<Rightarrow> u64 \<Rightarrow> bytes \<Rightarrow> u64 \<Rightarrow> u64 \<Rightarrow> u64 \<Rightarrow> u64 \<Rightarrow> clock \<Rightarrow> engine" where
  "schedule_activity_with_timeouts e key step name args sts stc sc hb t =
     (let timeouts = ActivityTimeouts_new (optional_millis sts) (optional_millis stc) (optional_millis sc)
            (optional_millis hb) (mono t)
      in case with_ctx_mut e key None (schedule_in_context step args timeouts) of
           (e, None) \<Rightarrow> e
         | (e, Some tq) \<Rightarrow> enqueue_task tq (new_task ActivityTask key tq step name 1) t e)"

definition schedule_activity :: "engine \<Rightarrow> u64 \<Rightarrow> u32 \<Rightarrow> u64 \<Rightarrow> bytes \<Rightarrow> clock \<Rightarrow> engine" where
  "schedule_activity e key step name args t = schedule_activity_with_timeouts e key step name args 0 0 0 0 t"

definition complete_activity :: "digest_fn \<Rightarrow> engine \<Rightarrow> u64 \<Rightarrow> u32 \<Rightarrow> bytes \<Rightarrow> clock \<Rightarrow> engine" where
  "complete_activity sha e key step result t = Engine_complete_step sha e key step result t"

text \<open>
  What a failed activity's context says about a retry: its next attempt, the delay and the
  queue.  The attempt is counted in the context.
\<close>

definition next_attempt :: "f64_scale \<Rightarrow> u32 \<Rightarrow> workflow_context \<Rightarrow> workflow_context \<times> (u32 \<times> nat \<times> u64) option" where
  "next_attempt scale step c =
     (case SlotMap_get (wc_activity_timeouts c) (ucast step) of
        None \<Rightarrow> (c, None)
      | Some timeouts \<Rightarrow>
          (case at_retry_policy timeouts of
             None \<Rightarrow> (c, None)
           | Some policy \<Rightarrow>
               if at_attempt timeouts < max_attempts policy
               then let attempt = at_attempt timeouts + 1
                    in (c\<lparr>wc_activity_timeouts := SlotMap_get_mut (wc_activity_timeouts c) (ucast step)
                            (\<lambda>x. x\<lparr>at_attempt := attempt\<rparr>)\<rparr>,
                        Some (attempt, calculate_delay scale policy attempt, wc_task_queue_hash c))
               else (c, None)))"

definition fail_activity_with_retry :: "f64_scale \<Rightarrow> engine \<Rightarrow> u64 \<Rightarrow> u32 \<Rightarrow> clock \<Rightarrow> engine \<times> bool" where
  "fail_activity_with_retry scale e key step t =
     (case with_ctx_mut e key None (next_attempt scale step) of
        (e, None) \<Rightarrow> (e, False)
      | (e, Some (attempt, delay, tq)) \<Rightarrow>
          if delay div 1000000 < 10
          then (enqueue_task tq (new_task ActivityTask key tq step 0 attempt) t e, True)
          else (e\<lparr>en_pending_retries := hm_insert (en_pending_retries e) key
                     (get_or (en_pending_retries e) key [] @ [(step, tq)]),
                  en_timers := fst (schedule (en_timers e) key delay (mono t))\<rparr>, True))"

definition retry_attempt :: "engine \<Rightarrow> u64 \<Rightarrow> u32 \<Rightarrow> u32" where
  "retry_attempt e key step =
     (case with_ctx e key (\<lambda>c. case c of None \<Rightarrow> None
             | Some c \<Rightarrow> map_option at_attempt (SlotMap_get (wc_activity_timeouts c) (ucast step))) of
        None \<Rightarrow> 1 | Some n \<Rightarrow> n)"

definition process_fired_timer :: "engine \<Rightarrow> u64 \<Rightarrow> clock \<Rightarrow> engine" where
  "process_fired_timer e key t =
     (let entries = get_or (en_pending_retries e) key [];
          e = e\<lparr>en_pending_retries := hm_remove (en_pending_retries e) key\<rparr>
      in fold (\<lambda>(step, tq) e. enqueue_task tq (new_task ActivityTask key tq step 0 (retry_attempt e key step)) t e)
           entries e)"

definition schedule_timer :: "engine \<Rightarrow> u64 \<Rightarrow> u64 \<Rightarrow> clock \<Rightarrow> engine \<times> u64" where
  "schedule_timer e key ms t =
     (case schedule (en_timers e) key (from_millis ms) (mono t) of (tm, i) \<Rightarrow> (e\<lparr>en_timers := tm\<rparr>, i))"

text \<open>A pass of the timer thread, with the callback that \<open>init_timers\<close> installs.\<close>

definition timer_pass :: "engine \<Rightarrow> clock \<Rightarrow> engine" where
  "timer_pass e t =
     (case tick (en_timers e) (mono t) of
        (tm, _, callbacks) \<Rightarrow>
          fold (\<lambda>(key, i). record_history key TimerFired (to_le_bytes i)) callbacks (e\<lparr>en_timers := tm\<rparr>))"

section \<open>Signals and updates\<close>

definition signal_workflow :: "engine \<Rightarrow> u64 \<Rightarrow> u64 \<Rightarrow> bytes \<Rightarrow> clock \<Rightarrow> engine" where
  "signal_workflow e key name payload t =
     (let e = log_event WalSignalReceived key (to_le_bytes name @ payload) e;
          e = update_ctx key (\<lambda>c. if wc_status c \<noteq> Running then c else Context_signal c name payload) e;
          tq = with_ctx e key (\<lambda>c. case c of None \<Rightarrow> 0 | Some c \<Rightarrow> wc_task_queue_hash c)
      in if tq > 0 then enqueue_task tq (new_task SignalTask key tq 0 name 1) t e else e)"

definition Engine_has_signal :: "engine \<Rightarrow> u64 \<Rightarrow> u64 \<Rightarrow> bool" where
  "Engine_has_signal e key name =
     with_ctx e key (\<lambda>c. case c of None \<Rightarrow> False | Some c \<Rightarrow> Context_has_signal c name)"

definition Engine_take_signal :: "engine \<Rightarrow> u64 \<Rightarrow> u64 \<Rightarrow> engine \<times> bytes option" where
  "Engine_take_signal e key name = with_ctx_mut e key None (\<lambda>c. Context_take_signal c name)"

definition update_workflow :: "engine \<Rightarrow> u64 \<Rightarrow> u64 \<Rightarrow> bytes \<Rightarrow> clock \<Rightarrow> engine" where
  "update_workflow e key name payload t =
     (case with_ctx_mut e key 0 (\<lambda>c. if wc_status c \<noteq> Running then (c, 0)
             else (Context_update c name payload, wc_task_queue_hash c)) of
        (e, tq) \<Rightarrow> if tq > 0 then enqueue_task tq (new_task SignalTask key tq 0 name 1) t e else e)"

definition Engine_has_update :: "engine \<Rightarrow> u64 \<Rightarrow> u64 \<Rightarrow> bool" where
  "Engine_has_update e key name =
     with_ctx e key (\<lambda>c. case c of None \<Rightarrow> False | Some c \<Rightarrow> Context_has_update c name)"

definition Engine_take_update :: "engine \<Rightarrow> u64 \<Rightarrow> u64 \<Rightarrow> engine \<times> bytes option" where
  "Engine_take_update e key name = with_ctx_mut e key None (\<lambda>c. Context_take_update c name)"

section \<open>Closing\<close>

definition archive_record_of :: "u64 \<Rightarrow> workflow_context \<Rightarrow> archive_record" where
  "archive_record_of key c =
     \<lparr>ar_workflow_key = key, ar_workflow_id = wc_workflow_id c, ar_run_id = wc_run_id c,
      ar_workflow_type_id = wc_workflow_type_id c, ar_namespace_id = wc_namespace_id c, ar_status = wc_status c,
      ar_input_data = input_data c, ar_result_data = result_data c, ar_step_count = sh_total_steps (wc_slab c),
      ar_step_results = fold (\<lambda>(k, v) m. hm_insert m (ucast k) v) (SlotMap_iter (step_results c)) [],
      ar_event_count = event_sequence c, ar_archived_at_ms = 0, ar_start_time_ms = 0, ar_close_time_ms = 0\<rparr>"

definition maybe_auto_archive :: "u64 \<Rightarrow> engine \<Rightarrow> engine" where
  "maybe_auto_archive key e =
     (if \<not> should_archive (en_archive_policy e) (get_status e key) then e
      else with_ctx e key (\<lambda>c. case c of None \<Rightarrow> e
        | Some c \<Rightarrow> e\<lparr>en_archive := fst (archive (en_archive e) (archive_record_of key c))\<rparr>))"

definition deployment_name :: "u64 \<Rightarrow> string" where
  "deployment_name tid = ''wf_type_'' @ decimal (unat tid)"

definition get_active_deployment_id :: "engine \<Rightarrow> string \<Rightarrow> u64 option" where
  "get_active_deployment_id e name = map_of (en_active_deployments e) name"

definition has_active_deployments :: "engine \<Rightarrow> bool" where
  "has_active_deployments e \<longleftrightarrow> en_active_deployments e \<noteq> []"

definition report_deployment :: "u64 \<Rightarrow> bool \<Rightarrow> engine \<Rightarrow> engine" where
  "report_deployment tid ok e =
     (case get_active_deployment_id e (deployment_name tid) of
        None \<Rightarrow> e | Some d \<Rightarrow> call_out (RecordExecution d ok 0) e)"

definition forget_dependencies :: "u64 \<Rightarrow> engine \<Rightarrow> engine" where
  "forget_dependencies key e = e\<lparr>en_graph := fst (remove_workflow (en_graph e) key)\<rparr>"

definition complete_workflow :: "engine \<Rightarrow> u64 \<Rightarrow> bytes option \<Rightarrow> clock \<Rightarrow> engine" where
  "complete_workflow e key result t =
     (let e = update_ctx key (\<lambda>c. Context_complete c result (mono t)) e;
          e = show_status key Completed (Some (epoch_ms t)) e;
          e = record_history key WorkflowCompleted [] e;
          e = call_out (IncCounter ''velocity_workflow_completed_total'') e;
          e = call_out (SetGauge ''velocity_workflows_running'' (int (Engine_workflow_count e))) e;
          tid = type_id_of e key;
          e = call_out (TrackCompletion tid 0) e;
          e = e\<lparr>en_breakers := Registry_record_success (en_breakers e) tid (epoch_ms t)\<rparr>;
          e = (if has_active_deployments e then report_deployment tid True e else e);
          e = forget_dependencies key e;
          e = call_out (UnregisterVersions key) e;
          e = log_event WalWorkflowCompleted key [] e
      in maybe_auto_archive key e)"

definition fail_workflow :: "engine \<Rightarrow> u64 \<Rightarrow> clock \<Rightarrow> engine" where
  "fail_workflow e key t =
     (let e = update_ctx key (\<lambda>c. Context_fail c (mono t)) e;
          e = show_status key Failed (Some (epoch_ms t)) e;
          e = record_history key WorkflowFailed [] e;
          e = call_out (IncCounter ''velocity_workflow_failed_total'') e;
          tid = type_id_of e key;
          e = report_deployment tid False e;
          e = call_out (TrackFailure tid) e;
          e = e\<lparr>en_breakers := Registry_record_failure (en_breakers e) tid (epoch_ms t) (epoch_ms t)\<rparr>;
          e = forget_dependencies key e;
          e = call_out (UnregisterVersions key) e;
          e = log_event WalWorkflowFailed key [] e
      in maybe_auto_archive key e)"

definition cancel_workflow :: "engine \<Rightarrow> u64 \<Rightarrow> clock \<Rightarrow> engine" where
  "cancel_workflow e key t =
     (let e = update_ctx key (\<lambda>c. Context_cancel c (mono t)) e;
          e = show_status key Canceled (Some (epoch_ms t)) e;
          e = record_history key WorkflowCanceled [] e;
          e = call_out (IncCounter ''velocity_workflow_canceled_total'') e;
          e = call_out (TrackCancellation (type_id_of e key)) e;
          e = forget_dependencies key e;
          e = call_out (UnregisterVersions key) e;
          e = log_event WalWorkflowCanceled key [] e
      in maybe_auto_archive key e)"

definition terminate_workflow :: "engine \<Rightarrow> u64 \<Rightarrow> clock \<Rightarrow> engine" where
  "terminate_workflow e key t =
     (let e = update_ctx key (\<lambda>c. Context_terminate c (mono t)) e;
          e = show_status key Terminated (Some (epoch_ms t)) e;
          e = record_history key WorkflowTerminated [] e;
          e = call_out (IncCounter ''velocity_workflow_terminated_total'') e;
          e = call_out (TrackTermination (type_id_of e key)) e;
          e = forget_dependencies key e;
          e = call_out (UnregisterVersions key) e;
          e = log_event WalWorkflowTerminated key [] e
      in maybe_auto_archive key e)"

definition purge_workflow :: "u64 \<Rightarrow> engine \<Rightarrow> engine" where
  "purge_workflow key e =
     e\<lparr>en_workflows := fst (WorkflowContextPool_remove (en_workflows e) key),
       en_visibility := vis_remove (en_visibility e) key,
       en_history := fst (remove_history (en_history e) key),
       en_archive := fst (archive_delete (en_archive e) key)\<rparr>"

definition purgeable :: "workflow_status \<Rightarrow> bool" where
  "purgeable s \<longleftrightarrow> s = Completed \<or> s = Failed \<or> s = Canceled \<or> s = Terminated \<or> s = TimedOut"

definition purge_completed :: "engine \<Rightarrow> engine \<times> nat" where
  "purge_completed e =
     (let keys = map vi_workflow_key (filter (\<lambda>i. purgeable (vi_status i)) (list_all_executions (en_visibility e)))
      in (fold purge_workflow keys e, length keys))"

text \<open>The retention period of a namespace, in milliseconds, where the registry knows it.\<close>

definition purge_expired_workflows :: "(u64 \<rightharpoonup> u64) \<Rightarrow> engine \<Rightarrow> clock \<Rightarrow> engine \<times> nat" where
  "purge_expired_workflows retention e t =
     (let expired = filter (\<lambda>i. purgeable (vi_status i)
            \<and> saturating_sub (epoch_ms t) (case vi_close_time_ms i of None \<Rightarrow> vi_start_time_ms i | Some ct \<Rightarrow> ct)
              > (case retention (vi_namespace_id i) of None \<Rightarrow> 604800000 | Some r \<Rightarrow> r))
            (list_all_executions (en_visibility e))
      in (e\<lparr>en_visibility := fold (\<lambda>i x. vis_remove x (vi_workflow_key i)) expired (en_visibility e)\<rparr>, length expired))"

section \<open>Children, timeouts and new runs\<close>

definition start_child_workflow ::
    "digest_fn \<Rightarrow> engine \<Rightarrow> u64 \<Rightarrow> u64 \<Rightarrow> u64 \<Rightarrow> u64 \<Rightarrow> u32 \<Rightarrow> bytes option \<Rightarrow> clock \<Rightarrow> engine \<times> u64" where
  "start_child_workflow sha e parent wid tid tq steps input t =
     (let ns = drop_bit 32 parent
      in case start_workflow sha e wid tid ns tq steps input t of
           (e, child) \<Rightarrow>
             let e = update_ctx parent (\<lambda>c. c\<lparr>child_keys := child_keys c @ [child]\<rparr>) e;
                 e = update_ctx child (\<lambda>c. c\<lparr>parent_key := Some parent\<rparr>) e;
                 e = e\<lparr>en_graph := add_dependency (en_graph e) parent child ParentChild
                        (Some (''child_workflow_id='' @ decimal (unat wid))) (epoch_ms t)\<rparr>
             in (e, child))"

definition apply_parent_close_policy :: "engine \<Rightarrow> u64 \<Rightarrow> parent_close_policy \<Rightarrow> clock \<Rightarrow> engine" where
  "apply_parent_close_policy e parent policy t =
     (let keys = with_ctx e parent (\<lambda>c. case c of None \<Rightarrow> [] | Some c \<Rightarrow> child_keys c)
      in if keys = [] then e
         else fold (\<lambda>child e. case policy of
                PTerminate \<Rightarrow> terminate_workflow e child t
              | PCancel \<Rightarrow> cancel_workflow e child t
              | PAbandon \<Rightarrow> e) keys e)"

text \<open>\<open>for_each\<close> hands out the active slots in order.\<close>

definition live_contexts :: "engine \<Rightarrow> (u64 \<times> workflow_context) list" where
  "live_contexts e = live pool_view (pool_zip (en_workflows e))"

definition check_activity_timeouts :: "engine \<Rightarrow> clock \<Rightarrow> (u64 \<times> u32 \<times> string) list" where
  "check_activity_timeouts e t =
     concat (map (\<lambda>(key, c). List.map_filter (\<lambda>(step, timeouts).
       map_option (\<lambda>kind. (key, ucast step, kind)) (check_timeouts timeouts (mono t)))
       (SlotMap_iter (wc_activity_timeouts c))) (live_contexts e))"

definition workflow_timed_out :: "instant \<Rightarrow> workflow_context \<Rightarrow> bool" where
  "workflow_timed_out now c \<longleftrightarrow> wc_status c = Running
     \<and> ((case workflow_execution_timeout c of None \<Rightarrow> False | Some d \<Rightarrow> now - start_time c > d)
        \<or> (case workflow_run_timeout c of None \<Rightarrow> False | Some d \<Rightarrow> now - start_time c > d))"

definition check_workflow_timeouts :: "engine \<Rightarrow> clock \<Rightarrow> engine \<times> u32" where
  "check_workflow_timeouts e t =
     (let keys = map fst (filter (\<lambda>(key, c). workflow_timed_out (mono t) c) (live_contexts e))
      in (fold (\<lambda>key e. terminate_workflow e key t) keys e, word_of_nat (length keys)))"

definition set_workflow_execution_timeout :: "engine \<Rightarrow> u64 \<Rightarrow> u64 \<Rightarrow> engine" where
  "set_workflow_execution_timeout e key ms =
     update_ctx key (\<lambda>c. c\<lparr>workflow_execution_timeout := optional_millis ms\<rparr>) e"

definition clear_steps_from :: "u64 \<Rightarrow> slab_header \<Rightarrow> slab_header" where
  "clear_steps_from n h =
     h\<lparr>sh_step_bitmask := fold (\<lambda>i m. fst (clear_step m i)) [unat n..<unat (sh_total_steps h)] (sh_step_bitmask h)\<rparr>"

definition reset_workflow :: "engine \<Rightarrow> u64 \<Rightarrow> u64 \<Rightarrow> engine \<times> bool" where
  "reset_workflow e key event =
     (case with_ctx_mut e key False (\<lambda>c.
         if wc_status c \<noteq> Running \<and> wc_status c \<noteq> Failed then (c, False)
         else (c\<lparr>step_results := SlotMap_retain (step_results c) (\<lambda>step v. (v, step < event)),
                 wc_slab := clear_steps_from event (wc_slab c), wc_status := Running, close_time := None\<rparr>, True)) of
        (e, False) \<Rightarrow> (e, False)
      | (e, True) \<Rightarrow>
          (record_history key WorkflowReset [] (show_status key Running None (call_out (CreateResetPoint key event) e)), True))"

definition signal_with_start ::
    "digest_fn \<Rightarrow> engine \<Rightarrow> u64 \<Rightarrow> u64 \<Rightarrow> u64 \<Rightarrow> u64 \<Rightarrow> u32 \<Rightarrow> u64 \<Rightarrow> bytes \<Rightarrow> clock \<Rightarrow> engine \<times> u64 \<times> bool" where
  "signal_with_start sha e wid tid ns tq steps name payload t =
     (let key = workflow_key_of ns wid
      in if get_status e key = Running then (signal_workflow e key name payload t, key, False)
         else case start_workflow sha e wid tid ns tq steps None t of
                (e, key) \<Rightarrow> (signal_workflow e key name payload t, key, True))"

definition continue_as_new :: "digest_fn \<Rightarrow> engine \<Rightarrow> u64 \<Rightarrow> bytes option \<Rightarrow> clock \<Rightarrow> engine \<times> u64" where
  "continue_as_new sha e key input t =
     (case with_ctx e key (\<lambda>c. case c of None \<Rightarrow> (0, 0, 0, 0, 0)
          | Some c \<Rightarrow> (wc_workflow_id c, wc_workflow_type_id c, wc_namespace_id c, wc_task_queue_hash c,
                       sh_total_steps (wc_slab c))) of
        (wid, tid, ns, tq, steps) \<Rightarrow>
          if wid = 0 \<and> tid = 0 \<and> ns = 0 then (e, 0)
          else let e = update_ctx key (\<lambda>c. c\<lparr>wc_status := WContinuedAsNew, close_time := Some (mono t)\<rparr>) e;
                   e = show_status key WContinuedAsNew (Some (epoch_ms t)) e;
                   e = record_history key WorkflowContinuedAsNew [] e;
                   rid = en_next_run_id e;
                   e = e\<lparr>en_next_run_id := en_next_run_id e + 1\<rparr>;
                   new_key = workflow_key_of ns rid;
                   ctx = started_context sha rid rid tid ns tq steps input t;
                   e = enqueue_task tq (new_task WorkflowTask new_key tq 0 0 1) t e;
                   e = e\<lparr>en_workflows := fst (WorkflowContextPool_insert (en_workflows e) new_key ctx)\<rparr>;
                   e = e\<lparr>en_visibility := vis_register (en_visibility e)
                          \<lparr>vi_workflow_key = new_key, vi_workflow_id = rid, vi_run_id = rid, vi_workflow_type_id = tid,
                           vi_namespace_id = ns, vi_status = Running, vi_start_time_ms = 0,
                           vi_close_time_ms = None, vi_task_queue_hash = tq, vi_search_attributes = [], vi_memo = []\<rparr>\<rparr>
               in (record_history new_key WorkflowStarted [] e, new_key))"

definition register_cron ::
    "engine \<Rightarrow> string \<Rightarrow> u64 \<Rightarrow> u64 \<Rightarrow> u64 \<Rightarrow> u32 \<Rightarrow> u64 \<Rightarrow> (cron_error + engine \<times> u64) option" where
  "register_cron e expression tid ns tq steps now =
     try_then (cron_register (en_cron e) expression tid ns tq steps now) (\<lambda>(s, i). Some (Inr (e\<lparr>en_cron := s\<rparr>, i)))"

definition process_cron_fires :: "digest_fn \<Rightarrow> engine \<Rightarrow> u64 \<Rightarrow> clock \<Rightarrow> engine \<times> u64 list" where
  "process_cron_fires sha e now t =
     (case advance_to (en_cron e) now of
        (s, fires) \<Rightarrow>
          fold (\<lambda>f (e, keys).
            case start_workflow sha e (cf_workflow_type_id f) (cf_workflow_type_id f) (cf_namespace_id f) (cf_task_queue_hash f)
                   (cf_total_steps f) None t of
              (e, key) \<Rightarrow> (e, keys @ [key])) fires (e\<lparr>en_cron := s\<rparr>, []))"

definition Engine_shutdown :: "engine \<Rightarrow> engine" where
  "Engine_shutdown e = e\<lparr>en_task_queue := shutdown (en_task_queue e), en_timers := timer_shutdown (en_timers e)\<rparr>"

end
