(* ===== verification/Engine_Facts.thy ===== *)
theory Engine_Facts
  imports Engine
begin

text \<open>
  How the engine's handlers act on the map of workflow contexts and on the log: frame rules for
  the calls they share, and one equation per handler.  The map is that of the context pool, which
  is exact while no two live keys share a bucket.
\<close>

section \<open>The pool as a map\<close>

lemma pool_fits_self:
  assumes "ctx_pool_wf p" and "k \<in> dom (pool_map p)"
  shows "pool_fits (dom (pool_map p)) k"
proof -
  obtain i where i: "slot_holds p i k" using assms dom_pool_map by blast
  show ?thesis
    unfolding pool_fits_def
  proof (intro ballI impI)
    fix k' assume "k' \<in> dom (pool_map p)" "bucket k' = bucket k"
    then obtain j where "slot_holds p j k'" using assms(1) dom_pool_map by blast
    then show "k' = k" using slot_holds_inj(2) [OF assms(1) _ i] \<open>bucket k' = bucket k\<close> by blast
  qed
qed

lemma with_mut_None:
  "ctx_pool_wf p \<Longrightarrow> pool_map p k = None \<Longrightarrow> WorkflowContextPool_with_mut p k none f = (p, none)"
  using find_key_slot_None [of p k] by (simp add: WorkflowContextPool_with_mut_def domIff)

lemma with_mut_Some:
  assumes wf: "ctx_pool_wf p" and c: "pool_map p k = Some c"
  shows "WorkflowContextPool_with_mut p k none f = (fst (WorkflowContextPool_insert p k (fst (f c))), snd (f c))"
proof -
  obtain i where i: "find_key_slot p k = Some i"
    using find_key_slot_None [OF wf, of k] c by (cases "find_key_slot p k") auto
  moreover have "cp_contexts p ! i = Some c" using find_key_slot_SomeD(2) [OF wf i] c by simp
  ultimately show ?thesis
    by (simp add: WorkflowContextPool_with_mut_def WorkflowContextPool_insert_def)
qed

lemma with_mut_spec:
  assumes wf: "ctx_pool_wf p"
  shows "ctx_pool_wf (fst (WorkflowContextPool_with_mut p k none f))"
    and "pool_map (fst (WorkflowContextPool_with_mut p k none f)) =
      (pool_map p)(k := map_option (\<lambda>c. fst (f c)) (pool_map p k))"
    and "snd (WorkflowContextPool_with_mut p k none f) = (case pool_map p k of None \<Rightarrow> none | Some c \<Rightarrow> snd (f c))"
proof -
  have fits: "pool_fits (dom (pool_map p)) k" if "pool_map p k = Some c" for c
    using pool_fits_self [OF wf] that by blast
  show "ctx_pool_wf (fst (WorkflowContextPool_with_mut p k none f))"
    "pool_map (fst (WorkflowContextPool_with_mut p k none f)) =
      (pool_map p)(k := map_option (\<lambda>c. fst (f c)) (pool_map p k))"
    "snd (WorkflowContextPool_with_mut p k none f) = (case pool_map p k of None \<Rightarrow> none | Some c \<Rightarrow> snd (f c))"
    using wf by (cases "pool_map p k";
        simp add: with_mut_None with_mut_Some pool_insert_spec [OF wf fits] fun_upd_idem)+
qed

lemma insert_if_absent_spec:
  assumes wf: "ctx_pool_wf p" and fits: "pool_fits (dom (pool_map p)) k"
  shows "ctx_pool_wf (fst (insert_if_absent p k c))"
    and "pool_map (fst (insert_if_absent p k c)) = (pool_map p)(k \<mapsto> (case pool_map p k of None \<Rightarrow> c | Some d \<Rightarrow> d))"
    and "snd (insert_if_absent p k c) \<longleftrightarrow> pool_map p k = None"
proof -
  have "ctx_pool_wf (fst (insert_if_absent p k c))
      \<and> pool_map (fst (insert_if_absent p k c)) = (pool_map p)(k \<mapsto> (case pool_map p k of None \<Rightarrow> c | Some d \<Rightarrow> d))
      \<and> (snd (insert_if_absent p k c) \<longleftrightarrow> pool_map p k = None)"
  proof (cases "find_key_slot p k")
    case None
    then have k: "k \<notin> dom (pool_map p)" using find_key_slot_None [OF wf] by simp
    have "insert_if_absent p k c = (fst (WorkflowContextPool_insert p k c), True)"
      using pool_has_room [OF wf k fits] by (simp add: insert_if_absent_def WorkflowContextPool_insert_def None)
    then show ?thesis using pool_insert_spec [OF wf fits] k by (simp add: domIff)
  next
    case (Some i)
    then have "pool_map p k \<noteq> None" using find_key_slot_None [OF wf, of k] by auto
    then show ?thesis using wf Some by (auto simp: insert_if_absent_def)
  qed
  then show "ctx_pool_wf (fst (insert_if_absent p k c))"
    "pool_map (fst (insert_if_absent p k c)) = (pool_map p)(k \<mapsto> (case pool_map p k of None \<Rightarrow> c | Some d \<Rightarrow> d))"
    "snd (insert_if_absent p k c) \<longleftrightarrow> pool_map p k = None" by blast+
qed

section \<open>Contexts\<close>

abbreviation contexts :: "engine \<Rightarrow> u64 \<rightharpoonup> workflow_context" where
  "contexts e \<equiv> pool_map (en_workflows e)"

abbreviation engine_ok :: "engine \<Rightarrow> bool" where
  "engine_ok e \<equiv> ctx_pool_wf (en_workflows e)"

lemma with_ctx_eq: "engine_ok e \<Longrightarrow> with_ctx e k f = f (contexts e k)"
  by (simp add: with_ctx_def with_pool_map)

lemma with_ctx_mut_spec:
  assumes "engine_ok e"
  shows "engine_ok (fst (with_ctx_mut e k none f))"
    and "contexts (fst (with_ctx_mut e k none f)) = (contexts e)(k := map_option (\<lambda>c. fst (f c)) (contexts e k))"
    and "snd (with_ctx_mut e k none f) = (case contexts e k of None \<Rightarrow> none | Some c \<Rightarrow> snd (f c))"
  using with_mut_spec [OF assms, of k none f] by (simp_all add: with_ctx_mut_def case_prod_beta)

lemma with_ctx_mut_frame:
  "en_task_queue (fst (with_ctx_mut e k none f)) = en_task_queue e"
  "en_timers (fst (with_ctx_mut e k none f)) = en_timers e"
  "en_wal (fst (with_ctx_mut e k none f)) = en_wal e"
  "en_visibility (fst (with_ctx_mut e k none f)) = en_visibility e"
  "en_archive (fst (with_ctx_mut e k none f)) = en_archive e"
  "en_archive_policy (fst (with_ctx_mut e k none f)) = en_archive_policy e"
  "en_next_run_id (fst (with_ctx_mut e k none f)) = en_next_run_id e"
  "en_history (fst (with_ctx_mut e k none f)) = en_history e"
  "en_pending_retries (fst (with_ctx_mut e k none f)) = en_pending_retries e"
  "en_graph (fst (with_ctx_mut e k none f)) = en_graph e"
  "en_breakers (fst (with_ctx_mut e k none f)) = en_breakers e"
  "en_active_deployments (fst (with_ctx_mut e k none f)) = en_active_deployments e"
  "en_durability (fst (with_ctx_mut e k none f)) = en_durability e"
  "en_steps_since_sync (fst (with_ctx_mut e k none f)) = en_steps_since_sync e"
  "en_last_sync (fst (with_ctx_mut e k none f)) = en_last_sync e"
  by (simp_all add: with_ctx_mut_def case_prod_beta)

lemma workflows_frame:
  "en_workflows (call_out c e) = en_workflows e"
  "en_workflows (log_event typ k d e) = en_workflows e"
  "en_workflows (sync_wal e) = en_workflows e"
  "en_workflows (enqueue_task tq task t e) = en_workflows e"
  "en_workflows (record_history k ty d e) = en_workflows e"
  "en_workflows (show_status k s ct e) = en_workflows e"
  "en_workflows (forget_dependencies k e) = en_workflows e"
  "en_workflows (report_deployment tid ok e) = en_workflows e"
  "en_workflows (maybe_auto_archive k e) = en_workflows e"
  by (simp_all add: call_out_def log_event_def sync_wal_def enqueue_task_def record_history_def show_status_def
      forget_dependencies_def report_deployment_def maybe_auto_archive_def with_ctx_def WorkflowContextPool_with_def
      split: option.split)

lemma wal_frame:
  "en_wal (call_out c e) = en_wal e"
  "en_wal (enqueue_task tq task t e) = en_wal e"
  "en_wal (record_history k ty d e) = en_wal e"
  "en_wal (show_status k s ct e) = en_wal e"
  "en_wal (forget_dependencies k e) = en_wal e"
  "en_wal (report_deployment tid ok e) = en_wal e"
  "en_wal (maybe_auto_archive k e) = en_wal e"
  by (simp_all add: call_out_def enqueue_task_def record_history_def show_status_def
      forget_dependencies_def report_deployment_def maybe_auto_archive_def with_ctx_def WorkflowContextPool_with_def
      split: option.split)

lemmas engine_frame [simp] = with_ctx_mut_frame workflows_frame wal_frame

section \<open>The handlers on the contexts\<close>

text \<open>A handler that changes at most the context of one key, and how.\<close>

definition changes_ctx :: "engine \<Rightarrow> engine \<Rightarrow> u64 \<Rightarrow> (workflow_context \<Rightarrow> workflow_context) \<Rightarrow> bool" where
  "changes_ctx e e' k f \<longleftrightarrow> engine_ok e' \<and> contexts e' = (contexts e)(k := map_option f (contexts e k))"

lemma changes_ctx_id: "engine_ok e \<Longrightarrow> en_workflows e' = en_workflows e \<Longrightarrow> changes_ctx e e' k (\<lambda>c. c)"
  by (auto simp: changes_ctx_def option.map_ident)

lemma start_workflow_pool:
  "en_workflows (fst (start_workflow_with_attrs sha e wid tid ns tq steps input attrs t)) =
     fst (WorkflowContextPool_insert (en_workflows e) (workflow_key_of ns wid)
       (started_context sha wid (en_next_run_id e) tid ns tq steps input t))"
  "snd (start_workflow_with_attrs sha e wid tid ns tq steps input attrs t) = workflow_key_of ns wid"
  by (simp_all add: start_workflow_with_attrs_def Let_def)

lemma start_workflow_contexts:
  assumes "engine_ok e" and "pool_fits (dom (contexts e)) (workflow_key_of ns wid)"
  shows "engine_ok (fst (start_workflow_with_attrs sha e wid tid ns tq steps input attrs t))"
    and "contexts (fst (start_workflow_with_attrs sha e wid tid ns tq steps input attrs t)) =
      (contexts e)(workflow_key_of ns wid \<mapsto> started_context sha wid (en_next_run_id e) tid ns tq steps input t)"
  unfolding start_workflow_pool using pool_insert_spec [OF assms] by simp_all

lemma complete_in_context_contexts:
  assumes "engine_ok e"
  shows "changes_ctx e (fst (complete_in_context sha e key step result)) key (\<lambda>c. Context_complete_step sha c step result)"
    and "snd (complete_in_context sha e key step result) =
      map_option (\<lambda>c. let c = Context_complete_step sha c step result in (wc_task_queue_hash c, sh_merkle_root (wc_slab c)))
        (contexts e key)"
  by (simp_all add: complete_in_context_def changes_ctx_def with_ctx_mut_spec [OF assms] Let_def split: option.split)

lemma complete_in_context_cases:
  "(case complete_in_context sha e key step result of (e, None) \<Rightarrow> g e | (e, Some (tq, root)) \<Rightarrow> h e tq root) =
   (let r = complete_in_context sha e key step result
    in case snd r of None \<Rightarrow> g (fst r) | Some (tq, root) \<Rightarrow> h (fst r) tq root)"
  by (simp add: Let_def case_prod_beta split: option.split)

lemma Engine_complete_step_contexts:
  assumes "engine_ok e"
  shows "changes_ctx e (Engine_complete_step sha e key step result t) key (\<lambda>c. Context_complete_step sha c step result)"
  using complete_in_context_contexts(1) [of "log_event WalStepCompleted key (step_record step result) e" sha key step result] assms
  by (auto simp: Engine_complete_step_def Let_def complete_in_context_cases changes_ctx_def split: option.split)

lemma complete_step_sync_contexts:
  assumes "engine_ok e"
  shows "changes_ctx e (complete_step_sync sha e key step result t) key (\<lambda>c. Context_complete_step sha c step result)"
  using complete_in_context_contexts(1) [of "sync_wal (log_event WalStepCompleted key (step_record step result) e)" sha key step result] assms
  by (auto simp: complete_step_sync_def Let_def complete_in_context_cases changes_ctx_def split: option.split)

lemma complete_step_durable_contexts:
  assumes "engine_ok e"
  shows "changes_ctx e (complete_step_durable sha e key step result t) key (\<lambda>c. Context_complete_step sha c step result)"
  using complete_in_context_contexts(1) [of "sync_wal (log_event WalStepCompleted key (step_record step result) e)" sha key step result]
    complete_in_context_contexts(1) [of "log_event WalStepCompleted key (step_record step result) e" sha key step result] assms
  by (auto simp: complete_step_durable_def Let_def complete_in_context_cases changes_ctx_def split: option.split)

lemma signal_workflow_contexts:
  assumes "engine_ok e"
  shows "changes_ctx e (signal_workflow e key name payload t) key
    (\<lambda>c. if wc_status c \<noteq> Running then c else Context_signal c name payload)"
  using with_ctx_mut_spec [of "log_event WalSignalReceived key (to_le_bytes name @ payload) e" key "()"] assms
  by (simp add: signal_workflow_def Let_def changes_ctx_def)

lemma complete_workflow_contexts:
  "engine_ok e \<Longrightarrow> changes_ctx e (complete_workflow e key result t) key (\<lambda>c. Context_complete c result (mono t))"
  by (simp add: complete_workflow_def Let_def changes_ctx_def with_ctx_mut_spec)

lemma fail_workflow_contexts:
  "engine_ok e \<Longrightarrow> changes_ctx e (fail_workflow e key t) key (\<lambda>c. Context_fail c (mono t))"
  by (simp add: fail_workflow_def Let_def changes_ctx_def with_ctx_mut_spec)

lemma cancel_workflow_contexts:
  "engine_ok e \<Longrightarrow> changes_ctx e (cancel_workflow e key t) key (\<lambda>c. Context_cancel c (mono t))"
  by (simp add: cancel_workflow_def Let_def changes_ctx_def with_ctx_mut_spec)

lemma terminate_workflow_contexts:
  "engine_ok e \<Longrightarrow> changes_ctx e (terminate_workflow e key t) key (\<lambda>c. Context_terminate c (mono t))"
  by (simp add: terminate_workflow_def Let_def changes_ctx_def with_ctx_mut_spec)

lemmas closing_contexts = complete_workflow_contexts fail_workflow_contexts cancel_workflow_contexts
  terminate_workflow_contexts

section \<open>The handlers on the log\<close>

text \<open>The log of an engine holds a list of records, spread over its files.\<close>

definition logged :: "u64 \<Rightarrow> nat \<Rightarrow> wal_record list \<Rightarrow> engine \<Rightarrow> bool" where
  "logged limit n rs e \<longleftrightarrow> (\<exists>w. en_wal e = Some w \<and> wm_max_file_size w = limit \<and> wm_retain_count w = n
     \<and> manager_holds w (wal_segments limit rs))"

lemma wal_segments_snoc: "wal_segments limit (rs @ [r]) = add_to_segments limit r (wal_segments limit rs)"
  by (simp add: wal_segments_def)

lemma logged_log_event:
  "logged limit n rs e \<Longrightarrow> logged limit n (rs @ [WalRecord_new typ key data]) (log_event typ key data e)"
  using append_holds by (force simp: logged_def log_event_def wal_segments_snoc)

lemma manager_holds_sync: "manager_holds (WalManager_sync w) segs \<longleftrightarrow> manager_holds w segs"
  by (simp add: manager_holds_def WalManager_sync_def)

lemma logged_sync_wal: "logged limit n rs e \<Longrightarrow> logged limit n rs (sync_wal e)"
  by (auto simp: logged_def sync_wal_def manager_holds_sync) (auto simp: WalManager_sync_def)

lemma logged_frame: "en_wal e' = en_wal e \<Longrightarrow> logged limit n rs e' \<longleftrightarrow> logged limit n rs e"
  by (simp add: logged_def)

lemma log_event_cong: "en_wal e' = en_wal e \<Longrightarrow> en_wal (log_event typ key d e') = en_wal (log_event typ key d e)"
  by (simp add: log_event_def split: option.split)

lemma start_workflow_wal:
  "en_wal (fst (start_workflow_with_attrs sha e wid tid ns tq steps input attrs t)) =
     en_wal (log_event WalWorkflowStarted (workflow_key_of ns wid) (start_record wid tid ns tq steps) e)"
  unfolding start_workflow_with_attrs_def Let_def fst_conv by (rule log_event_cong) simp

lemma logged_start:
  assumes "logged limit n rs e"
  shows "logged limit n (rs @ [WalRecord_new WalWorkflowStarted (workflow_key_of ns wid) (start_record wid tid ns tq steps)])
    (fst (start_workflow_with_attrs sha e wid tid ns tq steps input attrs t))"
  using logged_log_event [OF assms] logged_frame [OF start_workflow_wal] by blast

lemma wal_complete_in_context [simp]: "en_wal (fst (complete_in_context sha e key step result)) = en_wal e"
  by (simp add: complete_in_context_def)

lemma logged_complete_step:
  assumes "logged limit n rs e"
  shows "logged limit n (rs @ [WalRecord_new WalStepCompleted key (step_record step result)])
    (Engine_complete_step sha e key step result t)"
proof -
  have "en_wal (Engine_complete_step sha e key step result t) =
      en_wal (log_event WalStepCompleted key (step_record step result) e)"
    by (simp add: Engine_complete_step_def Let_def complete_in_context_cases split: option.split)
  then show ?thesis using logged_frame logged_log_event [OF assms] by metis
qed

lemma logged_complete_step_sync:
  assumes "logged limit n rs e"
  shows "logged limit n (rs @ [WalRecord_new WalStepCompleted key (step_record step result)])
    (complete_step_sync sha e key step result t)"
proof -
  have "en_wal (complete_step_sync sha e key step result t) =
      en_wal (sync_wal (log_event WalStepCompleted key (step_record step result) e))"
    by (simp add: complete_step_sync_def Let_def complete_in_context_cases split: option.split)
  then show ?thesis using logged_frame logged_sync_wal [OF logged_log_event [OF assms]] by metis
qed

lemma wal_sync_wal: "en_wal (sync_wal e) = map_option WalManager_sync (en_wal e)"
  by (simp add: sync_wal_def split: option.split)

lemma complete_step_durable_wal:
  "en_wal (complete_step_durable sha e key step result t) =
     en_wal (log_event WalStepCompleted key (step_record step result) e)
   \<or> en_wal (complete_step_durable sha e key step result t) =
     en_wal (sync_wal (log_event WalStepCompleted key (step_record step result) e))"
  by (auto simp: complete_step_durable_def Let_def complete_in_context_cases wal_sync_wal split: option.split)

lemma logged_complete_step_durable:
  assumes "logged limit n rs e"
  shows "logged limit n (rs @ [WalRecord_new WalStepCompleted key (step_record step result)])
    (complete_step_durable sha e key step result t)"
  using complete_step_durable_wal [of sha e key step result t] logged_log_event [OF assms]
    logged_sync_wal [OF logged_log_event [OF assms]] logged_frame by metis

lemma logged_signal:
  assumes "logged limit n rs e"
  shows "logged limit n (rs @ [WalRecord_new WalSignalReceived key (to_le_bytes name @ payload)])
    (signal_workflow e key name payload t)"
proof -
  have "en_wal (signal_workflow e key name payload t) = en_wal (log_event WalSignalReceived key (to_le_bytes name @ payload) e)"
    by (simp add: signal_workflow_def Let_def)
  then show ?thesis using logged_frame logged_log_event [OF assms] by metis
qed

lemma closing_wal:
  "en_wal (complete_workflow e key result t) = en_wal (log_event WalWorkflowCompleted key [] e)"
  "en_wal (fail_workflow e key t) = en_wal (log_event WalWorkflowFailed key [] e)"
  "en_wal (cancel_workflow e key t) = en_wal (log_event WalWorkflowCanceled key [] e)"
  "en_wal (terminate_workflow e key t) = en_wal (log_event WalWorkflowTerminated key [] e)"
  unfolding complete_workflow_def fail_workflow_def cancel_workflow_def terminate_workflow_def Let_def wal_frame
  by (rule log_event_cong, simp)+

lemma logged_closing:
  assumes "logged limit n rs e"
  shows "logged limit n (rs @ [WalRecord_new WalWorkflowCompleted key []]) (complete_workflow e key result t)"
    and "logged limit n (rs @ [WalRecord_new WalWorkflowFailed key []]) (fail_workflow e key t)"
    and "logged limit n (rs @ [WalRecord_new WalWorkflowCanceled key []]) (cancel_workflow e key t)"
    and "logged limit n (rs @ [WalRecord_new WalWorkflowTerminated key []]) (terminate_workflow e key t)"
  by (simp_all only: logged_frame [OF closing_wal(1)] logged_frame [OF closing_wal(2)]
      logged_frame [OF closing_wal(3)] logged_frame [OF closing_wal(4)] logged_log_event [OF assms])

lemma logged_replay:
  assumes "logged limit n rs e" and "list_all encodable rs" and "length (wal_segments limit rs) \<le> Suc n"
    and "en_wal e = Some w"
  shows "replay_all w = Inr rs"
proof -
  have w: "manager_holds w (wal_segments limit rs)" "wm_retain_count w = n"
    using assms(1,4) by (auto simp: logged_def)
  have "replay_all w = Inr (concat (last_n (Suc n) (wal_segments limit rs)))"
    using replay_all_holds [OF w(1) segments_encodable [OF assms(2)]] w(2) by simp
  also have "\<dots> = Inr rs"
    using assms(3) concat_wal_segments [of "[[]]" limit rs] by (simp add: last_n_all wal_segments_def)
  finally show ?thesis .
qed

section \<open>New engines, and one with a workflow in it\<close>

lemma new_engine_ok [simp]:
  "engine_ok (WorkflowEngine_new t)" "engine_ok (WorkflowEngine_with_wal found rotated limit t)"
  by (simp_all add: WorkflowEngine_new_def WorkflowEngine_with_wal_def ctx_pool_wf_new)

lemma new_engine_contexts [simp]:
  "contexts (WorkflowEngine_new t) = Map.empty" "contexts (WorkflowEngine_with_wal found rotated limit t) = Map.empty"
  by (simp_all add: WorkflowEngine_new_def WorkflowEngine_with_wal_def)

definition sample_clock :: clock where
  "sample_clock = \<lparr>mono = 1, epoch_ms = 1\<rparr>"

definition sample_engine :: engine where
  "sample_engine = Engine_complete_step (\<lambda>_. []) (fst (start_workflow_with_attrs (\<lambda>_. [])
     (WorkflowEngine_with_wal None [] 1000 sample_clock) 7 1 0 5 2 None [] sample_clock)) 7 0 [1] sample_clock"

definition sample_context :: workflow_context where
  "sample_context = Context_complete_step (\<lambda>_. []) (started_context (\<lambda>_. []) 7 1 1 0 5 2 None sample_clock) 0 [1]"

lemma sample_contexts: "engine_ok sample_engine" "contexts sample_engine = [7 \<mapsto> sample_context]" "en_next_run_id sample_engine = 2"
proof -
  let ?e0 = "WorkflowEngine_with_wal None [] 1000 sample_clock"
  let ?e1 = "fst (start_workflow_with_attrs (\<lambda>_. []) ?e0 7 1 0 5 2 None [] sample_clock)"
  have key: "workflow_key_of 0 7 = 7" by (simp add: workflow_key_of_def)
  have e1: "engine_ok ?e1" "contexts ?e1 = [7 \<mapsto> started_context (\<lambda>_. []) 7 1 1 0 5 2 None sample_clock]"
    using start_workflow_contexts [of ?e0 0 7 "\<lambda>_. []" 1 5 2 None "[]" sample_clock]
    by (simp_all add: key pool_fits_def) (simp add: WorkflowEngine_with_wal_def WorkflowEngine_new_def)
  note e = sample_engine_def
  show "engine_ok sample_engine" "contexts sample_engine = [7 \<mapsto> sample_context]"
    using Engine_complete_step_contexts [OF e1(1), of "\<lambda>_. []" 7 0 "[1]" sample_clock] e1(2)
    by (simp_all add: changes_ctx_def e sample_context_def)
  have "en_next_run_id (log_event ty k d x) = en_next_run_id x" "en_next_run_id (record_history k hty d x) = en_next_run_id x"
    "en_next_run_id (call_out oc x) = en_next_run_id x" "en_next_run_id (enqueue_task tq task t x) = en_next_run_id x"
    "en_next_run_id (fst (complete_in_context sha x k s r)) = en_next_run_id x" for ty k d x hty oc tq task t sha s r
    by (simp_all add: log_event_def record_history_def call_out_def enqueue_task_def complete_in_context_def split: option.split)
  note frame = this
  have "en_next_run_id ?e1 = 2"
    by (simp add: start_workflow_with_attrs_def Let_def frame WorkflowEngine_with_wal_def WorkflowEngine_new_def)
  then show "en_next_run_id sample_engine = 2"
    by (simp add: e Engine_complete_step_def Let_def complete_in_context_cases frame split: option.split)
qed

end
