(* ===== verification/Replay.thy ===== *)
theory Replay
  imports Workflow_Context Event_History
begin

text \<open>
  The replay engine of \<open>replay.rs\<close>: it folds a workflow's event history into a summary of its
  state, and rebuilds a context from the summary.  The engine calls it after crash recovery.
\<close>

section \<open>Summaries\<close>

datatype replay_activity_status = ActScheduled | ActStarted | ActCompleted | ActFailed | ActTimedOut

datatype replay_timer_status = TmStarted | TmFired | TmCanceled

datatype replay_child_status = ChStarted | ChCompleted | ChFailed

record replay_activity_state =
  ra_step_index :: u32
  ra_activity_name_id :: u64
  ra_status :: replay_activity_status
  ra_result :: "bytes option"

record replay_timer_state =
  rt_timer_id :: u64
  rt_started_at_event_id :: u64
  rt_status :: replay_timer_status
  rt_fired_at_event_id :: "u64 option"

record replay_child_state =
  rc_child_workflow_key :: u64
  rc_status :: replay_child_status
  rc_result :: "bytes option"

record replay_result =
  rr_workflow_key :: u64
  rr_replayed_to_event_id :: u64
  rr_total_events :: nat
  rr_events_replayed :: nat
  rr_status :: workflow_status
  rr_step_results :: "(u32, bytes) hash_map"
  rr_pending_signals :: "(u64, bytes list) hash_map"
  rr_activity_states :: "replay_activity_state list"
  rr_timer_states :: "replay_timer_state list"
  rr_child_states :: "replay_child_state list"
  rr_determinism_checksum :: u64
  rr_success :: bool
  rr_error :: "string option"

record replay_engine =
  re_replay_cache :: "(u64, replay_result) hash_map"
  re_max_replay_events :: nat
  re_total_replays :: u64

definition ReplayEngine_with_max_events :: "nat \<Rightarrow> replay_engine" where
  "ReplayEngine_with_max_events n = \<lparr>re_replay_cache = [], re_max_replay_events = n, re_total_replays = 0\<rparr>"

definition ReplayEngine_new :: replay_engine where
  "ReplayEngine_new = ReplayEngine_with_max_events 100000"

section \<open>Replaying\<close>

fun history_event_code :: "history_event_type \<Rightarrow> u64" where
  "history_event_code WorkflowStarted = 1"
| "history_event_code WorkflowCompleted = 2"
| "history_event_code WorkflowFailed = 3"
| "history_event_code WorkflowCanceled = 4"
| "history_event_code WorkflowTerminated = 5"
| "history_event_code WorkflowTimedOut = 6"
| "history_event_code WorkflowContinuedAsNew = 7"
| "history_event_code StepCompleted = 10"
| "history_event_code ActivityScheduled = 20"
| "history_event_code ActivityStarted = 21"
| "history_event_code ActivityCompleted = 22"
| "history_event_code ActivityFailed = 23"
| "history_event_code ActivityTimedOut = 24"
| "history_event_code SignalReceived = 30"
| "history_event_code UpdateReceived = 31"
| "history_event_code QueryReceived = 32"
| "history_event_code TimerStarted = 40"
| "history_event_code TimerFired = 41"
| "history_event_code TimerCanceled = 42"
| "history_event_code ChildWorkflowStarted = 50"
| "history_event_code ChildWorkflowCompleted = 51"
| "history_event_code ChildWorkflowFailed = 52"
| "history_event_code MarkerRecorded = 60"
| "history_event_code WorkflowReset = 70"

definition fnv_mix :: "u64 \<Rightarrow> u64 \<Rightarrow> u64" where
  "fnv_mix x c = (c XOR x) * 0x100000001b3"

definition checksum_event :: "history_event \<Rightarrow> u64 \<Rightarrow> u64" where
  "checksum_event ev = fnv_mix (word_of_nat (length (he_payload ev))) \<circ> fnv_mix (event_id ev)
     \<circ> fnv_mix (history_event_code (event_type ev))"

text \<open>The last element with a property, which \<open>iter_mut().rev().find\<close> hands out, is changed.\<close>

definition update_last :: "('a \<Rightarrow> bool) \<Rightarrow> ('a \<Rightarrow> 'a) \<Rightarrow> 'a list \<Rightarrow> 'a list" where
  "update_last P f xs =
     (case position P (rev xs) of
        None \<Rightarrow> xs
      | Some i \<Rightarrow> rev ((rev xs)[i := f (rev xs ! i)]))"

definition tail_option :: "nat \<Rightarrow> bytes \<Rightarrow> bytes option" where
  "tail_option n p = (if length p > n then Some (drop n p) else None)"

definition replay_event :: "history_event \<Rightarrow> replay_result \<Rightarrow> replay_result" where
  "replay_event ev r =
     (let p = he_payload ev;
          step = from_le_bytes (take 4 p); i = from_le_bytes (take 8 p);
          activity = (\<lambda>f. if length p \<ge> 4
            then r\<lparr>rr_activity_states := update_last (\<lambda>a. ra_step_index a = step) f (rr_activity_states r)\<rparr> else r);
          timer = (\<lambda>s. if length p \<ge> 8
            then r\<lparr>rr_timer_states := update_last (\<lambda>t. rt_timer_id t = i \<and> rt_status t = TmStarted)
                     (\<lambda>t. t\<lparr>rt_status := s, rt_fired_at_event_id := Some (event_id ev)\<rparr>) (rr_timer_states r)\<rparr> else r);
          child = (\<lambda>f. if length p \<ge> 8
            then r\<lparr>rr_child_states := update_last (\<lambda>c. rc_child_workflow_key c = i) f (rr_child_states r)\<rparr> else r)
      in case event_type ev of
           WorkflowStarted \<Rightarrow> r\<lparr>rr_status := Running\<rparr>
         | WorkflowCompleted \<Rightarrow> r\<lparr>rr_status := Completed\<rparr>
         | WorkflowFailed \<Rightarrow> r\<lparr>rr_status := Failed\<rparr>
         | WorkflowCanceled \<Rightarrow> r\<lparr>rr_status := Canceled\<rparr>
         | WorkflowTerminated \<Rightarrow> r\<lparr>rr_status := Terminated\<rparr>
         | WorkflowTimedOut \<Rightarrow> r\<lparr>rr_status := TimedOut\<rparr>
         | WorkflowContinuedAsNew \<Rightarrow> r\<lparr>rr_status := WContinuedAsNew\<rparr>
         | StepCompleted \<Rightarrow>
             if length p \<ge> 4 then r\<lparr>rr_step_results := hm_insert (rr_step_results r) step (drop 4 p)\<rparr> else r
         | ActivityScheduled \<Rightarrow>
             if length p \<ge> 12
             then r\<lparr>rr_activity_states := rr_activity_states r @
                      [\<lparr>ra_step_index = step, ra_activity_name_id = from_le_bytes (take 8 (drop 4 p)),
                        ra_status = ActScheduled, ra_result = None\<rparr>]\<rparr> else r
         | ActivityStarted \<Rightarrow> activity (\<lambda>a. a\<lparr>ra_status := ActStarted\<rparr>)
         | ActivityCompleted \<Rightarrow> activity (\<lambda>a. a\<lparr>ra_status := ActCompleted, ra_result := tail_option 4 p\<rparr>)
         | ActivityFailed \<Rightarrow> activity (\<lambda>a. a\<lparr>ra_status := ActFailed\<rparr>)
         | ActivityTimedOut \<Rightarrow> activity (\<lambda>a. a\<lparr>ra_status := ActTimedOut\<rparr>)
         | SignalReceived \<Rightarrow>
             if length p \<ge> 8
             then r\<lparr>rr_pending_signals := hm_insert (rr_pending_signals r) i
                      (get_or (rr_pending_signals r) i [] @ [drop 8 p])\<rparr> else r
         | TimerStarted \<Rightarrow>
             if length p \<ge> 8
             then r\<lparr>rr_timer_states := rr_timer_states r @
                      [\<lparr>rt_timer_id = i, rt_started_at_event_id = event_id ev, rt_status = TmStarted,
                        rt_fired_at_event_id = None\<rparr>]\<rparr> else r
         | TimerFired \<Rightarrow> timer TmFired
         | TimerCanceled \<Rightarrow> timer TmCanceled
         | ChildWorkflowStarted \<Rightarrow>
             if length p \<ge> 8
             then r\<lparr>rr_child_states := rr_child_states r @
                      [\<lparr>rc_child_workflow_key = i, rc_status = ChStarted, rc_result = None\<rparr>]\<rparr> else r
         | ChildWorkflowCompleted \<Rightarrow> child (\<lambda>c. c\<lparr>rc_status := ChCompleted, rc_result := tail_option 8 p\<rparr>)
         | ChildWorkflowFailed \<Rightarrow> child (\<lambda>c. c\<lparr>rc_status := ChFailed\<rparr>)
         | _ \<Rightarrow> r)"

fun replay_loop :: "u64 \<Rightarrow> nat \<Rightarrow> history_event list \<Rightarrow> replay_result \<Rightarrow> replay_result" where
  "replay_loop cutoff bound [] r = r"
| "replay_loop cutoff bound (ev # evs) r =
     (if event_id ev > cutoff \<or> rr_events_replayed r \<ge> bound then r
      else replay_loop cutoff bound evs
        (replay_event ev (r\<lparr>rr_replayed_to_event_id := event_id ev, rr_events_replayed := rr_events_replayed r + 1,
           rr_determinism_checksum := checksum_event ev (rr_determinism_checksum r)\<rparr>)))"

definition replay_start :: "u64 \<Rightarrow> nat \<Rightarrow> replay_result" where
  "replay_start key n =
     \<lparr>rr_workflow_key = key, rr_replayed_to_event_id = 0, rr_total_events = n, rr_events_replayed = 0,
      rr_status = Void, rr_step_results = [], rr_pending_signals = [], rr_activity_states = [], rr_timer_states = [],
      rr_child_states = [], rr_determinism_checksum = 0xcbf29ce484222325, rr_success = True, rr_error = None\<rparr>"

definition replay :: "replay_engine \<Rightarrow> u64 \<Rightarrow> history_event list \<Rightarrow> u64 option \<Rightarrow> replay_engine \<times> replay_result" where
  "replay re key history up_to =
     (re\<lparr>re_total_replays := re_total_replays re + 1\<rparr>,
      replay_loop (case up_to of None \<Rightarrow> - 1 | Some c \<Rightarrow> c) (re_max_replay_events re) history
        (replay_start key (length history)))"

definition replay_from_store :: "replay_engine \<Rightarrow> u64 \<Rightarrow> history_store \<Rightarrow> u64 option \<Rightarrow> replay_engine \<times> replay_result" where
  "replay_from_store re key store up_to =
     (case replay re key (case get_history store key of None \<Rightarrow> [] | Some h \<Rightarrow> h) up_to of
        (re, r) \<Rightarrow> (re\<lparr>re_replay_cache := hm_insert (re_replay_cache re) key r\<rparr>, r))"

text \<open>
  The context a summary describes.  The step results and the signals are taken in the order in which
  the hash maps hand them out.
\<close>

definition apply_replay :: "digest_fn \<Rightarrow> replay_result \<Rightarrow> instant \<Rightarrow> workflow_context option" where
  "apply_replay sha r now =
     (if \<not> rr_success r then None
      else let steps = map fst (rr_step_results r);
               total_steps = (if steps = [] then 0 else fold max steps 0 + 1);
               c = WorkflowContext_new sha (rr_workflow_key r AND 0xFFFFFFFF) 0 0 0 total_steps now;
               c = c\<lparr>wc_status := rr_status r\<rparr>;
               c = fold (\<lambda>(step, d) c. Context_complete_step sha c step d) (rr_step_results r) c
           in Some (fold (\<lambda>(name, ps) c. fold (\<lambda>p c. Context_signal c name p) ps c) (rr_pending_signals r) c))"

text \<open>Equality of hash maps does not depend on the order of their entries.\<close>

definition hm_eq :: "('k, 'v) hash_map \<Rightarrow> ('k, 'v) hash_map \<Rightarrow> bool" where
  "hm_eq a b \<longleftrightarrow> length a = length b \<and> list_all (\<lambda>(k, v). map_of b k = Some v) a"

definition compare_replay_results :: "replay_result \<Rightarrow> replay_result \<Rightarrow> bool" where
  "compare_replay_results a b \<longleftrightarrow> rr_status a = rr_status b \<and> hm_eq (rr_step_results a) (rr_step_results b)
     \<and> rr_events_replayed a = rr_events_replayed b \<and> rr_replayed_to_event_id a = rr_replayed_to_event_id b
     \<and> rr_determinism_checksum a = rr_determinism_checksum b
     \<and> length (rr_activity_states a) = length (rr_activity_states b)
     \<and> length (rr_timer_states a) = length (rr_timer_states b) \<and> length (rr_child_states a) = length (rr_child_states b)"

definition verify_determinism :: "replay_engine \<Rightarrow> u64 \<Rightarrow> history_event list \<Rightarrow> replay_engine \<times> bool" where
  "verify_determinism re key history =
     (case replay re key history None of
        (re, a) \<Rightarrow> (case replay re key history None of
           (re, b) \<Rightarrow> (re, rr_status a = rr_status b \<and> hm_eq (rr_step_results a) (rr_step_results b)
             \<and> rr_events_replayed a = rr_events_replayed b \<and> rr_replayed_to_event_id a = rr_replayed_to_event_id b
             \<and> rr_determinism_checksum a = rr_determinism_checksum b
             \<and> length (rr_timer_states a) = length (rr_timer_states b)
             \<and> length (rr_child_states a) = length (rr_child_states b))))"

definition get_cached :: "replay_engine \<Rightarrow> u64 \<Rightarrow> replay_result option" where
  "get_cached re key = map_of (re_replay_cache re) key"

definition invalidate_cache :: "replay_engine \<Rightarrow> u64 \<Rightarrow> replay_engine" where
  "invalidate_cache re key = re\<lparr>re_replay_cache := hm_remove (re_replay_cache re) key\<rparr>"

definition clear_cache :: "replay_engine \<Rightarrow> replay_engine" where
  "clear_cache re = re\<lparr>re_replay_cache := []\<rparr>"

section \<open>The determinism check\<close>

lemma hm_eq_refl: "hm_wf m \<Longrightarrow> hm_eq m m"
  by (auto simp: hm_eq_def list_all_iff)

lemma replay_event_frame [simp]:
  "rr_events_replayed (replay_event ev r) = rr_events_replayed r" "rr_success (replay_event ev r) = rr_success r"
  "hm_wf (rr_step_results r) \<Longrightarrow> hm_wf (rr_step_results (replay_event ev r))"
  by (cases "event_type ev"; simp add: replay_event_def Let_def)+

lemma replay_loop_keeps:
  "rr_success (replay_loop cutoff bound evs r) = rr_success r"
  "hm_wf (rr_step_results r) \<Longrightarrow> hm_wf (rr_step_results (replay_loop cutoff bound evs r))"
  by (induction cutoff bound evs r rule: replay_loop.induct) simp_all

lemma replay_start_simps [simp]:
  "rr_success (replay_start key n) = True" "rr_step_results (replay_start key n) = []"
  "rr_events_replayed (replay_start key n) = 0" "rr_status (replay_start key n) = Void"
  by (simp_all add: replay_start_def)

lemma replay_success: "rr_success (snd (replay re key history up_to))"
  by (simp add: replay_def replay_loop_keeps)

text \<open>
  The determinism check accepts every history: both replays fold the same list with the
  same function, and no history makes a replay fail.
\<close>

lemma determinism_check_accepts_everything:
  "snd (verify_determinism re key history) \<and> rr_success (snd (replay re key history up_to))"
proof -
  have "hm_wf (rr_step_results (replay_loop c n history (replay_start key k)))" for c n k
    by (rule replay_loop_keeps(2)) simp
  then show ?thesis
    using replay_success [of re key history up_to] by (simp add: verify_determinism_def replay_def hm_eq_refl)
qed

section \<open>A whole history\<close>

text \<open>What status and step results depend on: the kinds and payloads of the events.\<close>

fun summary :: "history_event_type \<times> bytes \<times> (string, string) hash_map \<Rightarrow>
    workflow_status \<times> (u32, bytes) hash_map \<Rightarrow> workflow_status \<times> (u32, bytes) hash_map" where
  "summary (typ, p, _) (s, m) =
     (case typ of
        WorkflowStarted \<Rightarrow> (Running, m) | WorkflowCompleted \<Rightarrow> (Completed, m) | WorkflowFailed \<Rightarrow> (Failed, m)
      | WorkflowCanceled \<Rightarrow> (Canceled, m) | WorkflowTerminated \<Rightarrow> (Terminated, m) | WorkflowTimedOut \<Rightarrow> (TimedOut, m)
      | WorkflowContinuedAsNew \<Rightarrow> (WContinuedAsNew, m)
      | StepCompleted \<Rightarrow> (s, if length p \<ge> 4 then hm_insert m (from_le_bytes (take 4 p)) (drop 4 p) else m)
      | _ \<Rightarrow> (s, m))"

abbreviation summary_of :: "replay_result \<Rightarrow> workflow_status \<times> (u32, bytes) hash_map" where
  "summary_of r \<equiv> (rr_status r, rr_step_results r)"

lemma replay_event_summary: "summary_of (replay_event ev r) = summary (event_data ev) (summary_of r)"
  by (cases "event_type ev") (simp_all add: replay_event_def Let_def event_data_def)

text \<open>Without a cutoff and within the bound the replay goes through all events.\<close>

lemma replay_loop_summary:
  "rr_events_replayed r + length evs \<le> bound \<Longrightarrow>
     summary_of (replay_loop (- 1) bound evs r) = fold summary (map event_data evs) (summary_of r)"
proof (induction evs arbitrary: r)
  case (Cons ev evs)
  let ?r = "r\<lparr>rr_replayed_to_event_id := event_id ev, rr_events_replayed := rr_events_replayed r + 1,
         rr_determinism_checksum := checksum_event ev (rr_determinism_checksum r)\<rparr>"
  have "\<not> (event_id ev > - 1 \<or> rr_events_replayed r \<ge> bound)"
    using Cons.prems word_order.extremum [of "event_id ev"] by (simp add: not_less)
  then have "replay_loop (- 1) bound (ev # evs) r = replay_loop (- 1) bound evs (replay_event ev ?r)" by simp
  moreover have "rr_events_replayed (replay_event ev ?r) + length evs \<le> bound" using Cons.prems by simp
  ultimately show ?case using Cons.IH [of "replay_event ev ?r"] replay_event_summary [of ev ?r] by simp
qed simp

lemma replay_summary:
  "length evs \<le> 100000 \<Longrightarrow> summary_of (snd (replay ReplayEngine_new key evs None)) = fold summary (map event_data evs) (Void, [])"
  using replay_loop_summary [of "replay_start key (length evs)" evs 100000]
  by (simp add: replay_def ReplayEngine_new_def ReplayEngine_with_max_events_def)

end
