(* ===== verification/Recovery.thy ===== *)
theory Recovery
  imports Engine_Facts Replay
begin

text \<open>
  Crash recovery in \<open>engine.rs\<close>: \<open>recover_from_wal\<close> replays the log into a new engine and hands the
  rebuilt histories to the replay engine.  The theorems compare the recovered contexts with those
  of the engine that wrote the log, and with what the replay engine makes of the histories.
\<close>

section \<open>Replaying the log\<close>

datatype recovery_error = WalNotEnabled | WalReplayFailed io_error

definition apply_record :: "digest_fn \<Rightarrow> clock \<Rightarrow> wal_record \<Rightarrow> engine \<times> nat \<Rightarrow> engine \<times> nat" where
  "apply_record sha t r = (\<lambda>(e, n).
     let key = wr_workflow_key r; data = wr_data r
     in case wr_event_type r of
          WalWorkflowStarted \<Rightarrow>
            if length data < 36 then (e, n)
            else let wid = from_le_bytes (subslice 0 8 data);
                     tid = from_le_bytes (subslice 8 16 data);
                     ns = from_le_bytes (subslice 16 24 data);
                     tq = from_le_bytes (subslice 24 32 data);
                     steps = from_le_bytes (subslice 32 36 data);
                     ctx = (WorkflowContext_new sha wid (key AND 0xFFFFFFFF) tid tq steps (mono t))\<lparr>wc_namespace_id := ns\<rparr>;
                     (p, inserted) = insert_if_absent (en_workflows e) key ctx
                 in (e\<lparr>en_workflows := p\<rparr>, if inserted then n + 1 else n)
        | WalStepCompleted \<Rightarrow>
            (update_ctx key (\<lambda>c. if length data \<ge> 4
               then Context_complete_step sha c (from_le_bytes (take 4 data)) (drop 4 data) else c) e, n)
        | WalSignalReceived \<Rightarrow>
            (update_ctx key (\<lambda>c. if length data \<ge> 8
               then Context_signal c (from_le_bytes (take 8 data)) (drop 8 data) else c) e, n)
        | WalWorkflowCompleted \<Rightarrow>
            (update_ctx key (\<lambda>c. Context_complete c (if data = [] then None else Some data) (mono t)) e, n)
        | WalWorkflowFailed \<Rightarrow> (update_ctx key (\<lambda>c. Context_fail c (mono t)) e, n)
        | WalWorkflowCanceled \<Rightarrow> (update_ctx key (\<lambda>c. Context_cancel c (mono t)) e, n)
        | WalWorkflowTerminated \<Rightarrow> (update_ctx key (\<lambda>c. Context_terminate c (mono t)) e, n)
        | _ \<Rightarrow> (e, n))"

definition restore_next_run_id :: "engine \<Rightarrow> engine" where
  "restore_next_run_id e =
     (let max_run_id = fold max (WorkflowContextPool_keys (en_workflows e)) 0
      in if max_run_id > 0 then e\<lparr>en_next_run_id := max_run_id + 1\<rparr> else e)"

definition register_recovered :: "u64 \<Rightarrow> engine \<Rightarrow> engine" where
  "register_recovered key e =
     with_ctx e key (\<lambda>c. case c of None \<Rightarrow> e
       | Some c \<Rightarrow>
           if vis_get (en_visibility e) key = None
           then e\<lparr>en_visibility := vis_register (en_visibility e)
                   \<lparr>vi_workflow_key = key, vi_workflow_id = wc_workflow_id c, vi_run_id = wc_run_id c,
                    vi_workflow_type_id = wc_workflow_type_id c, vi_namespace_id = wc_namespace_id c,
                    vi_status = wc_status c, vi_start_time_ms = 0,
                    vi_close_time_ms = (if wc_status c \<in> {Completed, Failed, Canceled, Terminated, WContinuedAsNew, TimedOut}
                       then Some 0 else None),
                    vi_task_queue_hash = wc_task_queue_hash c, vi_search_attributes = [], vi_memo = []\<rparr>\<rparr>
           else e)"

fun history_type_of :: "wal_event_type \<Rightarrow> history_event_type option" where
  "history_type_of WalWorkflowStarted = Some WorkflowStarted"
| "history_type_of WalStepCompleted = Some StepCompleted"
| "history_type_of WalSignalReceived = Some SignalReceived"
| "history_type_of WalWorkflowCompleted = Some WorkflowCompleted"
| "history_type_of WalWorkflowFailed = Some WorkflowFailed"
| "history_type_of WalWorkflowCanceled = Some WorkflowCanceled"
| "history_type_of WalWorkflowTerminated = Some WorkflowTerminated"
| "history_type_of _ = None"

definition rebuild_history :: "wal_record \<Rightarrow> engine \<Rightarrow> engine" where
  "rebuild_history r e =
     (case history_type_of (wr_event_type r) of
        None \<Rightarrow> e | Some ty \<Rightarrow> record_history (wr_workflow_key r) ty (wr_data r) e)"

definition count_verified :: "engine \<Rightarrow> nat" where
  "count_verified e =
     length (filter (\<lambda>key. let h = (case get_history (en_history e) key of None \<Rightarrow> [] | Some h \<Rightarrow> h)
        in h \<noteq> [] \<and> rr_success (snd (replay ReplayEngine_new key h None))) (WorkflowContextPool_keys (en_workflows e)))"

definition recover_from_wal ::
    "digest_fn \<Rightarrow> engine \<Rightarrow> clock \<Rightarrow> recovery_error + engine \<times> nat \<times> nat" where
  "recover_from_wal sha e t =
     (case en_wal e of
        None \<Rightarrow> Inl WalNotEnabled
      | Some wal \<Rightarrow>
          (case replay_all wal of
             Inl err \<Rightarrow> Inl (WalReplayFailed err)
           | Inr records \<Rightarrow>
               let (e, recovered) = fold (apply_record sha t) records (e, 0);
                   e = restore_next_run_id e;
                   e = fold register_recovered (WorkflowContextPool_keys (en_workflows e)) e;
                   e = fold rebuild_history records e;
                   verified = count_verified e;
                   e = call_out (IncCounter ''velocity_wal_recovery_records'') e;
                   e = (call_out (IncCounter ''velocity_wal_recovery_verified'') ^^ verified) e
               in Inr (e, length records, recovered)))"

section \<open>What a log says\<close>

text \<open>
  The part of a context that the log is to preserve: identity, steps, status and signals.  The
  run id and the Merkle roots, which depend on it, are not in the log; nor are inputs,
  results, activities, updates and the links between parents and children.
\<close>

record progress =
  pg_workflow_id :: u64
  pg_type_id :: u64
  pg_namespace_id :: u64
  pg_task_queue :: u64
  pg_total_steps :: u32
  pg_bitmask :: bitmask256
  pg_current_step :: u32
  pg_status :: workflow_status
  pg_results :: "bytes slot_map"
  pg_signals :: "bytes slot_vec"

definition progress_of :: "workflow_context \<Rightarrow> progress" where
  "progress_of c =
     \<lparr>pg_workflow_id = wc_workflow_id c, pg_type_id = wc_workflow_type_id c, pg_namespace_id = wc_namespace_id c,
      pg_task_queue = wc_task_queue_hash c, pg_total_steps = sh_total_steps (wc_slab c),
      pg_bitmask = sh_step_bitmask (wc_slab c), pg_current_step = sh_current_step (wc_slab c),
      pg_status = wc_status c, pg_results = step_results c, pg_signals = signal_buffer c\<rparr>"

definition new_progress :: "u64 \<Rightarrow> u64 \<Rightarrow> u64 \<Rightarrow> u64 \<Rightarrow> u32 \<Rightarrow> progress" where
  "new_progress wid tid ns tq steps =
     \<lparr>pg_workflow_id = wid, pg_type_id = tid, pg_namespace_id = ns, pg_task_queue = tq, pg_total_steps = steps,
      pg_bitmask = Bitmask256_new, pg_current_step = 0, pg_status = Running,
      pg_results = SlotMap_with_capacity 64, pg_signals = SlotVec_with_capacity 16\<rparr>"

definition complete_progress :: "u32 \<Rightarrow> bytes \<Rightarrow> progress \<Rightarrow> progress" where
  "complete_progress step result p =
     p\<lparr>pg_bitmask := fst (set_step (pg_bitmask p) (unat step)),
       pg_current_step := (if snd (set_step (pg_bitmask p) (unat step)) then word_of_nat (unat step + 1) else pg_current_step p),
       pg_results := SlotMap_insert (pg_results p) (ucast step) result\<rparr>"

definition signal_progress :: "u64 \<Rightarrow> bytes \<Rightarrow> progress \<Rightarrow> progress" where
  "signal_progress name payload p = p\<lparr>pg_signals := SlotVec_push (pg_signals p) name payload\<rparr>"

lemma progress_of_complete_step:
  "progress_of (Context_complete_step sha c step result) = complete_progress step result (progress_of c)"
  by (simp add: progress_of_def complete_progress_def Context_complete_step_def mark_step_completed_def
      recalculate_merkle_root_def case_prod_beta split: bool.split)

lemma progress_of_closing [simp]:
  "progress_of (Context_signal c name payload) = signal_progress name payload (progress_of c)"
  "progress_of (Context_complete c r now) = (progress_of c)\<lparr>pg_status := Completed\<rparr>"
  "progress_of (Context_fail c now) = (progress_of c)\<lparr>pg_status := Failed\<rparr>"
  "progress_of (Context_cancel c now) = (progress_of c)\<lparr>pg_status := Canceled\<rparr>"
  "progress_of (Context_terminate c now) = (progress_of c)\<lparr>pg_status := Terminated\<rparr>"
  by (simp_all add: progress_of_def signal_progress_def Context_signal_def Context_complete_def Context_fail_def
      Context_cancel_def Context_terminate_def)

lemma progress_of_started [simp]:
  "progress_of (started_context sha wid rid tid ns tq steps input t) = new_progress wid tid ns tq steps"
  by (simp add: started_context_def progress_of_def new_progress_def WorkflowContext_new_def SlabHeader_new_def
      recalculate_merkle_root_def)

definition abs_record :: "wal_record \<Rightarrow> (u64 \<rightharpoonup> progress) \<Rightarrow> u64 \<rightharpoonup> progress" where
  "abs_record r M =
     (let key = wr_workflow_key r; data = wr_data r;
          change = (\<lambda>f. M(key := map_option f (M key)))
      in case wr_event_type r of
           WalWorkflowStarted \<Rightarrow>
             if length data < 36 \<or> M key \<noteq> None then M
             else M(key \<mapsto> new_progress (from_le_bytes (subslice 0 8 data)) (from_le_bytes (subslice 8 16 data))
                     (from_le_bytes (subslice 16 24 data)) (from_le_bytes (subslice 24 32 data))
                     (from_le_bytes (subslice 32 36 data)))
         | WalStepCompleted \<Rightarrow>
             change (\<lambda>p. if length data \<ge> 4 then complete_progress (from_le_bytes (take 4 data)) (drop 4 data) p else p)
         | WalSignalReceived \<Rightarrow>
             change (\<lambda>p. if length data \<ge> 8 then signal_progress (from_le_bytes (take 8 data)) (drop 8 data) p else p)
         | WalWorkflowCompleted \<Rightarrow> change (\<lambda>p. p\<lparr>pg_status := Completed\<rparr>)
         | WalWorkflowFailed \<Rightarrow> change (\<lambda>p. p\<lparr>pg_status := Failed\<rparr>)
         | WalWorkflowCanceled \<Rightarrow> change (\<lambda>p. p\<lparr>pg_status := Canceled\<rparr>)
         | WalWorkflowTerminated \<Rightarrow> change (\<lambda>p. p\<lparr>pg_status := Terminated\<rparr>)
         | _ \<Rightarrow> M)"

definition prog :: "engine \<Rightarrow> u64 \<rightharpoonup> progress" where
  "prog e = map_option progress_of \<circ> contexts e"

lemma dom_prog: "dom (prog e) = dom (contexts e)"
  by (auto simp: prog_def)

lemma prog_changes:
  assumes "changes_ctx e e' k f" and "\<And>c. contexts e k = Some c \<Longrightarrow> progress_of (f c) = g (progress_of c)"
  shows "engine_ok e' \<and> prog e' = (prog e)(k := map_option g (prog e k))"
  using assms by (cases "contexts e k") (auto simp: changes_ctx_def prog_def fun_eq_iff)

section \<open>Replaying follows the log\<close>

text \<open>Every workflow the log starts finds its bucket free.\<close>

fun log_fits :: "wal_record list \<Rightarrow> (u64 \<rightharpoonup> progress) \<Rightarrow> bool" where
  "log_fits [] M = True"
| "log_fits (r # rs) M =
     ((wr_event_type r = WalWorkflowStarted \<longrightarrow> pool_fits (dom M) (wr_workflow_key r)) \<and> log_fits rs (abs_record r M))"

lemma update_ctx_prog:
  assumes "engine_ok e" and "\<And>c. progress_of (f c) = g (progress_of c)"
  shows "engine_ok (update_ctx k f e)" and "prog (update_ctx k f e) = (prog e)(k := map_option g (prog e k))"
proof -
  have "changes_ctx e (update_ctx k f e) k f"
    using with_ctx_mut_spec [OF assms(1), of k "()" "\<lambda>c. (f c, ())"] by (simp add: changes_ctx_def)
  from prog_changes [OF this assms(2)]
  show "engine_ok (update_ctx k f e)" and "prog (update_ctx k f e) = (prog e)(k := map_option g (prog e k))" by blast+
qed

lemma apply_start_prog:
  assumes "engine_ok e" and "pool_fits (dom (prog e)) k" and "progress_of ctx = p"
    and "insert_if_absent (en_workflows e) k ctx = (q, ins)"
  shows "ctx_pool_wf q" and "ins \<longleftrightarrow> prog e k = None"
    and "prog (e\<lparr>en_workflows := q\<rparr>) = (if prog e k = None then (prog e)(k \<mapsto> p) else prog e)"
  using insert_if_absent_spec [OF assms(1) assms(2) [unfolded dom_prog], of ctx] assms(3,4)
  by (auto simp: prog_def fun_eq_iff split: option.splits)

lemma apply_record_prog:
  assumes ok: "engine_ok e"
    and fits: "wr_event_type r = WalWorkflowStarted \<longrightarrow> pool_fits (dom (prog e)) (wr_workflow_key r)"
  shows "engine_ok (fst (apply_record sha t r (e, n))) \<and> prog (fst (apply_record sha t r (e, n))) = abs_record r (prog e)"
proof (cases "wr_event_type r")
  case WalWorkflowStarted
  let ?d = "wr_data r" and ?k = "wr_workflow_key r"
  let ?c = "(WorkflowContext_new sha (from_le_bytes (subslice 0 8 ?d)) (?k AND 0xFFFFFFFF) (from_le_bytes (subslice 8 16 ?d))
      (from_le_bytes (subslice 24 32 ?d)) (from_le_bytes (subslice 32 36 ?d)) (mono t))\<lparr>wc_namespace_id := from_le_bytes (subslice 16 24 ?d)\<rparr>"
  have p: "progress_of ?c = new_progress (from_le_bytes (subslice 0 8 ?d)) (from_le_bytes (subslice 8 16 ?d))
      (from_le_bytes (subslice 16 24 ?d)) (from_le_bytes (subslice 24 32 ?d)) (from_le_bytes (subslice 32 36 ?d))"
    by (simp add: progress_of_def new_progress_def WorkflowContext_new_def SlabHeader_new_def recalculate_merkle_root_def)
  obtain q ins where q: "insert_if_absent (en_workflows e) ?k ?c = (q, ins)" by (metis surj_pair)
  show ?thesis
    using apply_start_prog [OF ok _ p q] fits ok WalWorkflowStarted
    by (simp add: apply_record_def abs_record_def Let_def q)
qed (use ok in \<open>simp_all add: apply_record_def abs_record_def Let_def update_ctx_prog
    with_ctx_mut_spec(1) progress_of_complete_step\<close>)

lemma dom_abs_record: "dom (abs_record r M) = dom M \<or> (wr_workflow_key r \<notin> dom M \<and> dom (abs_record r M) = insert (wr_workflow_key r) (dom M))"
  by (cases "wr_event_type r") (auto simp: abs_record_def Let_def)

lemma apply_record_count:
  assumes "engine_ok e"
    and "wr_event_type r = WalWorkflowStarted \<longrightarrow> pool_fits (dom (prog e)) (wr_workflow_key r)"
  shows "snd (apply_record sha t r (e, n)) = n + (card (dom (abs_record r (prog e))) - card (dom (prog e)))"
proof (cases "wr_event_type r")
  case WalWorkflowStarted
  have fin: "finite (dom (prog e))" by (simp add: dom_prog pool_map_def finite_dom_map_of)
  have "snd (insert_if_absent (en_workflows e) (wr_workflow_key r) c) \<longleftrightarrow> prog e (wr_workflow_key r) = None" for c
    using insert_if_absent_spec(3) [OF assms(1), of "wr_workflow_key r" c] assms(2) WalWorkflowStarted
    by (simp add: dom_prog) (simp add: prog_def)
  then show ?thesis
    using WalWorkflowStarted fin
    by (auto simp: apply_record_def abs_record_def Let_def case_prod_beta card_insert_if domIff)
qed (simp_all add: apply_record_def abs_record_def Let_def dom_fun_upd insert_absorb domIff)

lemma apply_records_prog:
  assumes "engine_ok e" and "log_fits rs (prog e)"
  shows "engine_ok (fst (fold (apply_record sha t) rs (e, n)))
    \<and> prog (fst (fold (apply_record sha t) rs (e, n))) = fold abs_record rs (prog e)
    \<and> snd (fold (apply_record sha t) rs (e, n)) + card (dom (prog e)) = n + card (dom (fold abs_record rs (prog e)))"
  using assms
proof (induction rs arbitrary: e n)
  case (Cons r rs)
  obtain e1 n1 where step: "apply_record sha t r (e, n) = (e1, n1)" by (metis surj_pair)
  have 1: "engine_ok e1" "prog e1 = abs_record r (prog e)"
    using apply_record_prog [of e r sha t n] Cons.prems step by auto
  have n1: "n1 = n + (card (dom (prog e1)) - card (dom (prog e)))"
    using apply_record_count [of e r sha t n] Cons.prems step 1(2) by auto
  have "finite (dom (prog e1))" by (simp add: dom_prog pool_map_def finite_dom_map_of)
  moreover have "dom (prog e) \<subseteq> dom (prog e1)" using dom_abs_record [of r "prog e"] unfolding 1(2) by auto
  ultimately have "card (dom (prog e)) \<le> card (dom (prog e1))" by (rule card_mono)
  then have "n1 + card (dom (prog e)) = n + card (dom (prog e1))" using n1 by linarith
  then show ?case using Cons.IH [OF 1(1), of n1] Cons.prems by (simp add: step 1(2) [symmetric])
qed simp

lemma register_recovered_workflows [simp]: "en_workflows (register_recovered key e) = en_workflows e"
  by (simp add: register_recovered_def with_ctx_def WorkflowContextPool_with_def split: option.split)

lemma fold_keeps_workflows: "(\<And>x e. en_workflows (f x e) = en_workflows e) \<Longrightarrow> en_workflows (fold f xs e) = en_workflows e"
  by (induction xs arbitrary: e) simp_all

lemma funpow_keeps_workflows:
  fixes f :: "engine \<Rightarrow> engine"
  shows "(\<And>e. en_workflows (f e) = en_workflows e) \<Longrightarrow> en_workflows ((f ^^ n) e) = en_workflows e"
  by (induction n) simp_all

lemma restore_next_run_id_workflows [simp]: "en_workflows (restore_next_run_id e) = en_workflows e"
  by (simp add: restore_next_run_id_def Let_def)

lemma rebuild_history_workflows [simp]: "en_workflows (rebuild_history r e) = en_workflows e"
  by (simp add: rebuild_history_def split: option.split)

lemma recover_from_wal_prog:
  assumes ok: "engine_ok e" and w: "en_wal e = Some w" and rs: "replay_all w = Inr rs" and fits: "log_fits rs (prog e)"
  obtains e' n where "recover_from_wal sha e t = Inr (e', length rs, n)" "engine_ok e'"
    "prog e' = fold abs_record rs (prog e)" "n + card (dom (prog e)) = card (dom (prog e'))"
proof -
  let ?r = "fold (apply_record sha t) rs (e, 0)"
  let ?e = "fold rebuild_history rs (fold register_recovered (WorkflowContextPool_keys (en_workflows (restore_next_run_id (fst ?r))))
      (restore_next_run_id (fst ?r)))"
  let ?e' = "(call_out (IncCounter ''velocity_wal_recovery_verified'') ^^ count_verified ?e)
      (call_out (IncCounter ''velocity_wal_recovery_records'') ?e)"
  have "recover_from_wal sha e t = Inr (?e', length rs, snd ?r)"
    by (simp add: recover_from_wal_def w rs Let_def case_prod_beta)
  moreover have same: "en_workflows ?e' = en_workflows (fst ?r)"
    by (simp add: funpow_keeps_workflows fold_keeps_workflows)
  moreover have "prog ?e' = prog (fst ?r)" by (simp only: prog_def same)
  ultimately show thesis
    using apply_records_prog [OF ok fits, of sha t 0] that by simp
qed

lemma log_fits_append: "log_fits (rs @ rs') M \<longleftrightarrow> log_fits rs M \<and> log_fits rs' (fold abs_record rs M)"
  by (induction rs arbitrary: M) auto

section \<open>A crash and a restart\<close>

text \<open>A new engine on the files the old one left.\<close>

definition restarted :: "engine \<Rightarrow> clock \<Rightarrow> engine" where
  "restarted e t =
     (case en_wal e of
        None \<Rightarrow> WorkflowEngine_new t
      | Some w \<Rightarrow> WorkflowEngine_with_wal (Some (ww_file (wm_writer w))) (wm_rotated w) (wm_max_file_size w) t)"

lemma wal_file_nonempty [simp]: "wal_file rs \<noteq> []"
  by (simp add: wal_file_def wal_header_def WAL_MAGIC_def)

lemma restarted_logged: "logged limit 3 rs e \<Longrightarrow> logged limit 3 rs (restarted e t)"
  by (auto simp: logged_def restarted_def WorkflowEngine_with_wal_def WalManager_new_def WalManager_with_retention_def
      WalWriter_open_def manager_holds_def Let_def)

lemma restarted_engine [simp]: "engine_ok (restarted e t)" "contexts (restarted e t) = Map.empty"
  by (simp_all add: restarted_def split: option.split)

lemma new_engine_prog [simp]:
  "prog (WorkflowEngine_with_wal found rotated limit t) = Map.empty" "prog (restarted e t) = Map.empty"
  by (simp_all add: prog_def fun_eq_iff)

lemma new_engine_logged: "logged limit 3 [] (WorkflowEngine_with_wal None [] limit t)"
  using fresh_manager_holds [of limit 3]
  by (simp add: logged_def WorkflowEngine_with_wal_def WalManager_new_def wal_segments_def)
    (simp add: WalManager_with_retention_def)

lemma recovery_of_log:
  assumes log: "logged limit 3 rs e" and enc: "list_all encodable rs" and segs: "length (wal_segments limit rs) \<le> 4"
    and fits: "log_fits rs Map.empty"
  obtains e' where "recover_from_wal sha (restarted e t) t = Inr (e', length rs, card (dom (prog e')))"
    "engine_ok e'" "prog e' = fold abs_record rs Map.empty"
proof -
  note rl = restarted_logged [OF log, of t]
  obtain w where w: "en_wal (restarted e t) = Some w" using rl by (auto simp: logged_def)
  have "replay_all w = Inr rs" using logged_replay [OF rl enc _ w] segs by simp
  then obtain e' n where "recover_from_wal sha (restarted e t) t = Inr (e', length rs, n)" "engine_ok e'"
    "prog e' = fold abs_record rs (prog (restarted e t))" "n + card (dom (prog (restarted e t))) = card (dom (prog e'))"
    using recover_from_wal_prog [OF _ w, of rs sha t] fits by auto
  then show thesis using that by simp
qed

section \<open>The rebuilt histories\<close>

definition record_ops :: "wal_record \<Rightarrow> history_op list" where
  "record_ops r = (case history_type_of (wr_event_type r) of
     None \<Rightarrow> [] | Some ty \<Rightarrow> [RecordEvent (wr_workflow_key r) ty (wr_data r) []])"

lemma rebuild_history_ops:
  "en_history (fold rebuild_history rs e) = fold history_apply (concat (map record_ops rs)) (en_history e)"
  by (induction rs arbitrary: e)
    (simp_all add: rebuild_history_def record_ops_def record_history_def record_event_as_op split: option.split)

lemma history_frame [simp]:
  "en_history (call_out c e) = en_history e" "en_history (restore_next_run_id e) = en_history e"
  "en_history (register_recovered key e) = en_history e" "en_history (fst (apply_record sha t r (e, n))) = en_history e"
  by (cases "wr_event_type r";
      simp add: call_out_def restore_next_run_id_def register_recovered_def with_ctx_def WorkflowContextPool_with_def
        apply_record_def with_ctx_mut_frame Let_def case_prod_beta split: option.split)+

lemma fold_keeps_history:
  "(\<And>x e. en_history (f x e) = en_history e) \<Longrightarrow> en_history (fold f xs e) = en_history e"
  by (induction xs arbitrary: e) simp_all

lemma apply_records_history: "en_history (fst (fold (apply_record sha t) rs s)) = en_history (fst s)"
proof (induction rs arbitrary: s)
  case (Cons r rs)
  then show ?case by (cases s) (simp del: split_paired_All)
qed simp

lemma funpow_keeps_history:
  fixes f :: "engine \<Rightarrow> engine"
  shows "(\<And>e. en_history (f e) = en_history e) \<Longrightarrow> en_history ((f ^^ n) e) = en_history e"
  by (induction n) simp_all

lemma recover_from_wal_history:
  assumes "en_wal e = Some w" and "replay_all w = Inr rs" and "recover_from_wal sha e t = Inr (e', n, m)"
  shows "en_history e' = fold history_apply (concat (map record_ops rs)) (en_history e)"
  using assms
  by (auto simp: recover_from_wal_def Let_def case_prod_beta funpow_keeps_history rebuild_history_ops fold_keeps_history
      apply_records_history)

text \<open>A replay summary that agrees with the progress of a context.\<close>

definition agrees :: "workflow_status \<times> (u32, bytes) hash_map \<Rightarrow> progress \<Rightarrow> bool" where
  "agrees sm p \<longleftrightarrow> fst sm = pg_status p \<and> slot_map_wf (pg_results p)
     \<and> (\<forall>step. map_of (snd sm) step = SlotMap_get (pg_results p) (ucast step))"

abbreviation recorded_of :: "u64 \<Rightarrow> wal_record list \<Rightarrow> (history_event_type \<times> bytes \<times> (string, string) hash_map) list" where
  "recorded_of key rs \<equiv> fold (recorded key) (concat (map record_ops rs)) []"

lemma recorded_append: "fold (recorded key) (concat (map record_ops rs)) acc = acc @ recorded_of key rs"
proof (induction rs arbitrary: acc)
  case (Cons r rs)
  have r: "fold (recorded key) (record_ops r) acc = acc @ fold (recorded key) (record_ops r) []" for acc
    by (simp add: record_ops_def split: option.split)
  have split: "fold (recorded key) (concat (map record_ops (r # rs))) acc =
      fold (recorded key) (record_ops r) acc @ recorded_of key rs" for acc
    using Cons.IH [of "fold (recorded key) (record_ops r) acc"] by (simp only: list.map concat.simps fold_append comp_apply)
  show ?case unfolding split [of acc] split [of "[]"] by (subst r) (simp only: append_assoc)
qed simp

lemma recorded_Cons: "recorded_of key (r # rs) = fold (recorded key) (record_ops r) [] @ recorded_of key rs"
  using recorded_append [of key rs "fold (recorded key) (record_ops r) []"] by (simp only: list.map concat.simps fold_append comp_apply)

lemma abs_record_other: "wr_workflow_key r \<noteq> key \<Longrightarrow> abs_record r M key = M key"
  by (cases "wr_event_type r") (auto simp: abs_record_def Let_def)

lemma agrees_step:
  assumes "agrees sm p" and "M key = Some p" and "wr_workflow_key r = key" and "wr_event_type r \<noteq> WalWorkflowStarted"
  obtains p' where "abs_record r M key = Some p'" "agrees (fold summary (fold (recorded key) (record_ops r) []) sm) p'"
proof -
  obtain s m where sm: "sm = (s, m)" by (cases sm)
  have "\<exists>p'. abs_record r M key = Some p' \<and> agrees (fold summary (fold (recorded key) (record_ops r) []) sm) p'"
    using assms
    by (cases "wr_event_type r")
      (auto simp: sm abs_record_def record_ops_def agrees_def Let_def complete_progress_def signal_progress_def
        sm.wf_put sm.lookup_put ucast_u32_eq)
  then show thesis using that by blast
qed

lemma agrees_run:
  assumes "agrees sm p" and "M key = Some p" and "list_all (\<lambda>r. wr_workflow_key r = key \<longrightarrow> wr_event_type r \<noteq> WalWorkflowStarted) rs"
  obtains p' where "fold abs_record rs M key = Some p'" "agrees (fold summary (recorded_of key rs) sm) p'"
proof -
  have "\<exists>p'. fold abs_record rs M key = Some p' \<and> agrees (fold summary (recorded_of key rs) sm) p'"
    using assms
  proof (induction rs arbitrary: sm p M)
    case (Cons r rs)
    show ?case
    proof (cases "wr_workflow_key r = key")
      case True
      then obtain p1 where "abs_record r M key = Some p1" "agrees (fold summary (fold (recorded key) (record_ops r) []) sm) p1"
        using agrees_step [where M = M and key = key and r = r, OF Cons.prems(1,2)] Cons.prems(3) by auto
      then show ?thesis using Cons.IH Cons.prems(3) unfolding recorded_Cons by simp
    next
      case False
      then have "fold (recorded key) (record_ops r) [] = []" by (simp add: record_ops_def split: option.split)
      then show ?thesis
        using Cons.IH [OF Cons.prems(1), of "abs_record r M"] Cons.prems abs_record_other [OF False] unfolding recorded_Cons by simp
    qed
  qed simp
  then show thesis using that by blast
qed

text \<open>What a caller reads off the engine about a workflow follows from its progress.\<close>

lemma prog_reads:
  assumes "engine_ok e" and "engine_ok e'" and "prog e' = prog e"
  shows "get_status e' key = get_status e key" "get_total_steps e' key = get_total_steps e key"
    "get_current_step e' key = get_current_step e key"
    "Engine_is_step_completed e' key step = Engine_is_step_completed e key step"
    "Engine_get_step_result e' key step = Engine_get_step_result e key step"
    "Engine_has_signal e' key name = Engine_has_signal e key name"
proof -
  have "map_option progress_of (contexts e' key) = map_option progress_of (contexts e key)"
    using fun_cong [OF assms(3), of key] by (simp add: prog_def)
  then show "get_status e' key = get_status e key" "get_total_steps e' key = get_total_steps e key"
    "get_current_step e' key = get_current_step e key"
    "Engine_is_step_completed e' key step = Engine_is_step_completed e key step"
    "Engine_get_step_result e' key step = Engine_get_step_result e key step"
    "Engine_has_signal e' key name = Engine_has_signal e key name"
    using assms(1,2)
    by (auto simp: get_status_def get_total_steps_def get_current_step_def Engine_is_step_completed_def
        Engine_get_step_result_def Engine_has_signal_def with_ctx_eq progress_of_def Context_is_step_completed_def
        Context_get_step_result_def Context_has_signal_def split: option.splits)
qed

text \<open>An engine whose log means what its contexts hold, and the engine a restart makes of it.\<close>

definition in_step :: "u64 \<Rightarrow> wal_record list \<Rightarrow> engine \<Rightarrow> bool" where
  "in_step limit rs e \<longleftrightarrow> engine_ok e \<and> logged limit 3 rs e \<and> list_all encodable rs \<and> log_fits rs Map.empty
     \<and> prog e = fold abs_record rs Map.empty"

text \<open>
  A step that adds records to the log of such an engine, whatever it does to the contexts:
  recovery has what the records say.
\<close>

lemma recovery_follows_log:
  assumes "in_step limit rs e" and "logged limit 3 (rs @ new) e1" and "length (wal_segments limit (rs @ new)) \<le> 4"
    and "list_all encodable new" and "log_fits new (prog e)"
  obtains e' where "recover_from_wal sha (restarted e1 t) t = Inr (e', length (rs @ new), card (dom (contexts e')))"
    "engine_ok e'" "prog e' = fold abs_record new (prog e)"
proof -
  have e: "list_all encodable rs" "log_fits rs Map.empty" "prog e = fold abs_record rs Map.empty"
    using assms(1) by (simp_all add: in_step_def)
  have enc: "list_all encodable (rs @ new)" using e(1) assms(4) by simp
  have fits: "log_fits (rs @ new) Map.empty" using e(2,3) assms(5) by (simp add: log_fits_append)
  obtain e' where e': "recover_from_wal sha (restarted e1 t) t = Inr (e', length (rs @ new), card (dom (prog e')))"
    "engine_ok e'" "prog e' = fold abs_record (rs @ new) Map.empty"
    using recovery_of_log [OF assms(2) enc assms(3) fits, where sha = sha and t = t] .
  show thesis using that [OF e'(1) [unfolded dom_prog] e'(2)] e'(3) e(3) by simp
qed

lemma length_recorded: "length (recorded_of key rs) \<le> length rs"
proof (induction rs)
  case (Cons r rs)
  have "length (fold (recorded key) (record_ops r) []) \<le> 1" by (simp add: record_ops_def split: option.split)
  then show ?case using Cons.IH unfolding recorded_Cons by simp
qed simp

lemma agrees_log:
  assumes "rs = pre @ WalRecord_new WalWorkflowStarted key (start_record wid tid ns tq steps) # post"
    and "list_all (\<lambda>r. wr_workflow_key r \<noteq> key) pre"
    and "list_all (\<lambda>r. wr_workflow_key r = key \<longrightarrow> wr_event_type r \<noteq> WalWorkflowStarted) post"
  obtains p where "fold abs_record rs Map.empty key = Some p" "agrees (fold summary (recorded_of key rs) (Void, [])) p"
proof -
  let ?s = "WalRecord_new WalWorkflowStarted key (start_record wid tid ns tq steps)"
  have pre: "fold abs_record pre M key = M key" "recorded_of key pre = []" for M
    using assms(2) by (induction pre arbitrary: M)
      (simp_all add: abs_record_other recorded_Cons record_ops_def split: option.split)
  have "abs_record ?s (fold abs_record pre Map.empty) key = Some (new_progress wid tid ns tq steps)"
    using pre(1) [of Map.empty] by (simp add: abs_record_def WalRecord_new_def start_record_def subslice_def)
  moreover have "agrees (Running, []) (new_progress wid tid ns tq steps)"
    by (simp add: agrees_def new_progress_def SlotMap_get_map_of)
  ultimately obtain p where "fold abs_record post (abs_record ?s (fold abs_record pre Map.empty)) key = Some p"
    "agrees (fold summary (recorded_of key post) (Running, [])) p"
    using agrees_run [where M = "abs_record ?s (fold abs_record pre Map.empty)" and key = key] assms(3) by blast
  moreover have "recorded_of key rs = (WorkflowStarted, start_record wid tid ns tq steps, []) # recorded_of key post"
    unfolding assms(1) map_append concat_append fold_append comp_apply pre(2)
    unfolding recorded_Cons by (simp add: record_ops_def WalRecord_new_def)
  ultimately show thesis using that by (simp add: assms(1))
qed

lemma recovery_of_step:
  assumes "in_step limit rs e" and "length (wal_segments limit rs) \<le> 4"
  obtains e' where "recover_from_wal sha (restarted e t) t = Inr (e', length rs, card (dom (contexts e)))"
    "engine_ok e'" "prog e' = prog e" "en_history e' = fold history_apply (concat (map record_ops rs)) []"
proof -
  have log: "logged limit 3 (rs @ []) e" "length (wal_segments limit (rs @ [])) \<le> 4"
    using assms by (simp_all add: in_step_def)
  obtain e' where e': "recover_from_wal sha (restarted e t) t = Inr (e', length rs, card (dom (contexts e')))"
    "engine_ok e'" "prog e' = prog e"
    by (rule recovery_follows_log [OF assms(1) log, where sha = sha and t = t]) simp_all
  have l: "logged limit 3 rs e" "list_all encodable rs" using assms(1) by (simp_all add: in_step_def)
  note rl = restarted_logged [OF l(1), of t]
  obtain w where w: "en_wal (restarted e t) = Some w" using rl by (auto simp: logged_def)
  have "replay_all w = Inr rs" using logged_replay [OF rl l(2) _ w] assms(2) by simp
  from recover_from_wal_history [OF w this e'(1)]
  have "en_history e' = fold history_apply (concat (map record_ops rs)) (en_history (restarted e t))" .
  moreover have "en_history (restarted e t) = []"
    by (simp add: restarted_def WorkflowEngine_with_wal_def WorkflowEngine_new_def split: option.split)
  moreover have "card (dom (contexts e')) = card (dom (contexts e))" using e'(3) by (simp add: dom_prog [symmetric])
  ultimately show thesis using that e' by simp
qed

section \<open>A log cut short\<close>

text \<open>
  C14.  A crash in the middle of an append makes the log useless: when the file ends inside a
  record, recovery fails as a whole and no workflow of the log comes back.
\<close>

theorem torn_log_defeats_recovery:
  assumes "list_all encodable rs" and "encodable r" and "0 < n" and "n < length (WalRecord_encode r)"
  shows "recover_from_wal sha
      (WorkflowEngine_with_wal (Some (wal_file rs @ take n (WalRecord_encode r))) [] limit t) t
    = Inl (WalReplayFailed UnexpectedEof)"
proof -
  have "replay_all (WalManager_new (Some (wal_file rs @ take n (WalRecord_encode r))) [] limit) = Inl UnexpectedEof"
    using read_torn_file [OF assms]
    by (simp add: replay_all_def replay_old_def WalManager_replay_def WalManager_new_def WalManager_with_retention_def
        WalWriter_open_def Let_def numeral_3_eq_3)
  then show ?thesis by (simp add: recover_from_wal_def WorkflowEngine_with_wal_def)
qed

theorem torn_log_defeats_recovery_witness:
  "recover_from_wal (\<lambda>_. [])
     (WorkflowEngine_with_wal (Some (wal_file [WalRecord_new WalWorkflowStarted 7 (start_record 7 1 0 5 2)]
        @ take 5 (WalRecord_encode (WalRecord_new WalStepCompleted 7 [])))) [] 1000 \<lparr>mono = 1, epoch_ms = 1\<rparr>) \<lparr>mono = 1, epoch_ms = 1\<rparr>
   = Inl (WalReplayFailed UnexpectedEof)"
  by (rule torn_log_defeats_recovery)
    (simp_all add: encodable_def WalRecord_new_def start_record_def length_encode)


end
