(* ===== verification/Batch.thy ===== *)
theory Batch
  imports Engine_Facts
begin

text \<open>
  Batch operations of \<open>batch.rs\<close>: one call of the engine per workflow key, in order, with a result
  per key and totals; the executor keeps the results by batch id.
\<close>

section \<open>State\<close>

datatype batch_operation_type = BatchTerminate | BatchCancel | BatchSignal | BatchQueryStatus

datatype batch_status = BatchPending | BatchRunning | BatchCompleted | BatchFailed

record batch_item_result =
  bi_workflow_key :: u64
  bi_success :: bool
  bi_error_message :: "string option"

record batch_result =
  br_batch_id :: u64
  br_operation :: batch_operation_type
  br_total :: nat
  br_succeeded :: nat
  br_failed :: nat
  br_item_results :: "batch_item_result list"

record batch_operation =
  bo_batch_id :: u64
  bo_operation :: batch_operation_type
  bo_workflow_keys :: "u64 list"
  bo_signal_name_id :: "u64 option"
  bo_signal_payload :: "bytes option"
  bo_status :: batch_status
  bo_result :: "batch_result option"

record batch_executor =
  be_batches :: "(u64, batch_operation) hash_map"
  be_next_batch_id :: u64

definition BatchExecutor_new :: batch_executor where
  "BatchExecutor_new = \<lparr>be_batches = [], be_next_batch_id = 1\<rparr>"

section \<open>Execution\<close>

text \<open>The names that \<open>Debug\<close> prints for a status.\<close>

fun status_name :: "workflow_status \<Rightarrow> string" where
  "status_name Void = ''Void''"
| "status_name Running = ''Running''"
| "status_name Completed = ''Completed''"
| "status_name Failed = ''Failed''"
| "status_name Canceled = ''Canceled''"
| "status_name Terminated = ''Terminated''"
| "status_name WContinuedAsNew = ''ContinuedAsNew''"
| "status_name TimedOut = ''TimedOut''"

text \<open>One key of a batch: the engine after it, and the error if it fails.\<close>

definition batch_item ::
    "batch_operation_type \<Rightarrow> u64 option \<Rightarrow> bytes option \<Rightarrow> clock \<Rightarrow> u64 \<Rightarrow> engine \<Rightarrow> engine \<times> string option" where
  "batch_item operation name payload t key e =
     (let status = get_status e key;
          refused = (e, Some (''Workflow not running (status='' @ status_name status @ '')''))
      in case operation of
           BatchTerminate \<Rightarrow> if status = Running then (terminate_workflow e key t, None) else refused
         | BatchCancel \<Rightarrow> if status = Running then (cancel_workflow e key t, None) else refused
         | BatchSignal \<Rightarrow>
             if status = Running
             then (case (name, payload) of
                     (Some n, Some p) \<Rightarrow> (signal_workflow e key n p t, None)
                   | _ \<Rightarrow> (e, Some ''Missing signal name or payload''))
             else refused
         | BatchQueryStatus \<Rightarrow> (e, None))"

fun execute_items ::
    "batch_operation_type \<Rightarrow> u64 option \<Rightarrow> bytes option \<Rightarrow> clock \<Rightarrow> u64 list \<Rightarrow> engine \<Rightarrow> engine \<times> batch_item_result list" where
  "execute_items operation name payload t [] e = (e, [])"
| "execute_items operation name payload t (key # keys) e =
     (case batch_item operation name payload t key e of
        (e, err) \<Rightarrow>
          (case execute_items operation name payload t keys e of
             (e, rs) \<Rightarrow> (e, \<lparr>bi_workflow_key = key, bi_success = (err = None), bi_error_message = err\<rparr> # rs)))"

definition execute_batch ::
    "engine \<Rightarrow> u64 \<Rightarrow> batch_operation_type \<Rightarrow> u64 list \<Rightarrow> u64 option \<Rightarrow> bytes option \<Rightarrow> clock \<Rightarrow> engine \<times> batch_result" where
  "execute_batch e i operation keys name payload t =
     (case execute_items operation name payload t keys e of
        (e, rs) \<Rightarrow>
          (e, \<lparr>br_batch_id = i, br_operation = operation, br_total = length keys,
               br_succeeded = length (filter bi_success rs), br_failed = length (filter (\<lambda>x. \<not> bi_success x) rs),
               br_item_results = rs\<rparr>))"

definition submit_batch ::
    "batch_executor \<Rightarrow> engine \<Rightarrow> batch_operation_type \<Rightarrow> u64 list \<Rightarrow> u64 option \<Rightarrow> bytes option \<Rightarrow> clock
     \<Rightarrow> batch_executor \<times> engine \<times> u64" where
  "submit_batch be e operation keys name payload t =
     (let i = be_next_batch_id be
      in case execute_batch e i operation keys name payload t of
           (e, r) \<Rightarrow>
             (be\<lparr>be_next_batch_id := i + 1, be_batches := hm_insert (be_batches be) i
                  \<lparr>bo_batch_id = i, bo_operation = operation, bo_workflow_keys = keys, bo_signal_name_id = name,
                   bo_signal_payload = payload, bo_status = BatchCompleted, bo_result = Some r\<rparr>\<rparr>, e, i))"

definition submit_terminate :: "batch_executor \<Rightarrow> engine \<Rightarrow> u64 list \<Rightarrow> clock \<Rightarrow> batch_executor \<times> engine \<times> u64" where
  "submit_terminate be e keys t = submit_batch be e BatchTerminate keys None None t"

definition submit_cancel :: "batch_executor \<Rightarrow> engine \<Rightarrow> u64 list \<Rightarrow> clock \<Rightarrow> batch_executor \<times> engine \<times> u64" where
  "submit_cancel be e keys t = submit_batch be e BatchCancel keys None None t"

definition submit_signal ::
    "batch_executor \<Rightarrow> engine \<Rightarrow> u64 list \<Rightarrow> u64 \<Rightarrow> bytes \<Rightarrow> clock \<Rightarrow> batch_executor \<times> engine \<times> u64" where
  "submit_signal be e keys name payload t = submit_batch be e BatchSignal keys (Some name) (Some payload) t"

definition submit_query_status :: "batch_executor \<Rightarrow> engine \<Rightarrow> u64 list \<Rightarrow> clock \<Rightarrow> batch_executor \<times> engine \<times> u64" where
  "submit_query_status be e keys t = submit_batch be e BatchQueryStatus keys None None t"

definition batch_get_result :: "batch_executor \<Rightarrow> u64 \<Rightarrow> batch_result option" where
  "batch_get_result be i = (case map_of (be_batches be) i of None \<Rightarrow> None | Some b \<Rightarrow> bo_result b)"

section \<open>What a batch does\<close>

lemma get_status_contexts:
  "engine_ok e \<Longrightarrow> get_status e key = (case contexts e key of None \<Rightarrow> Void | Some c \<Rightarrow> wc_status c)"
  by (simp add: get_status_def with_ctx_eq)

lemma terminate_status:
  assumes "engine_ok e" and "get_status e key = Running"
  shows "engine_ok (terminate_workflow e key t)"
    and "get_status (terminate_workflow e key t) k = (if k = key then Terminated else get_status e k)"
proof -
  have ch: "changes_ctx e (terminate_workflow e key t) key (\<lambda>c. Context_terminate c (mono t))"
    by (rule terminate_workflow_contexts [OF assms(1)])
  then show ok: "engine_ok (terminate_workflow e key t)" by (simp add: changes_ctx_def)
  show "get_status (terminate_workflow e key t) k = (if k = key then Terminated else get_status e k)"
    using ch assms(2)
    by (simp add: get_status_contexts assms(1) ok changes_ctx_def Context_terminate_def split: option.splits)
qed

text \<open>The keys that a batch over running workflows reaches: each once.\<close>

lemma execute_terminate:
  assumes "engine_ok e" and "execute_items BatchTerminate None None t keys e = (e', rs)"
  shows "engine_ok e'"
    and "get_status e' k = (if k \<in> set keys \<and> get_status e k = Running then Terminated else get_status e k)"
    and "length (filter bi_success rs) = card {k \<in> set keys. get_status e k = Running}"
    and "length rs = length keys"
proof -
  have "engine_ok e' \<and> (\<forall>k. get_status e' k = (if k \<in> set keys \<and> get_status e k = Running then Terminated else get_status e k))
    \<and> length (filter bi_success rs) = card {k \<in> set keys. get_status e k = Running} \<and> length rs = length keys"
    using assms
  proof (induction keys arbitrary: e rs)
    case (Cons key keys)
    show ?case
    proof (cases "get_status e key = Running")
      case True
      let ?e = "terminate_workflow e key t"
      obtain rs1 where rs1: "execute_items BatchTerminate None None t keys ?e = (e', rs1)"
        "rs = \<lparr>bi_workflow_key = key, bi_success = True, bi_error_message = None\<rparr> # rs1"
        using Cons.prems(2) True by (auto simp: batch_item_def split: prod.splits)
      note te = terminate_status [OF Cons.prems(1) True, of t]
      note IH = Cons.IH [OF te(1) rs1(1)]
      have "{k \<in> set (key # keys). get_status e k = Running} = insert key {k \<in> set keys. get_status ?e k = Running}"
        using True by (auto simp: te(2))
      moreover have "key \<notin> {k \<in> set keys. get_status ?e k = Running}" by (simp add: te(2))
      ultimately have "card {k \<in> set (key # keys). get_status e k = Running} = Suc (card {k \<in> set keys. get_status ?e k = Running})"
        by simp
      then show ?thesis using IH True by (auto simp: rs1(2) te(2))
    next
      case False
      obtain rs1 where rs1: "execute_items BatchTerminate None None t keys e = (e', rs1)" "length rs = Suc (length rs1)"
        "filter bi_success rs = filter bi_success rs1"
        using Cons.prems(2) False by (auto simp: batch_item_def Let_def split: prod.splits)
      have "{k \<in> set (key # keys). get_status e k = Running} = {k \<in> set keys. get_status e k = Running}" using False by auto
      then show ?thesis using Cons.IH [OF Cons.prems(1) rs1(1)] rs1(2,3) False by auto
    qed
  qed auto
  then show "engine_ok e'"
    and "get_status e' k = (if k \<in> set keys \<and> get_status e k = Running then Terminated else get_status e k)"
    and "length (filter bi_success rs) = card {k \<in> set keys. get_status e k = Running}"
    and "length rs = length keys" by blast+
qed

text \<open>
  C40.  A batch terminates exactly the running workflows among its keys: they end as Terminated, every
  other workflow keeps its status, and the stored totals count the workflows terminated, a key
  listed twice once.
\<close>

theorem batch_terminates_running:
  assumes "engine_ok e" and "submit_terminate be e keys t = (be', e', i)"
  shows "get_status e' key = (if key \<in> set keys \<and> get_status e key = Running then Terminated else get_status e key)
    \<and> (\<exists>r. batch_get_result be' i = Some r \<and> br_total r = length keys
          \<and> br_succeeded r = card {k \<in> set keys. get_status e k = Running} \<and> br_succeeded r + br_failed r = br_total r)"
proof -
  obtain rs where rs: "execute_items BatchTerminate None None t keys e = (e', rs)"
    and be': "be' = be\<lparr>be_next_batch_id := i + 1, be_batches := hm_insert (be_batches be) i
        \<lparr>bo_batch_id = i, bo_operation = BatchTerminate, bo_workflow_keys = keys, bo_signal_name_id = None,
         bo_signal_payload = None, bo_status = BatchCompleted, bo_result = Some
           \<lparr>br_batch_id = i, br_operation = BatchTerminate, br_total = length keys,
            br_succeeded = length (filter bi_success rs), br_failed = length (filter (\<lambda>x. \<not> bi_success x) rs),
            br_item_results = rs\<rparr>\<rparr>\<rparr>"
    using assms(2) by (auto simp: submit_terminate_def submit_batch_def execute_batch_def Let_def split: prod.splits)
  note ex = execute_terminate [OF assms(1) rs]
  have "length (filter bi_success rs) + length (filter (\<lambda>x. \<not> bi_success x) rs) = length keys"
    using sum_length_filter_compl [of bi_success rs] ex(4) by simp
  then show ?thesis using ex(2,3) by (simp add: be' batch_get_result_def)
qed

theorem batch_terminates_running_witness:
  "let r = submit_terminate BatchExecutor_new sample_engine [7, 7, 9] sample_clock
   in get_status (fst (snd r)) 7 = Terminated
      \<and> map_option (\<lambda>b. (br_total b, br_succeeded b, br_failed b)) (batch_get_result (fst r) (snd (snd r))) = Some (3, 1, 2)"
proof -
  let ?r = "submit_terminate BatchExecutor_new sample_engine [7, 7, 9] sample_clock"
  have status: "get_status sample_engine k = (if k = 7 then Running else Void)" for k
    using sample_contexts(1,2)
    by (simp add: get_status_contexts sample_context_def Context_complete_step_def started_context_def WorkflowContext_new_def)
  have r: "?r = (fst ?r, fst (snd ?r), snd (snd ?r))" by simp
  have "{k \<in> set [7, 7, 9 :: u64]. get_status sample_engine k = Running} = {7}" by (auto simp: status)
  then have card: "card {k \<in> set [7, 7, 9 :: u64]. get_status sample_engine k = Running} = 1" by simp
  obtain b where "batch_get_result (fst ?r) (snd (snd ?r)) = Some b" "br_total b = length [7, 7, 9 :: u64]"
    "br_succeeded b = 1" "br_succeeded b + br_failed b = br_total b" "get_status (fst (snd ?r)) 7 = Terminated"
    using batch_terminates_running [OF sample_contexts(1) r, of 7] unfolding card by (auto simp: status)
  then show ?thesis by (simp add: Let_def)
qed

end
