(* ===== verification/Engine_Runs.thy ===== *)
theory Engine_Runs
  imports Recovery Batch
begin

text \<open>
  Runs of the engine: the calls that change its state as one data type, the records each leaves in the
  log, and which runs recovery can restore.  Every admissible call keeps the contexts in step with
  the meaning of the log, so recovery restores them; the calls that the log misses are shown to be
  undone by it.
\<close>

section \<open>Handlers the log does not see\<close>

definition keeps_progress :: "engine \<Rightarrow> engine \<Rightarrow> bool" where
  "keeps_progress e e' \<longleftrightarrow> engine_ok e' \<and> prog e' = prog e \<and> en_wal e' = en_wal e"

lemma keeps_progress_frame:
  "en_workflows e' = en_workflows e1 \<Longrightarrow> en_wal e' = en_wal e1 \<Longrightarrow> keeps_progress e e1 \<Longrightarrow> keeps_progress e e'"
  by (simp add: keeps_progress_def prog_def)

lemma keeps_progress_refl: "engine_ok e \<Longrightarrow> keeps_progress e e"
  by (simp add: keeps_progress_def)

lemma keeps_progress_with_ctx_mut:
  assumes "engine_ok e" and "\<And>c. progress_of (fst (f c)) = progress_of c"
  shows "keeps_progress e (fst (with_ctx_mut e k none f))"
  using assms
  by (auto simp: keeps_progress_def with_ctx_mut_spec prog_def fun_eq_iff option.map_comp comp_def)

lemma keeps_progress_schedule_activity:
  assumes "engine_ok e"
  shows "keeps_progress e (schedule_activity_with_timeouts e key step name args sts stc sc hb t)"
proof -
  have k: "keeps_progress e (fst (with_ctx_mut e key None (schedule_in_context step args timeouts)))" for timeouts
    by (rule keeps_progress_with_ctx_mut [OF assms]) (simp add: schedule_in_context_def Let_def progress_of_def)
  show ?thesis
    by (auto simp: schedule_activity_with_timeouts_def Let_def case_prod_beta split: option.split
        intro: keeps_progress_frame [OF _ _ k] k)
qed

lemma progress_of_next_attempt: "progress_of (fst (next_attempt scale step c)) = progress_of c"
  by (simp add: next_attempt_def progress_of_def Let_def split: option.split)

lemma keeps_progress_fail_activity:
  assumes "engine_ok e"
  shows "keeps_progress e (fst (fail_activity_with_retry scale e key step t))"
proof -
  let ?r = "with_ctx_mut e key None (next_attempt scale step)"
  have k: "keeps_progress e (fst ?r)"
    by (rule keeps_progress_with_ctx_mut [OF assms progress_of_next_attempt])
  show ?thesis
    by (auto simp: fail_activity_with_retry_def case_prod_beta split: option.split
        intro: keeps_progress_frame [OF _ _ k] k)
qed

lemma keeps_progress_fired_timer: "engine_ok e \<Longrightarrow> keeps_progress e (process_fired_timer e key t)"
proof -
  assume ok: "engine_ok e"
  let ?f = "\<lambda>(step, tq) e. enqueue_task tq (new_task ActivityTask key tq step 0 (retry_attempt e key step)) t e"
  have "en_workflows (fold ?f xs e) = en_workflows e \<and> en_wal (fold ?f xs e) = en_wal e" for xs e
    by (induction xs arbitrary: e) auto
  then show ?thesis
    by (intro keeps_progress_frame [OF _ _ keeps_progress_refl [OF ok]]) (simp_all add: process_fired_timer_def Let_def)
qed

lemma keeps_progress_timer_pass: "engine_ok e \<Longrightarrow> keeps_progress e (timer_pass e t)"
proof -
  assume ok: "engine_ok e"
  let ?f = "\<lambda>(key, i). record_history key TimerFired (to_le_bytes (i :: u64))"
  have "en_workflows (fold ?f xs e) = en_workflows e \<and> en_wal (fold ?f xs e) = en_wal e" for xs e
    by (induction xs arbitrary: e) auto
  then show ?thesis
    by (intro keeps_progress_frame [OF _ _ keeps_progress_refl [OF ok]]) (simp_all add: timer_pass_def case_prod_beta)
qed

lemma keeps_progress_schedule_timer: "engine_ok e \<Longrightarrow> keeps_progress e (fst (schedule_timer e key ms t))"
  by (rule keeps_progress_frame [OF _ _ keeps_progress_refl]) (simp_all add: schedule_timer_def case_prod_beta)

lemma keeps_progress_update_workflow:
  assumes "engine_ok e"
  shows "keeps_progress e (update_workflow e key name payload t)"
proof -
  let ?f = "\<lambda>c. if wc_status c \<noteq> Running then (c, 0) else (Context_update c name payload, wc_task_queue_hash c)"
  have k: "keeps_progress e (fst (with_ctx_mut e key 0 ?f))"
    by (rule keeps_progress_with_ctx_mut [OF assms]) (simp add: progress_of_def Context_update_def)
  then show ?thesis
    by (auto simp: update_workflow_def case_prod_beta intro: keeps_progress_frame)
qed

lemma keeps_progress_take_update:
  "engine_ok e \<Longrightarrow> keeps_progress e (fst (Engine_take_update e key name))"
  unfolding Engine_take_update_def
  by (rule keeps_progress_with_ctx_mut) (simp_all add: Context_take_update_def progress_of_def case_prod_beta)

lemma keeps_progress_set_timeout:
  "engine_ok e \<Longrightarrow> keeps_progress e (set_workflow_execution_timeout e key ms)"
  unfolding set_workflow_execution_timeout_def
  by (rule keeps_progress_with_ctx_mut) (simp_all add: progress_of_def)

lemmas keeps_progress_rules = keeps_progress_schedule_activity keeps_progress_fail_activity keeps_progress_fired_timer
  keeps_progress_timer_pass keeps_progress_schedule_timer keeps_progress_update_workflow keeps_progress_take_update
  keeps_progress_set_timeout

lemma keeps_progress_trans: "keeps_progress e e1 \<Longrightarrow> keeps_progress e1 e2 \<Longrightarrow> keeps_progress e e2"
  by (simp add: keeps_progress_def)

lemma keeps_progress_settings:
  assumes "engine_ok e"
  shows "keeps_progress e (fst (purge_expired_workflows retention e t))"
    and "keeps_progress e (with_durability_config e c t)" and "keeps_progress e (init_timers e)"
    and "keeps_progress e (Engine_shutdown e)" and "keeps_progress e (e\<lparr>en_task_queue := q\<rparr>)"
    and "keeps_progress e (e\<lparr>en_cron := s\<rparr>)" and "keeps_progress e (e\<lparr>en_breakers := b\<rparr>)"
  by (rule keeps_progress_frame [OF _ _ keeps_progress_refl [OF assms]];
      simp add: purge_expired_workflows_def with_durability_config_def init_timers_def Engine_shutdown_def Let_def)+

text \<open>The calls that change what the log is to preserve without logging it, where they are refused.\<close>

lemma take_no_signal: "\<not> Context_has_signal c name \<Longrightarrow> Context_take_signal c name = (c, None)"
  by (simp add: Context_has_signal_def SlotVec_is_empty_at_def Context_take_signal_def SlotVec_pop_front_def)

lemma keeps_progress_refused:
  assumes ok: "engine_ok e"
  shows "\<not> Engine_has_signal e key name \<Longrightarrow> keeps_progress e (fst (Engine_take_signal e key name))"
    and "get_status e key \<notin> {Running, Failed} \<Longrightarrow> keeps_progress e (fst (reset_workflow e key event))"
proof -
  show "keeps_progress e (fst (Engine_take_signal e key name))" if "\<not> Engine_has_signal e key name"
    using that ok
    by (cases "contexts e key")
      (auto simp: keeps_progress_def Engine_take_signal_def with_ctx_mut_spec prog_def fun_eq_iff Engine_has_signal_def
        with_ctx_eq take_no_signal)
  assume st: "get_status e key \<notin> {Running, Failed}"
  let ?f = "\<lambda>c. if wc_status c \<noteq> Running \<and> wc_status c \<noteq> Failed then (c, False)
         else (c\<lparr>step_results := SlotMap_retain (step_results c) (\<lambda>step v. (v, step < event)),
                 wc_slab := clear_steps_from event (wc_slab c), wc_status := Running, close_time := None\<rparr>, True)"
  have c: "contexts e key = None \<or> (\<exists>c. contexts e key = Some c \<and> ?f c = (c, False))"
    using st ok by (cases "contexts e key") (auto simp: get_status_def with_ctx_eq)
  then have "snd (with_ctx_mut e key False ?f) = False" using ok by (auto simp: with_ctx_mut_spec)
  then have "fst (reset_workflow e key event) = fst (with_ctx_mut e key False ?f)"
    by (simp add: reset_workflow_def case_prod_beta split: bool.split)
  moreover have "keeps_progress e (fst (with_ctx_mut e key False ?f))"
    using c ok by (auto simp: keeps_progress_def with_ctx_mut_spec prog_def fun_eq_iff)
  ultimately show "keeps_progress e (fst (reset_workflow e key event))" by simp
qed

section \<open>Runs\<close>

text \<open>What a list of calls produces, and whether each call is admissible, along the states they pass through.\<close>

fun along :: "('x \<Rightarrow> 's \<Rightarrow> 's) \<Rightarrow> ('x \<Rightarrow> 's \<Rightarrow> 'r list) \<Rightarrow> 'x list \<Rightarrow> 's \<Rightarrow> 'r list" where
  "along f g [] s = []"
| "along f g (x # xs) s = g x s @ along f g xs (f x s)"

fun all_along :: "('x \<Rightarrow> 's \<Rightarrow> 's) \<Rightarrow> ('x \<Rightarrow> 's \<Rightarrow> bool) \<Rightarrow> 'x list \<Rightarrow> 's \<Rightarrow> bool" where
  "all_along f P [] s \<longleftrightarrow> True"
| "all_along f P (x # xs) s \<longleftrightarrow> P x s \<and> all_along f P xs (f x s)"

lemma along_single: "along f (\<lambda>x s. [g x]) xs s = map g xs"
  by (induction xs arbitrary: s) simp_all

lemma all_along_True [simp]: "all_along f (\<lambda>x s. True) xs s"
  by (induction xs arbitrary: s) simp_all

text \<open>The calls of the engine that change its state.\<close>

datatype engine_op =
    OpStart u64 u64 u64 u64 u32 "bytes option" "(string, search_attribute_value) hash_map"
  | OpTryStart u64 u64 u64 u64 u32 "bytes option"
  | OpStartChild u64 u64 u64 u64 u32 "bytes option"
  | OpSignalWithStart u64 u64 u64 u64 u32 u64 bytes
  | OpCronFires u64
  | OpStep u64 u32 bytes | OpStepSync u64 u32 bytes | OpStepDurable u64 u32 bytes
  | OpSignal u64 u64 bytes
  | OpComplete u64 "bytes option" | OpFail u64 | OpCancel u64 | OpTerminate u64
  | OpParentClose u64 parent_close_policy | OpCheckTimeouts
  | OpBatch batch_operation_type "u64 option" "bytes option" "u64 list"
  | OpSync
  | OpScheduleActivity u64 u32 u64 bytes u64 u64 u64 u64 | OpFailActivity u64 u32
  | OpFiredTimer u64 | OpTimerPass | OpScheduleTimer u64 u64
  | OpUpdate u64 u64 bytes | OpTakeUpdate u64 u64 | OpSetTimeout u64 u64
  | OpPurgeExpired "u64 \<rightharpoonup> u64" | OpRegisterCron string u64 u64 u64 u32 u64
  | OpDurability durability_config | OpInitTimers | OpPoll u64 | OpShutdown
  | OpTakeSignal u64 u64 | OpReset u64 u64 | OpContinueAsNew u64 "bytes option" | OpPurge u64 | OpPurgeCompleted
  | OpRecover | OpEnableWal "bytes option" "(nat, bytes) hash_map" u64

fun engine_step :: "digest_fn \<Rightarrow> f64_scale \<Rightarrow> clock \<times> engine_op \<Rightarrow> engine \<Rightarrow> engine" where
  "engine_step sha scale (t, OpStart wid tid ns tq steps input attrs) e =
     fst (start_workflow_with_attrs sha e wid tid ns tq steps input attrs t)"
| "engine_step sha scale (t, OpTryStart wid tid ns tq steps input) e =
     fst (try_start_workflow sha e wid tid ns tq steps input t)"
| "engine_step sha scale (t, OpStartChild parent wid tid tq steps input) e =
     fst (start_child_workflow sha e parent wid tid tq steps input t)"
| "engine_step sha scale (t, OpSignalWithStart wid tid ns tq steps name payload) e =
     fst (signal_with_start sha e wid tid ns tq steps name payload t)"
| "engine_step sha scale (t, OpCronFires now) e = fst (process_cron_fires sha e now t)"
| "engine_step sha scale (t, OpStep key step result) e = Engine_complete_step sha e key step result t"
| "engine_step sha scale (t, OpStepSync key step result) e = complete_step_sync sha e key step result t"
| "engine_step sha scale (t, OpStepDurable key step result) e = complete_step_durable sha e key step result t"
| "engine_step sha scale (t, OpSignal key name payload) e = signal_workflow e key name payload t"
| "engine_step sha scale (t, OpComplete key result) e = complete_workflow e key result t"
| "engine_step sha scale (t, OpFail key) e = fail_workflow e key t"
| "engine_step sha scale (t, OpCancel key) e = cancel_workflow e key t"
| "engine_step sha scale (t, OpTerminate key) e = terminate_workflow e key t"
| "engine_step sha scale (t, OpParentClose parent policy) e = apply_parent_close_policy e parent policy t"
| "engine_step sha scale (t, OpCheckTimeouts) e = fst (check_workflow_timeouts e t)"
| "engine_step sha scale (t, OpBatch operation name payload keys) e = fst (execute_items operation name payload t keys e)"
| "engine_step sha scale (t, OpSync) e = sync_wal e"
| "engine_step sha scale (t, OpScheduleActivity key step name args sts stc sc hb) e =
     schedule_activity_with_timeouts e key step name args sts stc sc hb t"
| "engine_step sha scale (t, OpFailActivity key step) e = fst (fail_activity_with_retry scale e key step t)"
| "engine_step sha scale (t, OpFiredTimer key) e = process_fired_timer e key t"
| "engine_step sha scale (t, OpTimerPass) e = timer_pass e t"
| "engine_step sha scale (t, OpScheduleTimer key ms) e = fst (schedule_timer e key ms t)"
| "engine_step sha scale (t, OpUpdate key name payload) e = update_workflow e key name payload t"
| "engine_step sha scale (t, OpTakeUpdate key name) e = fst (Engine_take_update e key name)"
| "engine_step sha scale (t, OpSetTimeout key ms) e = set_workflow_execution_timeout e key ms"
| "engine_step sha scale (t, OpPurgeExpired retention) e = fst (purge_expired_workflows retention e t)"
| "engine_step sha scale (t, OpRegisterCron expression tid ns tq steps now) e =
     (case register_cron e expression tid ns tq steps now of Some (Inr (e', _)) \<Rightarrow> e' | _ \<Rightarrow> e)"
| "engine_step sha scale (t, OpDurability c) e = with_durability_config e c t"
| "engine_step sha scale (t, OpInitTimers) e = init_timers e"
| "engine_step sha scale (t, OpPoll tq) e = e\<lparr>en_task_queue := fst (try_poll (en_task_queue e) tq)\<rparr>"
| "engine_step sha scale (t, OpShutdown) e = Engine_shutdown e"
| "engine_step sha scale (t, OpTakeSignal key name) e = fst (Engine_take_signal e key name)"
| "engine_step sha scale (t, OpReset key event) e = fst (reset_workflow e key event)"
| "engine_step sha scale (t, OpContinueAsNew key input) e = fst (continue_as_new sha e key input t)"
| "engine_step sha scale (t, OpPurge key) e = purge_workflow key e"
| "engine_step sha scale (t, OpPurgeCompleted) e = fst (purge_completed e)"
| "engine_step sha scale (t, OpRecover) e = (case recover_from_wal sha e t of Inl _ \<Rightarrow> e | Inr (e', _) \<Rightarrow> e')"
| "engine_step sha scale (t, OpEnableWal found rotated limit) e = enable_wal e found rotated limit"

text \<open>The records a call leaves in the log.\<close>

abbreviation started_rec :: "u64 \<Rightarrow> u64 \<Rightarrow> u64 \<Rightarrow> u64 \<Rightarrow> u32 \<Rightarrow> wal_record" where
  "started_rec wid tid ns tq steps \<equiv> WalRecord_new WalWorkflowStarted (workflow_key_of ns wid) (start_record wid tid ns tq steps)"

abbreviation signal_rec :: "u64 \<Rightarrow> u64 \<Rightarrow> bytes \<Rightarrow> wal_record" where
  "signal_rec key name payload \<equiv> WalRecord_new WalSignalReceived key (to_le_bytes name @ payload)"

definition item_records :: "batch_operation_type \<Rightarrow> u64 option \<Rightarrow> bytes option \<Rightarrow> u64 \<Rightarrow> engine \<Rightarrow> wal_record list" where
  "item_records operation name payload key e =
     (if get_status e key \<noteq> Running then []
      else case operation of
             BatchTerminate \<Rightarrow> [WalRecord_new WalWorkflowTerminated key []]
           | BatchCancel \<Rightarrow> [WalRecord_new WalWorkflowCanceled key []]
           | BatchSignal \<Rightarrow> (case (name, payload) of (Some n, Some p) \<Rightarrow> [signal_rec key n p] | _ \<Rightarrow> [])
           | BatchQueryStatus \<Rightarrow> [])"

definition breaker_allows :: "engine \<Rightarrow> u64 \<Rightarrow> clock \<Rightarrow> bool" where
  "breaker_allows e tid t = snd (Registry_allow_request (en_breakers e) tid (epoch_ms t) (epoch_ms t) (epoch_ms t))"

definition timed_out_keys :: "engine \<Rightarrow> clock \<Rightarrow> u64 list" where
  "timed_out_keys e t = map fst (filter (\<lambda>(key, c). workflow_timed_out (mono t) c) (live_contexts e))"

definition children_of :: "engine \<Rightarrow> u64 \<Rightarrow> u64 list" where
  "children_of e parent = with_ctx e parent (\<lambda>c. case c of None \<Rightarrow> [] | Some c \<Rightarrow> child_keys c)"

fun op_records :: "clock \<times> engine_op \<Rightarrow> engine \<Rightarrow> wal_record list" where
  "op_records (t, OpStart wid tid ns tq steps input attrs) e = [started_rec wid tid ns tq steps]"
| "op_records (t, OpTryStart wid tid ns tq steps input) e =
     (if breaker_allows e tid t then [started_rec wid tid ns tq steps] else [])"
| "op_records (t, OpStartChild parent wid tid tq steps input) e = [started_rec wid tid (drop_bit 32 parent) tq steps]"
| "op_records (t, OpSignalWithStart wid tid ns tq steps name payload) e =
     (if get_status e (workflow_key_of ns wid) = Running then [] else [started_rec wid tid ns tq steps])
     @ [signal_rec (workflow_key_of ns wid) name payload]"
| "op_records (t, OpCronFires now) e =
     map (\<lambda>f. started_rec (cf_workflow_type_id f) (cf_workflow_type_id f) (cf_namespace_id f) (cf_task_queue_hash f) (cf_total_steps f))
       (snd (advance_to (en_cron e) now))"
| "op_records (t, OpStep key step result) e = [WalRecord_new WalStepCompleted key (step_record step result)]"
| "op_records (t, OpStepSync key step result) e = [WalRecord_new WalStepCompleted key (step_record step result)]"
| "op_records (t, OpStepDurable key step result) e = [WalRecord_new WalStepCompleted key (step_record step result)]"
| "op_records (t, OpSignal key name payload) e = [signal_rec key name payload]"
| "op_records (t, OpComplete key result) e = [WalRecord_new WalWorkflowCompleted key []]"
| "op_records (t, OpFail key) e = [WalRecord_new WalWorkflowFailed key []]"
| "op_records (t, OpCancel key) e = [WalRecord_new WalWorkflowCanceled key []]"
| "op_records (t, OpTerminate key) e = [WalRecord_new WalWorkflowTerminated key []]"
| "op_records (t, OpParentClose parent policy) e =
     (case policy of
        PTerminate \<Rightarrow> map (\<lambda>key. WalRecord_new WalWorkflowTerminated key []) (children_of e parent)
      | PCancel \<Rightarrow> map (\<lambda>key. WalRecord_new WalWorkflowCanceled key []) (children_of e parent)
      | PAbandon \<Rightarrow> [])"
| "op_records (t, OpCheckTimeouts) e = map (\<lambda>key. WalRecord_new WalWorkflowTerminated key []) (timed_out_keys e t)"
| "op_records (t, OpBatch operation name payload keys) e =
     along (\<lambda>key e. fst (batch_item operation name payload t key e)) (item_records operation name payload) keys e"
| "op_records _ e = []"

definition run_records :: "digest_fn \<Rightarrow> f64_scale \<Rightarrow> (clock \<times> engine_op) list \<Rightarrow> engine \<Rightarrow> wal_record list" where
  "run_records sha scale ops e = along (engine_step sha scale) op_records ops e"

text \<open>
  The runs the recovery theorem is about.  A workflow starts under a key that is not in use, in
  a bucket of the pool that is free; signals go to running workflows; payloads fit the length
  field of a record.  Calls that change the workflows without a record in the log occur only where
  they are refused: \<open>take_signal\<close> with no such signal, \<open>reset_workflow\<close> of a workflow that is neither
  running nor failed, \<open>continue_as_new\<close> or \<open>purge_workflow\<close> of an unknown workflow, \<open>purge_completed\<close> with nothing
  to purge.
  The log is neither replaced nor replayed into the engine that writes it.
\<close>

definition start_ok :: "engine \<Rightarrow> u64 \<Rightarrow> bool" where
  "start_ok e key \<longleftrightarrow> contexts e key = None \<and> pool_fits (dom (contexts e)) key"

definition start_fire :: "digest_fn \<Rightarrow> clock \<Rightarrow> cron_fire_event \<Rightarrow> engine \<Rightarrow> engine" where
  "start_fire sha t f e = fst (start_workflow_with_attrs sha e (cf_workflow_type_id f) (cf_workflow_type_id f) (cf_namespace_id f)
     (cf_task_queue_hash f) (cf_total_steps f) None [] t)"

fun op_ok :: "digest_fn \<Rightarrow> clock \<times> engine_op \<Rightarrow> engine \<Rightarrow> bool" where
  "op_ok sha (t, OpStart wid tid ns tq steps input attrs) e \<longleftrightarrow> start_ok e (workflow_key_of ns wid)"
| "op_ok sha (t, OpTryStart wid tid ns tq steps input) e \<longleftrightarrow> (breaker_allows e tid t \<longrightarrow> start_ok e (workflow_key_of ns wid))"
| "op_ok sha (t, OpStartChild parent wid tid tq steps input) e \<longleftrightarrow> start_ok e (workflow_key_of (drop_bit 32 parent) wid)"
| "op_ok sha (t, OpSignalWithStart wid tid ns tq steps name payload) e \<longleftrightarrow> length payload + 8 < 2 ^ 32
     \<and> (get_status e (workflow_key_of ns wid) = Running \<or> start_ok e (workflow_key_of ns wid))"
| "op_ok sha (t, OpCronFires now) e \<longleftrightarrow>
     all_along (start_fire sha t) (\<lambda>f e. start_ok e (workflow_key_of (cf_namespace_id f) (cf_workflow_type_id f)))
       (snd (advance_to (en_cron e) now)) e"
| "op_ok sha (t, OpStep key step result) e \<longleftrightarrow> length result + 4 < 2 ^ 32"
| "op_ok sha (t, OpStepSync key step result) e \<longleftrightarrow> length result + 4 < 2 ^ 32"
| "op_ok sha (t, OpStepDurable key step result) e \<longleftrightarrow> length result + 4 < 2 ^ 32"
| "op_ok sha (t, OpSignal key name payload) e \<longleftrightarrow>
     length payload + 8 < 2 ^ 32 \<and> (case contexts e key of None \<Rightarrow> True | Some c \<Rightarrow> wc_status c = Running)"
| "op_ok sha (t, OpBatch operation name payload keys) e \<longleftrightarrow> (case payload of None \<Rightarrow> True | Some p \<Rightarrow> length p + 8 < 2 ^ 32)"
| "op_ok sha (t, OpTakeSignal key name) e \<longleftrightarrow> \<not> Engine_has_signal e key name"
| "op_ok sha (t, OpReset key event) e \<longleftrightarrow> get_status e key \<notin> {Running, Failed}"
| "op_ok sha (t, OpContinueAsNew key input) e \<longleftrightarrow> contexts e key = None"
| "op_ok sha (t, OpPurge key) e \<longleftrightarrow> contexts e key = None"
| "op_ok sha (t, OpPurgeCompleted) e \<longleftrightarrow> snd (purge_completed e) = 0"
| "op_ok sha (t, OpRecover) e \<longleftrightarrow> False"
| "op_ok sha (t, OpEnableWal found rotated limit) e \<longleftrightarrow> False"
| "op_ok sha _ e \<longleftrightarrow> True"

definition run_ok :: "digest_fn \<Rightarrow> f64_scale \<Rightarrow> (clock \<times> engine_op) list \<Rightarrow> engine \<Rightarrow> bool" where
  "run_ok sha scale ops e = all_along (engine_step sha scale) (op_ok sha) ops e"

text \<open>A log in which no workflow is started twice.\<close>

fun starts_fresh :: "wal_record list \<Rightarrow> (u64 \<rightharpoonup> progress) \<Rightarrow> bool" where
  "starts_fresh [] M = True"
| "starts_fresh (r # rs) M =
     ((wr_event_type r = WalWorkflowStarted \<longrightarrow> M (wr_workflow_key r) = None) \<and> starts_fresh rs (abs_record r M))"

lemma starts_fresh_append: "starts_fresh (rs @ rs') M \<longleftrightarrow> starts_fresh rs M \<and> starts_fresh rs' (fold abs_record rs M)"
  by (induction rs arbitrary: M) auto

lemma starts_fresh_once:
  "starts_fresh rs M \<Longrightarrow> M key \<noteq> None \<Longrightarrow> list_all (\<lambda>r. wr_workflow_key r = key \<longrightarrow> wr_event_type r \<noteq> WalWorkflowStarted) rs"
proof (induction rs arbitrary: M)
  case (Cons r rs)
  have "abs_record r M key \<noteq> None" using dom_abs_record [of r M] Cons.prems(2) by blast
  then show ?case using Cons by auto
qed simp

text \<open>What one call leaves behind: a sound pool, its records in the log, and their meaning in the contexts.\<close>

definition step_logged :: "u64 \<Rightarrow> nat \<Rightarrow> wal_record list \<Rightarrow> wal_record list \<Rightarrow> engine \<Rightarrow> engine \<Rightarrow> bool" where
  "step_logged limit n rs new e e' \<longleftrightarrow> engine_ok e' \<and> logged limit n (rs @ new) e'
     \<and> prog e' = fold abs_record new (prog e) \<and> log_fits new (prog e) \<and> starts_fresh new (prog e) \<and> list_all encodable new"

lemma step_logged_unseen:
  "keeps_progress e e' \<Longrightarrow> logged limit n rs e \<Longrightarrow> step_logged limit n rs [] e e'"
  using logged_frame [of e' e] by (simp add: step_logged_def keeps_progress_def)

lemma step_logged_changes:
  assumes "changes_ctx e e' key f" and "logged limit n (rs @ [r]) e'"
    and "wr_workflow_key r = key" "wr_event_type r \<noteq> WalWorkflowStarted" "encodable r"
    and "\<And>c. contexts e key = Some c \<Longrightarrow> progress_of (f c) = g (progress_of c)"
    and "abs_record r (prog e) = (prog e)(key := map_option g (prog e key))"
  shows "step_logged limit n rs [r] e e'"
  using prog_changes [OF assms(1,6)] assms(2-5,7) by (simp add: step_logged_def)

lemma step_record_abs:
  "abs_record (WalRecord_new WalStepCompleted key (step_record step result)) M =
     M(key := map_option (complete_progress step result) (M key))"
  by (simp add: abs_record_def WalRecord_new_def step_record_def)

lemma step_logged_complete_step:
  assumes "changes_ctx e e' key (\<lambda>c. Context_complete_step sha c step result)"
    and "logged limit n (rs @ [WalRecord_new WalStepCompleted key (step_record step result)]) e'"
    and "length result + 4 < 2 ^ 32"
  shows "step_logged limit n rs [WalRecord_new WalStepCompleted key (step_record step result)] e e'"
  by (rule step_logged_changes [OF assms(1,2)])
    (use assms(3) in \<open>simp_all add: encodable_def step_record_def progress_of_complete_step
      WalRecord_new_def abs_record_def\<close>)

lemma step_logged_start:
  assumes ok: "engine_ok e" and log: "logged limit n rs e"
    and new: "contexts e (workflow_key_of ns wid) = None" "pool_fits (dom (contexts e)) (workflow_key_of ns wid)"
  shows "step_logged limit n rs [WalRecord_new WalWorkflowStarted (workflow_key_of ns wid) (start_record wid tid ns tq steps)] e
    (fst (start_workflow_with_attrs sha e wid tid ns tq steps input attrs t))"
proof -
  let ?k = "workflow_key_of ns wid"
  let ?e = "fst (start_workflow_with_attrs sha e wid tid ns tq steps input attrs t)"
  note c = start_workflow_contexts [OF ok new(2), of sha tid tq steps input attrs t]
  have "prog ?e = (prog e)(?k \<mapsto> new_progress wid tid ns tq steps)"
    by (simp add: prog_def c(2) fun_eq_iff)
  moreover have "abs_record (WalRecord_new WalWorkflowStarted ?k (start_record wid tid ns tq steps)) (prog e) =
      (prog e)(?k \<mapsto> new_progress wid tid ns tq steps)"
    using new(1) by (simp add: abs_record_def WalRecord_new_def start_record_def subslice_def prog_def)
  ultimately show ?thesis
    using c(1) logged_start [OF log] new
    by (simp add: step_logged_def dom_prog) (simp add: WalRecord_new_def encodable_def start_record_def dom_prog prog_def)
qed

lemma step_logged_signal:
  assumes ok: "engine_ok e" and log: "logged limit n rs e" and len: "length payload + 8 < 2 ^ 32"
    and run: "case contexts e key of None \<Rightarrow> True | Some c \<Rightarrow> wc_status c = Running"
  shows "step_logged limit n rs [WalRecord_new WalSignalReceived key (to_le_bytes name @ payload)] e
    (signal_workflow e key name payload t)"
  by (rule step_logged_changes [OF signal_workflow_contexts [OF ok] logged_signal [OF log], where g = "signal_progress name payload"])
    (use run len in \<open>auto simp: WalRecord_new_def encodable_def abs_record_def\<close>)

lemma step_logged_close:
  assumes "changes_ctx e e' key f" and "logged limit n (rs @ [WalRecord_new ty key []]) e'"
    and "\<And>c. progress_of (f c) = (progress_of c)\<lparr>pg_status := s\<rparr>"
    and "(ty, s) \<in> {(WalWorkflowCompleted, Completed), (WalWorkflowFailed, Failed), (WalWorkflowCanceled, Canceled),
      (WalWorkflowTerminated, Terminated)}"
  shows "step_logged limit n rs [WalRecord_new ty key []] e e'"
  by (rule step_logged_changes [OF assms(1,2), where g = "\<lambda>p. p\<lparr>pg_status := s\<rparr>"])
    (use assms(3,4) in \<open>auto simp: WalRecord_new_def encodable_def abs_record_def\<close>)

lemma step_logged_trans:
  "step_logged limit n rs new1 e e1 \<Longrightarrow> step_logged limit n (rs @ new1) new2 e1 e2 \<Longrightarrow> step_logged limit n rs (new1 @ new2) e e2"
  by (simp add: step_logged_def log_fits_append starts_fresh_append)

lemma step_logged_then_unseen: "step_logged limit n rs new e e1 \<Longrightarrow> keeps_progress e1 e2 \<Longrightarrow> step_logged limit n rs new e e2"
  using step_logged_trans [of limit n rs new e e1 "[]" e2] step_logged_unseen [of e1 e2 limit n "rs @ new"]
  by (simp add: step_logged_def)

lemma step_logged_after_unseen:
  "keeps_progress e e1 \<Longrightarrow> logged limit n rs e \<Longrightarrow> step_logged limit n rs new e1 e2 \<Longrightarrow> step_logged limit n rs new e e2"
  using step_logged_trans [of limit n rs "[]" e e1 new e2] step_logged_unseen [of e e1 limit n rs] by simp

lemma step_logged_fold:
  assumes step: "\<And>rs x e. engine_ok e \<Longrightarrow> logged limit n rs e \<Longrightarrow> P x e \<Longrightarrow> step_logged limit n rs (g x e) e (f x e)"
    and "engine_ok e" and "logged limit n rs e" and "all_along f P xs e"
  shows "step_logged limit n rs (along f g xs e) e (fold f xs e)"
  using assms(2-4)
proof (induction xs arbitrary: rs e)
  case Nil
  then show ?case by (simp add: step_logged_def)
next
  case (Cons x xs)
  have 1: "step_logged limit n rs (g x e) e (f x e)" using Cons.prems by (intro step) simp_all
  then have "step_logged limit n (rs @ g x e) (along f g xs (f x e)) (f x e) (fold f xs (f x e))"
    using Cons.prems(3) by (intro Cons.IH) (simp_all add: step_logged_def)
  then show ?case using step_logged_trans [OF 1] by simp
qed

section \<open>Calls made of other calls\<close>

lemma closing_logged:
  assumes "engine_ok e" and "logged limit n rs e"
  shows "step_logged limit n rs [WalRecord_new WalWorkflowCompleted key []] e (complete_workflow e key result t)"
    and "step_logged limit n rs [WalRecord_new WalWorkflowFailed key []] e (fail_workflow e key t)"
    and "step_logged limit n rs [WalRecord_new WalWorkflowCanceled key []] e (cancel_workflow e key t)"
    and "step_logged limit n rs [WalRecord_new WalWorkflowTerminated key []] e (terminate_workflow e key t)"
  using step_logged_close [OF complete_workflow_contexts [OF assms(1)] logged_closing(1) [OF assms(2)]]
    step_logged_close [OF fail_workflow_contexts [OF assms(1)] logged_closing(2) [OF assms(2)]]
    step_logged_close [OF cancel_workflow_contexts [OF assms(1)] logged_closing(3) [OF assms(2)]]
    step_logged_close [OF terminate_workflow_contexts [OF assms(1)] logged_closing(4) [OF assms(2)]] by simp_all

lemma closing_keys_logged:
  assumes "engine_ok e" and "logged limit n rs e"
  shows "step_logged limit n rs (map (\<lambda>key. WalRecord_new WalWorkflowCanceled key []) keys) e (fold (\<lambda>key e. cancel_workflow e key t) keys e)"
    and "step_logged limit n rs (map (\<lambda>key. WalRecord_new WalWorkflowTerminated key []) keys) e (fold (\<lambda>key e. terminate_workflow e key t) keys e)"
proof -
  show "step_logged limit n rs (map (\<lambda>key. WalRecord_new WalWorkflowCanceled key []) keys) e (fold (\<lambda>key e. cancel_workflow e key t) keys e)"
    using step_logged_fold [where g = "\<lambda>key e. [WalRecord_new WalWorkflowCanceled key []]" and P = "\<lambda>key e. True"
        and f = "\<lambda>key e. cancel_workflow e key t", OF closing_logged(3) assms, of keys] by (simp add: along_single)
  show "step_logged limit n rs (map (\<lambda>key. WalRecord_new WalWorkflowTerminated key []) keys) e (fold (\<lambda>key e. terminate_workflow e key t) keys e)"
    using step_logged_fold [where g = "\<lambda>key e. [WalRecord_new WalWorkflowTerminated key []]" and P = "\<lambda>key e. True"
        and f = "\<lambda>key e. terminate_workflow e key t", OF closing_logged(4) assms, of keys] by (simp add: along_single)
qed

lemma parent_close_logged:
  assumes "engine_ok e" and "logged limit n rs e"
  shows "step_logged limit n rs (op_records (t, OpParentClose parent policy) e) e (apply_parent_close_policy e parent policy t)"
proof -
  have idle: "fold (\<lambda>child e. e) keys e' = e'" for keys :: "u64 list" and e' :: engine by (induction keys) simp_all
  have e: "apply_parent_close_policy e parent policy t =
      (case policy of PTerminate \<Rightarrow> fold (\<lambda>key e. terminate_workflow e key t) (children_of e parent) e
       | PCancel \<Rightarrow> fold (\<lambda>key e. cancel_workflow e key t) (children_of e parent) e | PAbandon \<Rightarrow> e)"
    by (cases policy) (simp_all add: apply_parent_close_policy_def children_of_def Let_def idle)
  show ?thesis
    unfolding e using closing_keys_logged [OF assms] step_logged_unseen [OF keeps_progress_refl assms(2)] assms(1)
    by (cases policy) simp_all
qed

lemma execute_items_fold:
  "fst (execute_items operation name payload t keys e) = fold (\<lambda>key e. fst (batch_item operation name payload t key e)) keys e"
  by (induction keys arbitrary: e) (simp_all add: case_prod_beta)

lemma batch_item_logged:
  assumes ok: "engine_ok e" and log: "logged limit n rs e" and p: "case payload of None \<Rightarrow> True | Some p \<Rightarrow> length p + 8 < 2 ^ 32"
  shows "step_logged limit n rs (item_records operation name payload key e) e (fst (batch_item operation name payload t key e))"
proof -
  have run: "get_status e key = Running \<Longrightarrow> case contexts e key of None \<Rightarrow> True | Some c \<Rightarrow> wc_status c = Running"
    using ok by (simp add: get_status_contexts split: option.splits)
  show ?thesis
    using closing_logged [OF ok log] step_logged_unseen [OF keeps_progress_refl [OF ok] log] p
      step_logged_signal [OF ok log _ run]
    by (auto simp: item_records_def batch_item_def Let_def split: batch_operation_type.split option.split)
qed

lemma batch_logged:
  assumes "engine_ok e" and "logged limit n rs e" and "case payload of None \<Rightarrow> True | Some p \<Rightarrow> length p + 8 < 2 ^ 32"
  shows "step_logged limit n rs (op_records (t, OpBatch operation name payload keys) e) e
    (fst (execute_items operation name payload t keys e))"
  using step_logged_fold [where P = "\<lambda>key e. True", OF batch_item_logged assms(1,2)] assms(3)
  by (simp add: execute_items_fold)

lemma start_logged:
  assumes "engine_ok e" and "logged limit n rs e" and "start_ok e (workflow_key_of ns wid)"
  shows "step_logged limit n rs [started_rec wid tid ns tq steps] e
    (fst (start_workflow_with_attrs sha e wid tid ns tq steps input attrs t))"
  using step_logged_start [OF assms(1,2)] assms(3) by (simp add: start_ok_def)

lemma try_start_logged:
  assumes ok: "engine_ok e" and log: "logged limit n rs e" and op: "op_ok sha (t, OpTryStart wid tid ns tq steps input) e"
  shows "step_logged limit n rs (op_records (t, OpTryStart wid tid ns tq steps input) e) e
    (fst (try_start_workflow sha e wid tid ns tq steps input t))"
proof -
  obtain b allowed where b: "Registry_allow_request (en_breakers e) tid (epoch_ms t) (epoch_ms t) (epoch_ms t) = (b, allowed)"
    by (metis surj_pair)
  let ?e = "e\<lparr>en_breakers := b\<rparr>"
  have k: "keeps_progress e ?e" by (rule keeps_progress_settings(7) [OF ok])
  have l: "logged limit n rs ?e" using log logged_frame [of ?e e] by simp
  show ?thesis
  proof (cases allowed)
    case True
    have "step_logged limit n rs [started_rec wid tid ns tq steps] ?e (fst (start_workflow_with_attrs sha ?e wid tid ns tq steps input [] t))"
      by (rule start_logged [OF _ l]) (use ok op True b in \<open>simp_all add: breaker_allows_def start_ok_def\<close>)
    from step_logged_after_unseen [OF k log this] show ?thesis
      using True b by (simp add: try_start_workflow_def breaker_allows_def start_workflow_def)
  next
    case False
    have "keeps_progress e (call_out (IncCounter ''velocity_workflow_rejected_by_circuit_breaker_total'') ?e)"
      by (rule keeps_progress_frame [OF _ _ k]) simp_all
    from step_logged_unseen [OF this log] show ?thesis
      using False b by (simp add: try_start_workflow_def breaker_allows_def)
  qed
qed

lemma start_child_logged:
  assumes ok: "engine_ok e" and log: "logged limit n rs e" and op: "start_ok e (workflow_key_of (drop_bit 32 parent) wid)"
  shows "step_logged limit n rs [started_rec wid tid (drop_bit 32 parent) tq steps] e
    (fst (start_child_workflow sha e parent wid tid tq steps input t))"
proof -
  let ?s = "start_workflow_with_attrs sha e wid tid (drop_bit 32 parent) tq steps input [] t"
  have 1: "step_logged limit n rs [started_rec wid tid (drop_bit 32 parent) tq steps] e (fst ?s)"
    by (rule start_logged [OF ok log op])
  let ?e1 = "update_ctx parent (\<lambda>c. c\<lparr>child_keys := child_keys c @ [snd ?s]\<rparr>) (fst ?s)"
  let ?e2 = "update_ctx (snd ?s) (\<lambda>c. c\<lparr>parent_key := Some parent\<rparr>) ?e1"
  have "keeps_progress (fst ?s) ?e1"
    by (rule keeps_progress_with_ctx_mut) (use 1 in \<open>simp_all add: step_logged_def progress_of_def\<close>)
  moreover from this have "keeps_progress ?e1 ?e2"
    by (intro keeps_progress_with_ctx_mut) (simp_all add: keeps_progress_def progress_of_def)
  ultimately have k: "keeps_progress (fst ?s) ?e2" by (rule keeps_progress_trans)
  have "keeps_progress (fst ?s) (fst (start_child_workflow sha e parent wid tid tq steps input t))"
    by (rule keeps_progress_frame [OF _ _ k]) (simp_all add: start_child_workflow_def start_workflow_def Let_def case_prod_beta)
  from step_logged_then_unseen [OF 1 this] show ?thesis .
qed

lemma signal_with_start_logged:
  assumes ok: "engine_ok e" and log: "logged limit n rs e"
    and op: "op_ok sha (t, OpSignalWithStart wid tid ns tq steps name payload) e"
  shows "step_logged limit n rs (op_records (t, OpSignalWithStart wid tid ns tq steps name payload) e) e
    (fst (signal_with_start sha e wid tid ns tq steps name payload t))"
proof (cases "get_status e (workflow_key_of ns wid) = Running")
  case True
  then have "case contexts e (workflow_key_of ns wid) of None \<Rightarrow> True | Some c \<Rightarrow> wc_status c = Running"
    using ok by (simp add: get_status_contexts split: option.splits)
  then show ?thesis using True op step_logged_signal [OF ok log] by (simp add: signal_with_start_def Let_def)
next
  case False
  let ?k = "workflow_key_of ns wid"
  let ?s = "start_workflow_with_attrs sha e wid tid ns tq steps None [] t"
  have new: "start_ok e ?k" using op False by simp
  have 1: "step_logged limit n rs [started_rec wid tid ns tq steps] e (fst ?s)" by (rule start_logged [OF ok log new])
  have "contexts (fst ?s) ?k = Some (started_context sha wid (en_next_run_id e) tid ns tq steps None t)"
    using start_workflow_contexts(2) [OF ok] new by (simp add: start_ok_def)
  then have "case contexts (fst ?s) ?k of None \<Rightarrow> True | Some c \<Rightarrow> wc_status c = Running"
    by (simp add: started_context_def WorkflowContext_new_def)
  moreover have "engine_ok (fst ?s)" "logged limit n (rs @ [started_rec wid tid ns tq steps]) (fst ?s)"
    using 1 by (simp_all add: step_logged_def)
  ultimately have "step_logged limit n (rs @ [started_rec wid tid ns tq steps]) [signal_rec ?k name payload] (fst ?s)
      (signal_workflow (fst ?s) ?k name payload t)"
    using op by (intro step_logged_signal) simp_all
  from step_logged_trans [OF 1 this] show ?thesis
    using False by (simp add: signal_with_start_def Let_def start_workflow_def case_prod_beta start_workflow_pool(2))
qed

lemma cron_fires_fold:
  "fst (process_cron_fires sha e now t) =
     fold (start_fire sha t) (snd (advance_to (en_cron e) now)) (e\<lparr>en_cron := fst (advance_to (en_cron e) now)\<rparr>)"
proof -
  have "fst (fold (\<lambda>f (e, keys). case start_workflow sha e (cf_workflow_type_id f) (cf_workflow_type_id f) (cf_namespace_id f)
        (cf_task_queue_hash f) (cf_total_steps f) None t of (e, key) \<Rightarrow> (e, keys @ [key])) fires (e, keys))
      = fold (start_fire sha t) fires e" for fires e and keys :: "u64 list"
    by (induction fires arbitrary: e keys) (simp_all add: start_fire_def start_workflow_def case_prod_beta)
  then show ?thesis by (simp add: process_cron_fires_def case_prod_beta)
qed

text \<open>Whether the starts of a pass are admissible depends on the workflows alone.\<close>

lemma all_along_fires:
  "en_workflows e = en_workflows e' \<Longrightarrow> en_next_run_id e = en_next_run_id e' \<Longrightarrow>
     all_along (start_fire sha t) (\<lambda>f e. start_ok e (key f)) fires e = all_along (start_fire sha t) (\<lambda>f e. start_ok e (key f)) fires e'"
proof (induction fires arbitrary: e e')
  case (Cons f fires)
  have "en_next_run_id (start_fire sha t f e) = en_next_run_id e + 1" for e
    by (simp add: start_fire_def start_workflow_with_attrs_def Let_def log_event_def record_history_def call_out_def
        enqueue_task_def split: option.split)
  moreover have "en_workflows (start_fire sha t f e) = en_workflows (start_fire sha t f e')"
    using Cons.prems by (simp add: start_fire_def start_workflow_pool)
  ultimately have "all_along (start_fire sha t) (\<lambda>f e. start_ok e (key f)) fires (start_fire sha t f e) =
      all_along (start_fire sha t) (\<lambda>f e. start_ok e (key f)) fires (start_fire sha t f e')"
    using Cons.prems(2) by (intro Cons.IH) simp_all
  then show ?case using Cons.prems(1) by (simp add: start_ok_def)
qed simp

lemma cron_fires_logged:
  assumes ok: "engine_ok e" and log: "logged limit n rs e" and op: "op_ok sha (t, OpCronFires now) e"
  shows "step_logged limit n rs (op_records (t, OpCronFires now) e) e (fst (process_cron_fires sha e now t))"
proof -
  let ?e = "e\<lparr>en_cron := fst (advance_to (en_cron e) now)\<rparr>" and ?fires = "snd (advance_to (en_cron e) now)"
  let ?r = "\<lambda>f. started_rec (cf_workflow_type_id f) (cf_workflow_type_id f) (cf_namespace_id f) (cf_task_queue_hash f) (cf_total_steps f)"
  let ?P = "\<lambda>f e. start_ok e (workflow_key_of (cf_namespace_id f) (cf_workflow_type_id f))"
  have k: "keeps_progress e ?e" by (rule keeps_progress_settings(6) [OF ok])
  have l: "logged limit n rs ?e" using log logged_frame [of ?e e] by simp
  have "all_along (start_fire sha t) ?P ?fires ?e"
    using op all_along_fires [of ?e e sha t "\<lambda>f. workflow_key_of (cf_namespace_id f) (cf_workflow_type_id f)" ?fires] by simp
  then have "step_logged limit n rs (along (start_fire sha t) (\<lambda>f e. [?r f]) ?fires ?e) ?e (fold (start_fire sha t) ?fires ?e)"
    using l ok by (intro step_logged_fold [where P = ?P]) (simp_all add: start_fire_def start_logged)
  from step_logged_after_unseen [OF k log this] show ?thesis by (simp add: cron_fires_fold along_single)
qed

lemma register_cron_unseen:
  assumes "engine_ok e"
  shows "keeps_progress e (case register_cron e expression tid ns tq steps now of Some (Inr (e', _)) \<Rightarrow> e' | _ \<Rightarrow> e)"
  using keeps_progress_settings(6) [OF assms] keeps_progress_refl [OF assms]
  by (auto simp: register_cron_def try_then_def split: option.split sum.split prod.split)

lemma refused_calls_unseen:
  assumes ok: "engine_ok e"
  shows "contexts e key = None \<Longrightarrow> keeps_progress e (fst (continue_as_new sha e key input t))"
    and "snd (purge_completed e) = 0 \<Longrightarrow> keeps_progress e (fst (purge_completed e))"
    and "contexts e key = None \<Longrightarrow> keeps_progress e (purge_workflow key e)"
proof -
  show "keeps_progress e (purge_workflow key e)" if "contexts e key = None"
    by (rule keeps_progress_frame [OF _ _ keeps_progress_refl [OF ok]])
      (use find_key_slot_None [OF ok, of key] that in \<open>simp_all add: purge_workflow_def WorkflowContextPool_remove_def domIff\<close>)
qed (use keeps_progress_refl [OF ok] in \<open>simp_all add: continue_as_new_def with_ctx_eq [OF ok] purge_completed_def Let_def\<close>)

section \<open>Every call keeps the log in step\<close>

lemma engine_step_logged:
  assumes ok: "engine_ok e" and log: "logged limit n rs e" and op: "op_ok sha op e"
  shows "step_logged limit n rs (op_records op e) e (engine_step sha scale op e)"
proof -
  obtain t op' where c: "op = (t, op')" by (cases op)
  have steps: "length result + 4 < 2 ^ 32 \<Longrightarrow> step_logged limit n rs [WalRecord_new WalStepCompleted key (step_record step result)] e e'"
    if "e' = Engine_complete_step sha e key step result t \<or> e' = complete_step_sync sha e key step result t
      \<or> e' = complete_step_durable sha e key step result t" for e' key step result
    using that step_logged_complete_step [OF Engine_complete_step_contexts [OF ok] logged_complete_step [OF log]]
      step_logged_complete_step [OF complete_step_sync_contexts [OF ok] logged_complete_step_sync [OF log]]
      step_logged_complete_step [OF complete_step_durable_contexts [OF ok] logged_complete_step_durable [OF log]] by blast
  have sync: "step_logged limit n rs [] e (sync_wal e)"
    using ok logged_sync_wal [OF log] by (simp add: step_logged_def prog_def)
  have timeouts: "fst (check_workflow_timeouts e t) = fold (\<lambda>key e. terminate_workflow e key t) (timed_out_keys e t) e"
    by (simp add: check_workflow_timeouts_def timed_out_keys_def Let_def)
  note unseen = step_logged_unseen [OF _ log]
  show ?thesis
    using op unfolding c
    by (cases op')
      (simp_all add: start_logged [OF ok log] try_start_logged [OF ok log, simplified] start_child_logged [OF ok log]
        signal_with_start_logged [OF ok log, simplified] cron_fires_logged [OF ok log, simplified] steps sync
        step_logged_signal [OF ok log] closing_logged [OF ok log] parent_close_logged [OF ok log, simplified]
        timeouts closing_keys_logged [OF ok log] batch_logged [OF ok log, simplified]
        unseen keeps_progress_rules [OF ok] keeps_progress_settings [OF ok] keeps_progress_refused [OF ok]
        register_cron_unseen [OF ok] refused_calls_unseen [OF ok])
qed

lemma engine_run_logged:
  assumes "engine_ok e" and "logged limit n rs e" and "run_ok sha scale ops e"
  shows "step_logged limit n rs (run_records sha scale ops e) e (fold (engine_step sha scale) ops e)"
  unfolding run_records_def
  by (rule step_logged_fold [where P = "op_ok sha", OF engine_step_logged assms(1,2) assms(3) [unfolded run_ok_def]])

lemma run_in_step:
  assumes "run_ok sha scale ops (WorkflowEngine_with_wal None [] limit t0)"
  shows "in_step limit (run_records sha scale ops (WorkflowEngine_with_wal None [] limit t0))
    (fold (engine_step sha scale) ops (WorkflowEngine_with_wal None [] limit t0))"
  using engine_run_logged [OF _ new_engine_logged assms] by (simp add: in_step_def step_logged_def)

lemma run_starts_fresh:
  assumes "run_ok sha scale ops (WorkflowEngine_with_wal None [] limit t0)"
  shows "starts_fresh (run_records sha scale ops (WorkflowEngine_with_wal None [] limit t0)) Map.empty"
  using engine_run_logged [OF _ new_engine_logged assms] by (simp add: step_logged_def)

lemma find_first: "find P xs = Some x \<Longrightarrow> \<exists>pre post. xs = pre @ x # post \<and> list_all (\<lambda>y. \<not> P y) pre"
proof (induction xs)
  case (Cons y ys)
  show ?case
  proof (cases "P y")
    case True
    then show ?thesis using Cons.prems by (intro exI [of _ "[]"] exI [of _ ys]) auto
  next
    case False
    then obtain pre post where "ys = pre @ x # post" "list_all (\<lambda>y. \<not> P y) pre" using Cons by auto
    then have "y # ys = (y # pre) @ x # post \<and> list_all (\<lambda>y. \<not> P y) (y # pre)" using False by simp
    then show ?thesis by blast
  qed
qed simp

lemma prog_take_signal:
  assumes "engine_ok e" and "engine_ok e'" and "prog e' = prog e"
  shows "snd (Engine_take_signal e' key name) = snd (Engine_take_signal e key name)"
proof -
  have "map_option progress_of (contexts e' key) = map_option progress_of (contexts e key)"
    using fun_cong [OF assms(3), of key] by (simp add: prog_def)
  then show ?thesis
    using assms(1,2)
    by (auto simp: Engine_take_signal_def with_ctx_mut_spec progress_of_def Context_take_signal_def case_prod_beta split: option.splits)
qed

section \<open>Properties\<close>

text \<open>
  C1.  Recovery restores the workflows: take any run of the engine's calls from an empty log in which
  every workflow starts under an unused key whose bucket of the context pool is free, signals go to
  running workflows, payloads fit a record, at most three log files were rotated away, and
  \<open>take_signal\<close>, \<open>reset_workflow\<close>, \<open>continue_as_new\<close>, \<open>purge_workflow\<close> and \<open>purge_completed\<close>, which log nothing, occur
  only where they find nothing to do, and the log is neither replaced nor replayed into the running engine.  A new engine that replays the files then has for every workflow the same
  status, steps, results, current step and signals, and reports as many workflows as there were.
\<close>

theorem recovery_restores_workflows:
  assumes "run_ok sha scale ops (WorkflowEngine_with_wal None [] limit t0)"
    and "e = fold (engine_step sha scale) ops (WorkflowEngine_with_wal None [] limit t0)"
    and "rs = run_records sha scale ops (WorkflowEngine_with_wal None [] limit t0)"
    and "length (wal_segments limit rs) \<le> 4"
  shows "\<exists>e'. recover_from_wal sha (restarted e t) t = Inr (e', length rs, card (dom (contexts e)))
    \<and> get_status e' key = get_status e key \<and> get_total_steps e' key = get_total_steps e key
    \<and> get_current_step e' key = get_current_step e key
    \<and> Engine_is_step_completed e' key step = Engine_is_step_completed e key step
    \<and> Engine_get_step_result e' key step = Engine_get_step_result e key step
    \<and> Engine_has_signal e' key name = Engine_has_signal e key name
    \<and> snd (Engine_take_signal e' key name) = snd (Engine_take_signal e key name)"
proof -
  have e: "in_step limit rs e" unfolding assms(2,3) by (rule run_in_step [OF assms(1)])
  obtain e' where e': "recover_from_wal sha (restarted e t) t = Inr (e', length rs, card (dom (contexts e)))"
    "engine_ok e'" "prog e' = prog e"
    using recovery_of_step [OF e assms(4)] .
  have ok: "engine_ok e" using e by (simp add: in_step_def)
  show ?thesis using prog_reads [OF ok e'(2,3)] prog_take_signal [OF ok e'(2,3)] e'(1) by blast
qed

definition sample_run :: "(clock \<times> engine_op) list" where
  "sample_run = [(sample_clock, OpStart 7 1 0 5 2 None []), (sample_clock, OpStep 7 0 [1])]"

abbreviation sample_start :: engine where
  "sample_start \<equiv> WorkflowEngine_with_wal None [] 1000 sample_clock"

abbreviation sample_records :: "(clock \<times> engine_op) list \<Rightarrow> wal_record list" where
  "sample_records ops \<equiv> run_records (\<lambda>_. []) (\<lambda>_ _ _. 0) ops sample_start"

lemma sample_run_facts:
  "sample_engine = fold (engine_step (\<lambda>_. []) (\<lambda>_ _ _. 0)) sample_run sample_start"
  "sample_records sample_run = [started_rec 7 1 0 5 2, WalRecord_new WalStepCompleted 7 (step_record 0 [1])]"
  "run_ok (\<lambda>_. []) (\<lambda>_ _ _. 0) sample_run sample_start"
  by (simp_all add: sample_run_def sample_engine_def run_records_def run_ok_def start_ok_def pool_fits_def)

lemma sample_segments: "length (wal_segments 1000 (sample_records sample_run)) \<le> 4"
  unfolding sample_run_facts(2) wal_segments_def by (simp add: add_to_segments_def Let_def)

theorem recovery_restores_workflows_witness:
  "\<exists>e'. recover_from_wal (\<lambda>_. []) (restarted sample_engine sample_clock) sample_clock
      = Inr (e', 2, card (dom (contexts sample_engine)))
     \<and> Engine_get_step_result e' 7 0 = Engine_get_step_result sample_engine 7 0"
proof -
  have n: "length (sample_records sample_run) = 2" by (simp add: sample_run_facts(2))
  from recovery_restores_workflows [OF sample_run_facts(3,1) refl sample_segments, of sample_clock 7 0 0]
  show ?thesis unfolding n by blast
qed

text \<open>
  C10.  The replay engine agrees with recovery: after a run as in C1, for a workflow whose first record
  in the log is its start, and a log of at most 100000 records, replaying the history that recovery rebuilt
  yields the status and the step results of the recovered context.
\<close>

theorem replay_agrees_with_recovery:
  assumes "run_ok sha scale ops (WorkflowEngine_with_wal None [] limit t0)"
    and "e = fold (engine_step sha scale) ops (WorkflowEngine_with_wal None [] limit t0)"
    and "rs = run_records sha scale ops (WorkflowEngine_with_wal None [] limit t0)"
    and "length (wal_segments limit rs) \<le> 4" and "length rs \<le> 100000"
    and "find (\<lambda>r. wr_workflow_key r = key) rs = Some (WalRecord_new WalWorkflowStarted key (start_record wid tid ns tq steps))"
  shows "\<exists>e'. recover_from_wal sha (restarted e t) t = Inr (e', length rs, card (dom (contexts e)))
    \<and> (let r = snd (replay_from_store ReplayEngine_new key (en_history e') None)
       in rr_status r = get_status e' key \<and> map_of (rr_step_results r) step = Engine_get_step_result e' key step)"
proof -
  have e: "in_step limit rs e" unfolding assms(2,3) by (rule run_in_step [OF assms(1)])
  obtain e' where e': "recover_from_wal sha (restarted e t) t = Inr (e', length rs, card (dom (contexts e)))"
    "engine_ok e'" "prog e' = prog e" "en_history e' = fold history_apply (concat (map record_ops rs)) []"
    using recovery_of_step [OF e assms(4)] .
  let ?s = "WalRecord_new WalWorkflowStarted key (start_record wid tid ns tq steps)"
  obtain pre post where split: "rs = pre @ ?s # post" "list_all (\<lambda>r. wr_workflow_key r \<noteq> key) pre"
    using find_first [OF assms(6)] by blast
  have fresh: "starts_fresh post (abs_record ?s (fold abs_record pre Map.empty))"
    "fold abs_record pre Map.empty key = None"
    using run_starts_fresh [OF assms(1)] unfolding assms(3) [symmetric] split(1)
    by (simp_all add: starts_fresh_append WalRecord_new_def)
  have "abs_record ?s (fold abs_record pre Map.empty) key \<noteq> None"
    using fresh(2) by (simp add: abs_record_def WalRecord_new_def start_record_def subslice_def)
  from starts_fresh_once [OF fresh(1) this] obtain p where p: "fold abs_record rs Map.empty key = Some p"
    "agrees (fold summary (recorded_of key rs) (Void, [])) p"
    using agrees_log [OF split] by blast
  have prog: "prog e' key = Some p" using p(1) e'(3) e by (simp add: in_step_def)
  let ?h = "case get_history (en_history e') key of None \<Rightarrow> [] | Some h \<Rightarrow> h"
  have h: "?h = events (history_of (en_history e') key)"
    by (simp add: get_history_def get_or_def WorkflowHistory_new_def split: option.split)
  have data: "map event_data ?h = recorded_of key rs"
    using store_run [OF store_inv_empty, of key "[]" "concat (map record_ops rs)"]
    unfolding h e'(4) [symmetric] by (simp add: WorkflowHistory_new_def)
  have "length ?h \<le> 100000"
    using length_recorded [of key "rs"] assms(5) arg_cong [OF data, of length] by simp
  from replay_summary [OF this, of key]
  have "agrees (summary_of (snd (replay_from_store ReplayEngine_new key (en_history e') None))) p"
    using p(2) by (simp add: data replay_from_store_def case_prod_beta)
  moreover obtain c where "contexts e' key = Some c" "p = progress_of c" using prog by (auto simp: prog_def)
  ultimately have "let r = snd (replay_from_store ReplayEngine_new key (en_history e') None)
      in rr_status r = get_status e' key \<and> map_of (rr_step_results r) step = Engine_get_step_result e' key step"
    by (simp add: agrees_def Let_def get_status_def Engine_get_step_result_def with_ctx_eq [OF e'(2)] progress_of_def
        Context_get_step_result_def)
  then show ?thesis using e'(1) by blast
qed

theorem replay_agrees_with_recovery_witness:
  "\<exists>e'. recover_from_wal (\<lambda>_. []) (restarted sample_engine sample_clock) sample_clock = Inr (e', 2, card (dom (contexts sample_engine)))
    \<and> (let r = snd (replay_from_store ReplayEngine_new (workflow_key_of 0 7) (en_history e') None)
       in rr_status r = get_status e' (workflow_key_of 0 7)
          \<and> map_of (rr_step_results r) 0 = Engine_get_step_result e' (workflow_key_of 0 7) 0)"
proof -
  have n: "length (sample_records sample_run) = 2" by (simp add: sample_run_facts(2))
  have "find (\<lambda>r. wr_workflow_key r = workflow_key_of 0 7) (sample_records sample_run) = Some (started_rec 7 1 0 5 2)"
    by (simp add: sample_run_facts(2) WalRecord_new_def)
  from replay_agrees_with_recovery [OF sample_run_facts(3,1) refl sample_segments _ this, where t = sample_clock and step = 0]
  show ?thesis unfolding n by simp
qed

lemma continue_as_new_contexts:
  assumes ok: "engine_ok e" and c: "contexts e key = Some c"
    and nz: "wc_workflow_id c \<noteq> 0 \<or> wc_workflow_type_id c \<noteq> 0 \<or> wc_namespace_id c \<noteq> 0"
    and new: "new = workflow_key_of (wc_namespace_id c) (en_next_run_id e)" and fits: "pool_fits (dom (contexts e)) new"
  shows "snd (continue_as_new sha e key input t) = new"
    and "engine_ok (fst (continue_as_new sha e key input t))"
    and "contexts (fst (continue_as_new sha e key input t)) = (contexts e)
      (key \<mapsto> c\<lparr>wc_status := WContinuedAsNew, close_time := Some (mono t)\<rparr>,
       new \<mapsto> started_context sha (en_next_run_id e) (en_next_run_id e) (wc_workflow_type_id c) (wc_namespace_id c)
         (wc_task_queue_hash c) (sh_total_steps (wc_slab c)) input t)"
    and "en_wal (fst (continue_as_new sha e key input t)) = en_wal e"
proof -
  let ?f = "\<lambda>c. c\<lparr>wc_status := WContinuedAsNew, close_time := Some (mono t)\<rparr>"
  let ?u = "update_ctx key ?f e"
  let ?n = "started_context sha (en_next_run_id e) (en_next_run_id e) (wc_workflow_type_id c) (wc_namespace_id c)
         (wc_task_queue_hash c) (sh_total_steps (wc_slab c)) input t"
  have u: "engine_ok ?u" "contexts ?u = (contexts e)(key \<mapsto> ?f c)"
    using with_ctx_mut_spec [OF ok, of key "()" "\<lambda>c. (?f c, ())"] c by simp_all
  have "dom (contexts ?u) = dom (contexts e)" using c u(2) by auto
  then have ins: "ctx_pool_wf (fst (WorkflowContextPool_insert (en_workflows ?u) new ?n))"
    "pool_map (fst (WorkflowContextPool_insert (en_workflows ?u) new ?n)) = (contexts ?u)(new \<mapsto> ?n)"
    using pool_insert_spec [OF u(1), of new ?n] fits by simp_all
  have rid: "en_next_run_id (record_history k1 ty d1 (show_status k2 st ct ?u)) = en_next_run_id e" for k1 ty d1 k2 st ct
    by (simp add: record_history_def show_status_def with_ctx_mut_def case_prod_beta)
  have upd: "en_workflows (e\<lparr>en_workflows := w, en_visibility := v\<rparr>) = w" "en_wal (e\<lparr>en_workflows := w, en_visibility := v\<rparr>) = en_wal e"
    "en_workflows (e\<lparr>en_next_run_id := n\<rparr>) = en_workflows e" "en_wal (e\<lparr>en_next_run_id := n\<rparr>) = en_wal e" for e w v n by simp_all
  have neg: "(wc_workflow_id c = 0 \<and> wc_workflow_type_id c = 0 \<and> wc_namespace_id c = 0) = False" using nz by blast
  have wf: "en_workflows (fst (continue_as_new sha e key input t)) =
      fst (WorkflowContextPool_insert (en_workflows ?u) new ?n)"
    and "snd (continue_as_new sha e key input t) = new"
    and "en_wal (fst (continue_as_new sha e key input t)) = en_wal e"
    unfolding continue_as_new_def with_ctx_eq [OF ok] c Let_def rid new neg option.case prod.case if_False fst_conv snd_conv
    by (simp_all only: engine_frame upd)
  then show "snd (continue_as_new sha e key input t) = new" "en_wal (fst (continue_as_new sha e key input t)) = en_wal e"
    by blast+
  show "engine_ok (fst (continue_as_new sha e key input t))" unfolding wf by (rule ins(1))
  show "contexts (fst (continue_as_new sha e key input t)) = (contexts e)(key \<mapsto> ?f c, new \<mapsto> ?n)"
    unfolding wf ins(2) u(2) by simp
qed

lemma reads_of_contexts:
  assumes "engine_ok e"
  shows "get_status e key = (case contexts e key of None \<Rightarrow> Void | Some c \<Rightarrow> wc_status c)"
    and "map_option signal_buffer (contexts e key) = map_option pg_signals (prog e key)"
  by (simp_all add: get_status_def with_ctx_eq [OF assms] prog_def option.map_comp comp_def progress_of_def)

lemma prog_status: "engine_ok e \<Longrightarrow> get_status e key = (case prog e key of None \<Rightarrow> Void | Some p \<Rightarrow> pg_status p)"
  by (simp add: reads_of_contexts prog_def progress_of_def split: option.split)

text \<open>
  C15.  A restart under a key in use does not survive a crash: the new run is Running, but
  the log's second start record is skipped on replay, so the recovered engine has the
  status of the run before it.
\<close>

theorem restart_lost_on_recovery:
  assumes "run_ok sha scale ops (WorkflowEngine_with_wal None [] limit t0)"
    and "e = fold (engine_step sha scale) ops (WorkflowEngine_with_wal None [] limit t0)"
    and "rs = run_records sha scale ops (WorkflowEngine_with_wal None [] limit t0)"
    and "contexts e (workflow_key_of ns wid) \<noteq> None"
    and "e1 = fst (start_workflow_with_attrs sha e wid tid ns tq steps input attrs t)"
    and "length (wal_segments limit (rs
          @ [WalRecord_new WalWorkflowStarted (workflow_key_of ns wid) (start_record wid tid ns tq steps)])) \<le> 4"
  shows "get_status e1 (workflow_key_of ns wid) = Running
    \<and> (\<exists>e'. recover_from_wal sha (restarted e1 t) t = Inr (e', Suc (length rs), card (dom (contexts e)))
          \<and> get_status e' (workflow_key_of ns wid) = get_status e (workflow_key_of ns wid))"
proof -
  let ?k = "workflow_key_of ns wid"
  let ?r = "WalRecord_new WalWorkflowStarted ?k (start_record wid tid ns tq steps)"
  have e: "in_step limit rs e" unfolding assms(2,3) by (rule run_in_step [OF assms(1)])
  then have ok: "engine_ok e" by (simp add: in_step_def)
  have fits: "pool_fits (dom (contexts e)) ?k" using pool_fits_self [OF ok] assms(4) by blast
  have log: "logged limit 3 (rs @ [?r]) e1"
    using e logged_start unfolding assms(5) in_step_def by blast
  have "prog e ?k \<noteq> None" using assms(4) by (simp add: prog_def)
  then have abs: "abs_record ?r (prog e) = prog e" by (simp add: abs_record_def WalRecord_new_def)
  obtain e' where e': "recover_from_wal sha (restarted e1 t) t = Inr (e', Suc (length rs), card (dom (contexts e')))"
    "engine_ok e'" "prog e' = prog e"
    by (rule recovery_follows_log [OF e log assms(6), where sha = sha and t = t])
      (use fits abs in \<open>simp_all add: WalRecord_new_def encodable_def start_record_def dom_prog\<close>)
  have n: "card (dom (contexts e')) = card (dom (contexts e))" using e'(3) by (simp add: dom_prog [symmetric])
  have "engine_ok e1" "contexts e1 ?k = Some (started_context sha wid (en_next_run_id e) tid ns tq steps input t)"
    using start_workflow_contexts [OF ok fits] by (simp_all add: assms(5))
  then have "get_status e1 ?k = Running"
    by (simp add: reads_of_contexts started_context_def WorkflowContext_new_def)
  moreover have "get_status e' ?k = get_status e ?k" using e'(3) by (simp add: prog_status ok e'(2))
  ultimately show ?thesis using e'(1) unfolding n by blast
qed

definition closed_run :: "(clock \<times> engine_op) list" where
  "closed_run = sample_run @ [(sample_clock, OpComplete 7 None)]"

definition closed_engine :: engine where
  "closed_engine = complete_workflow sample_engine 7 None sample_clock"

lemma along_append: "along f g (xs @ ys) s = along f g xs s @ along f g ys (fold f xs s)"
  by (induction xs arbitrary: s) simp_all

lemma all_along_append: "all_along f P (xs @ ys) s \<longleftrightarrow> all_along f P xs s \<and> all_along f P ys (fold f xs s)"
  by (induction xs arbitrary: s) simp_all

lemma closed_run_facts:
  "run_ok (\<lambda>_. []) (\<lambda>_ _ _. 0) closed_run sample_start"
  "closed_engine = fold (engine_step (\<lambda>_. []) (\<lambda>_ _ _. 0)) closed_run sample_start"
  "sample_records closed_run = sample_records sample_run @ [WalRecord_new WalWorkflowCompleted 7 []]"
  "contexts closed_engine = [7 \<mapsto> Context_complete sample_context None (mono sample_clock)]" "engine_ok closed_engine"
  using sample_run_facts(3) complete_workflow_contexts [OF sample_contexts(1), of 7 None sample_clock] sample_contexts(2)
  by (simp_all add: closed_run_def closed_engine_def sample_run_facts(1) [symmetric] run_records_def run_ok_def changes_ctx_def
      along_append all_along_append)

lemma closed_segments:
  "length (wal_segments 1000 (sample_records closed_run @ [WalRecord_new ty k data])) \<le> 4"
  unfolding closed_run_facts(3) sample_run_facts(2) wal_segments_def
  by (simp add: add_to_segments_def Let_def wal_file_def wal_header_def WAL_MAGIC_def length_encode WalRecord_new_def
      start_record_def)

theorem restart_lost_on_recovery_witness:
  "get_status (fst (start_workflow_with_attrs (\<lambda>_. []) closed_engine 7 1 0 5 2 None [] sample_clock)) (workflow_key_of 0 7) = Running
   \<and> (\<exists>e'. recover_from_wal (\<lambda>_. [])
           (restarted (fst (start_workflow_with_attrs (\<lambda>_. []) closed_engine 7 1 0 5 2 None [] sample_clock)) sample_clock) sample_clock
         = Inr (e', 4, card (dom (contexts closed_engine)))
       \<and> get_status e' (workflow_key_of 0 7) = Completed)"
proof -
  have key: "workflow_key_of 0 7 = 7" by (simp add: workflow_key_of_def)
  have old: "get_status closed_engine (workflow_key_of 0 7) = Completed"
    using closed_run_facts(4,5) by (simp add: reads_of_contexts key Context_complete_def)
  have c: "contexts closed_engine (workflow_key_of 0 7) \<noteq> None" by (simp add: closed_run_facts(4) key)
  have segs: "length (wal_segments 1000 (sample_records closed_run @
      [WalRecord_new WalWorkflowStarted (workflow_key_of 0 7) (start_record 7 1 0 5 2)])) \<le> 4"
    by (rule closed_segments)
  have n: "Suc (length (sample_records closed_run)) = 4" by (simp add: closed_run_facts(3) sample_run_facts(2))
  show ?thesis
    using restart_lost_on_recovery [OF closed_run_facts(1,2) refl c refl segs, of None "[]" sample_clock]
    unfolding old n by blast
qed

text \<open>
  C16.  Continuing as a new run leaves no trace in the log: the old run is closed and the new
  one Running, but after a crash both have the status they had before the call.
\<close>

theorem continue_as_new_lost_on_recovery:
  assumes "run_ok sha scale ops (WorkflowEngine_with_wal None [] limit t0)"
    and "e = fold (engine_step sha scale) ops (WorkflowEngine_with_wal None [] limit t0)"
    and "rs = run_records sha scale ops (WorkflowEngine_with_wal None [] limit t0)"
    and "length (wal_segments limit rs) \<le> 4"
    and "contexts e key = Some c" and "wc_workflow_id c \<noteq> 0"
    and "continue_as_new sha e key input t = (e1, new)"
    and "new = workflow_key_of (wc_namespace_id c) (en_next_run_id e)"
    and "pool_fits (dom (contexts e)) new" and "new \<noteq> key"
  shows "get_status e1 key = WContinuedAsNew \<and> get_status e1 new = Running
    \<and> (\<exists>e'. recover_from_wal sha (restarted e1 t) t = Inr (e', length rs, card (dom (contexts e)))
          \<and> get_status e' key = get_status e key \<and> get_status e' new = get_status e new)"
proof -
  have e: "in_step limit rs e" unfolding assms(2,3) by (rule run_in_step [OF assms(1)])
  then have ok: "engine_ok e" by (simp add: in_step_def)
  have e1: "e1 = fst (continue_as_new sha e key input t)" using assms(7) by simp
  note can = continue_as_new_contexts [OF ok assms(5) disjI1 [OF assms(6)] assms(8,9), of sha input t, folded e1]
  have log: "logged limit 3 (rs @ []) e1" "length (wal_segments limit (rs @ [])) \<le> 4"
    using e assms(4) logged_frame [OF can(4)] by (simp_all add: in_step_def)
  obtain e' where e': "recover_from_wal sha (restarted e1 t) t = Inr (e', length rs, card (dom (contexts e')))"
    "engine_ok e'" "prog e' = prog e"
    by (rule recovery_follows_log [OF e log, where sha = sha and t = t]) simp_all
  have n: "card (dom (contexts e')) = card (dom (contexts e))" using e'(3) by (simp add: dom_prog [symmetric])
  have "get_status e1 key = WContinuedAsNew" "get_status e1 new = Running"
    using assms(10) by (simp_all add: reads_of_contexts can(2,3) started_context_def WorkflowContext_new_def)
  moreover have "get_status e' k = get_status e k" for k using e'(3) by (simp add: prog_status ok e'(2))
  ultimately show ?thesis using e'(1) unfolding n by blast
qed

theorem continue_as_new_lost_on_recovery_witness:
  "get_status (fst (continue_as_new (\<lambda>_. []) sample_engine 7 None sample_clock)) 7 = WContinuedAsNew
   \<and> (\<exists>e'. recover_from_wal (\<lambda>_. [])
           (restarted (fst (continue_as_new (\<lambda>_. []) sample_engine 7 None sample_clock)) sample_clock) sample_clock
         = Inr (e', 2, card (dom (contexts sample_engine)))
       \<and> get_status e' 7 = get_status sample_engine 7)"
proof -
  have c: "contexts sample_engine 7 = Some sample_context" by (simp add: sample_contexts)
  have ids: "wc_workflow_id sample_context = 7" "wc_namespace_id sample_context = 0"
    by (simp_all add: sample_context_def Context_complete_step_def started_context_def WorkflowContext_new_def)
  have new: "workflow_key_of (wc_namespace_id sample_context) (en_next_run_id sample_engine) = 2"
    by (simp add: ids sample_contexts(3) workflow_key_of_def)
  have fits: "pool_fits (dom (contexts sample_engine)) 2"
    by (simp add: sample_contexts pool_fits_def) code_simp
  have "snd (continue_as_new (\<lambda>_. []) sample_engine 7 None sample_clock) = 2"
    by (rule continue_as_new_contexts(1) [OF sample_contexts(1) c _ new [symmetric] fits]) (simp add: ids)
  then have can: "continue_as_new (\<lambda>_. []) sample_engine 7 None sample_clock =
      (fst (continue_as_new (\<lambda>_. []) sample_engine 7 None sample_clock), 2)" by (metis prod.collapse)
  have n: "length (sample_records sample_run) = 2" by (simp add: sample_run_facts(2))
  show ?thesis
    using continue_as_new_lost_on_recovery [OF sample_run_facts(3,1) refl sample_segments c _ can new [symmetric] fits]
    unfolding n by (simp add: ids) blast
qed

lemma unlogged_calls_wal:
  "en_wal (fst (Engine_take_signal e key name)) = en_wal e"
  "en_wal (fst (reset_workflow e key event)) = en_wal e"
  "en_wal (fst (purge_completed e)) = en_wal e"
  "en_wal (purge_workflow key e) = en_wal e"
proof -
  have "en_wal (fold purge_workflow keys e) = en_wal e" for keys
    by (induction keys arbitrary: e) (simp_all add: purge_workflow_def)
  then show "en_wal (fst (purge_completed e)) = en_wal e" by (simp add: purge_completed_def Let_def)
qed (simp_all add: Engine_take_signal_def reset_workflow_def purge_workflow_def case_prod_beta split: bool.split)

text \<open>
  C17.  Recovery undoes the calls that log nothing: after a run as in C1, a crash behind \<open>take_signal\<close>,
  \<open>reset_workflow\<close>, \<open>purge_workflow\<close> or \<open>purge_completed\<close> brings back what was there before the call.  A signal that was taken is
  handed out again, the steps and results a reset dropped are complete again, and purged workflows return.
\<close>

theorem unlogged_calls_undone_by_recovery:
  assumes "run_ok sha scale ops (WorkflowEngine_with_wal None [] limit t0)"
    and "e = fold (engine_step sha scale) ops (WorkflowEngine_with_wal None [] limit t0)"
    and "rs = run_records sha scale ops (WorkflowEngine_with_wal None [] limit t0)"
    and "length (wal_segments limit rs) \<le> 4"
    and "e1 \<in> {fst (Engine_take_signal e key name), fst (reset_workflow e key event), purge_workflow key e, fst (purge_completed e)}"
  shows "\<exists>e'. recover_from_wal sha (restarted e1 t) t = Inr (e', length rs, card (dom (contexts e)))
    \<and> snd (Engine_take_signal e' k nm) = snd (Engine_take_signal e k nm)
    \<and> Engine_is_step_completed e' k step = Engine_is_step_completed e k step
    \<and> Engine_get_step_result e' k step = Engine_get_step_result e k step
    \<and> get_status e' k = get_status e k"
proof -
  have "en_wal e1 = en_wal e" using assms(5) unlogged_calls_wal by auto
  then have same: "restarted e1 t = restarted e t" by (simp add: restarted_def)
  have e: "in_step limit rs e" unfolding assms(2,3) by (rule run_in_step [OF assms(1)])
  obtain e' where e': "recover_from_wal sha (restarted e t) t = Inr (e', length rs, card (dom (contexts e)))"
    "engine_ok e'" "prog e' = prog e"
    using recovery_of_step [OF e assms(4)] .
  have ok: "engine_ok e" using e by (simp add: in_step_def)
  show ?thesis unfolding same using prog_reads [OF ok e'(2,3)] prog_take_signal [OF ok e'(2,3)] e'(1) by blast
qed

definition signal_engine :: engine where
  "signal_engine = signal_workflow sample_engine 7 3 [9] sample_clock"

lemma signal_run_facts:
  "run_ok (\<lambda>_. []) (\<lambda>_ _ _. 0) (sample_run @ [(sample_clock, OpSignal 7 3 [9])]) sample_start"
  "signal_engine = fold (engine_step (\<lambda>_. []) (\<lambda>_ _ _. 0)) (sample_run @ [(sample_clock, OpSignal 7 3 [9])]) sample_start"
  "sample_records (sample_run @ [(sample_clock, OpSignal 7 3 [9])]) = sample_records sample_run @ [signal_rec 7 3 [9]]"
  "snd (Engine_take_signal signal_engine 7 3) = Some [9]"
proof -
  have run: "wc_status sample_context = Running" "signal_buffer sample_context = SlotVec_with_capacity 16"
    by (simp_all add: sample_context_def Context_complete_step_def started_context_def WorkflowContext_new_def)
  show "run_ok (\<lambda>_. []) (\<lambda>_ _ _. 0) (sample_run @ [(sample_clock, OpSignal 7 3 [9])]) sample_start"
    "signal_engine = fold (engine_step (\<lambda>_. []) (\<lambda>_ _ _. 0)) (sample_run @ [(sample_clock, OpSignal 7 3 [9])]) sample_start"
    "sample_records (sample_run @ [(sample_clock, OpSignal 7 3 [9])]) = sample_records sample_run @ [signal_rec 7 3 [9]]"
    using sample_run_facts(3) sample_contexts(2) run(1)
    by (simp_all add: signal_engine_def sample_run_facts(1) [symmetric] run_records_def run_ok_def along_append all_along_append)
  have "engine_ok signal_engine" "contexts signal_engine 7 = Some (Context_signal sample_context 3 [9])"
    using signal_workflow_contexts [OF sample_contexts(1), of 7 3 "[9]" sample_clock] sample_contexts(2) run(1)
    by (simp_all add: signal_engine_def changes_ctx_def)
  moreover have "snd (SlotVec_pop_front (SlotVec_push (SlotVec_with_capacity 16) 3 [9 :: u8]) 3) = Some [9]" by code_simp
  ultimately show "snd (Engine_take_signal signal_engine 7 3) = Some [9]"
    by (simp add: Engine_take_signal_def with_ctx_mut_spec Context_take_signal_def Context_signal_def run(2) case_prod_beta)
qed

theorem unlogged_calls_undone_by_recovery_witness:
  "snd (Engine_take_signal signal_engine 7 3) = Some [9]
   \<and> (\<exists>e'. recover_from_wal (\<lambda>_. []) (restarted (fst (Engine_take_signal signal_engine 7 3)) sample_clock) sample_clock
         = Inr (e', 3, card (dom (contexts signal_engine)))
       \<and> snd (Engine_take_signal e' 7 3) = Some [9])"
proof -
  have n: "length (sample_records (sample_run @ [(sample_clock, OpSignal 7 3 [9])])) = 3"
    by (simp add: signal_run_facts(3) sample_run_facts(2))
  have segs: "length (wal_segments 1000 (sample_records (sample_run @ [(sample_clock, OpSignal 7 3 [9])]))) \<le> 4"
    unfolding signal_run_facts(3) sample_run_facts(2) wal_segments_def by (simp add: add_to_segments_def Let_def)
  show ?thesis
    using unlogged_calls_undone_by_recovery [OF signal_run_facts(1,2) refl segs insertI1, of 7 3 sample_clock 7 3]
    unfolding n signal_run_facts(4) by blast
qed

text \<open>
  A signal to a closed workflow is refused but logged: the live engine leaves the buffer
  alone, and the recovered one has the signal in it.
\<close>

theorem refused_signal_recovered:
  assumes "run_ok sha scale ops (WorkflowEngine_with_wal None [] limit t0)"
    and "e = fold (engine_step sha scale) ops (WorkflowEngine_with_wal None [] limit t0)"
    and "rs = run_records sha scale ops (WorkflowEngine_with_wal None [] limit t0)"
    and "contexts e key = Some c" and "wc_status c \<noteq> Running" and "length payload + 8 < 2 ^ 32"
    and "e1 = signal_workflow e key name payload t"
    and "length (wal_segments limit (rs @ [WalRecord_new WalSignalReceived key (to_le_bytes name @ payload)])) \<le> 4"
  shows "contexts e1 key = Some c
    \<and> (\<exists>e'. recover_from_wal sha (restarted e1 t) t = Inr (e', Suc (length rs), card (dom (contexts e)))
          \<and> map_option signal_buffer (contexts e' key) = Some (SlotVec_push (signal_buffer c) name payload))"
proof -
  let ?r = "WalRecord_new WalSignalReceived key (to_le_bytes name @ payload)"
  have e: "in_step limit rs e" unfolding assms(2,3) by (rule run_in_step [OF assms(1)])
  then have ok: "engine_ok e" by (simp add: in_step_def)
  have log: "logged limit 3 (rs @ [?r]) e1"
    using e logged_signal unfolding assms(7) in_step_def by blast
  have abs: "abs_record ?r (prog e) = (prog e)(key \<mapsto> signal_progress name payload (progress_of c))"
    by (simp add: abs_record_def WalRecord_new_def prog_def assms(4))
  obtain e' where e': "recover_from_wal sha (restarted e1 t) t = Inr (e', Suc (length rs), card (dom (contexts e')))"
    "engine_ok e'" "prog e' = (prog e)(key \<mapsto> signal_progress name payload (progress_of c))"
    by (rule recovery_follows_log [OF e log assms(8), where sha = sha and t = t])
      (use abs assms(6) in \<open>simp_all add: WalRecord_new_def encodable_def\<close>)
  have "dom (prog e') = dom (prog e)" using e'(3) assms(4) by (auto simp: prog_def)
  then have n: "card (dom (contexts e')) = card (dom (contexts e))" by (simp add: dom_prog)
  have "contexts e1 key = Some c"
    using signal_workflow_contexts [OF ok, of key name payload t] assms(4,5) by (simp add: changes_ctx_def assms(7))
  moreover have "map_option signal_buffer (contexts e' key) = Some (SlotVec_push (signal_buffer c) name payload)"
    by (simp add: reads_of_contexts(2) [OF e'(2)] e'(3) signal_progress_def progress_of_def)
  ultimately show ?thesis using e'(1) unfolding n by blast
qed

theorem refused_signal_recovered_witness:
  "\<exists>e'. recover_from_wal (\<lambda>_. [])
       (restarted (signal_workflow closed_engine 7 3 [9] sample_clock) sample_clock) sample_clock
     = Inr (e', 4, card (dom (contexts closed_engine)))
   \<and> map_option signal_buffer (contexts e' 7)
     = Some (SlotVec_push (signal_buffer (Context_complete sample_context None (mono sample_clock))) 3 [9])"
proof -
  have c: "contexts closed_engine 7 = Some (Context_complete sample_context None (mono sample_clock))" by (simp add: closed_run_facts(4))
  have segs: "length (wal_segments 1000 (sample_records closed_run @
      [WalRecord_new WalSignalReceived 7 (to_le_bytes (3 :: u64) @ [9])])) \<le> 4"
    by (rule closed_segments)
  have n: "Suc (length (sample_records closed_run)) = 4" by (simp add: closed_run_facts(3) sample_run_facts(2))
  show ?thesis
    using refused_signal_recovered [OF closed_run_facts(1,2) refl c _ _ refl segs, of sample_clock]
    unfolding n by (simp add: Context_complete_def)
qed


end
