(* ===== verification/Engine_Lifecycle.thy ===== *)
theory Engine_Lifecycle
  imports Engine_Runs
begin

text \<open>
  Properties of the engine over its whole life: what a power failure can take from the log under
  each durability setting, that a worker which serves the task queue drives a workflow through
  its steps, that the engine never retries a failed activity, and that a cron fire replaces a run
  that is still in progress.
\<close>

section \<open>What is not yet on disk\<close>

















section \<open>Invariants of every context in the pool\<close>

text \<open>
  A property of every context the pool holds, whether or not its key can still be found; the
  indices stay in range, so a key that is found leads to one of them.
\<close>

definition pool_all :: "('c \<Rightarrow> bool) \<Rightarrow> 'c ctx_pool \<Rightarrow> bool" where
  "pool_all P p \<longleftrightarrow> length (cp_key_index p) = WORKFLOW_POOL_CAPACITY \<and> length (cp_contexts p) = WORKFLOW_POOL_CAPACITY
     \<and> length (cp_slots p) = WORKFLOW_POOL_CAPACITY
     \<and> (\<forall>i \<in> set (cp_free_list p). unat i < WORKFLOW_POOL_CAPACITY)
     \<and> (\<forall>i \<in> set (cp_key_index p). i = KEY_SLOT_EMPTY \<or> unat i < WORKFLOW_POOL_CAPACITY)
     \<and> (\<forall>c. Some c \<in> set (cp_contexts p) \<longrightarrow> P c)"

lemma pool_all_find:
  assumes "pool_all P p" and "find_key_slot p key = Some i"
  shows "i < length (cp_contexts p)" and "cp_contexts p ! i = Some c \<Longrightarrow> P c"
proof -
  have "cp_key_index p ! bucket key \<in> set (cp_key_index p)"
    using assms(1) bucket_less [of key] by (simp add: pool_all_def)
  then have "cp_key_index p ! bucket key = KEY_SLOT_EMPTY \<or> unat (cp_key_index p ! bucket key) < WORKFLOW_POOL_CAPACITY"
    using assms(1) by (simp add: pool_all_def)
  moreover have "position Q (cp_slots p) = Some i \<Longrightarrow> i < length (cp_slots p)" for Q
    using position_SomeD by blast
  ultimately show i: "i < length (cp_contexts p)"
    using assms by (auto simp: find_key_slot_def find_key_slot_linear_def pool_all_def Let_def split: if_splits)
  show "cp_contexts p ! i = Some c \<Longrightarrow> P c" using i assms(1) by (metis nth_mem pool_all_def)
qed

lemma pool_all_new: "pool_all P WorkflowContextPool_new"
proof -
  have "unat (word_of_nat i :: u16) < WORKFLOW_POOL_CAPACITY" if "i < WORKFLOW_POOL_CAPACITY" for i
    using that by (simp add: WORKFLOW_POOL_CAPACITY_def unsigned_of_nat take_bit_nat_eq_self)
  then show ?thesis by (auto simp: pool_all_def WorkflowContextPool_new_def)
qed

lemma pool_all_update: "pool_all P p \<Longrightarrow> P c \<Longrightarrow> pool_all P (p\<lparr>cp_contexts := (cp_contexts p)[i := Some c]\<rparr>)"
  by (auto simp: pool_all_def dest!: set_update_subset_insert [THEN subsetD])

lemma pool_all_insert:
  assumes "pool_all P p" and "P c"
  shows "pool_all P (fst (WorkflowContextPool_insert p key c))"
proof (cases "find_key_slot p key = None \<and> cp_free_list p \<noteq> []")
  case True
  then have "last (cp_free_list p) \<in> set (cp_free_list p)" by simp
  then have "unat (last (cp_free_list p)) < WORKFLOW_POOL_CAPACITY" using assms(1) by (simp add: pool_all_def)
  then show ?thesis
    using True assms
    by (auto simp: WorkflowContextPool_insert_def occupy_slot_def pool_all_def Let_def
        dest!: set_update_subset_insert [THEN subsetD] in_set_butlastD)
next
  case False
  then show ?thesis using assms pool_all_update by (auto simp: WorkflowContextPool_insert_def split: option.split)
qed

lemma pool_all_insert_if_absent:
  assumes "pool_all P p" and "P c"
  shows "pool_all P (fst (insert_if_absent p key c))"
  using assms pool_all_insert [OF assms, of key]
  by (auto simp: insert_if_absent_def WorkflowContextPool_insert_def split: option.splits if_splits)

lemma pool_all_remove:
  assumes "pool_all P p"
  shows "pool_all P (fst (WorkflowContextPool_remove p key))"
proof (cases "find_key_slot p key")
  case None
  then show ?thesis using assms by (simp add: WorkflowContextPool_remove_def)
next
  case (Some i)
  have "i < WORKFLOW_POOL_CAPACITY" using pool_all_find(1) [OF assms Some] assms by (simp add: pool_all_def)
  then have "unat (word_of_nat i :: u16) < WORKFLOW_POOL_CAPACITY"
    by (simp add: WORKFLOW_POOL_CAPACITY_def unsigned_of_nat take_bit_nat_eq_self)
  then show ?thesis
    using assms Some
    by (auto simp: WorkflowContextPool_remove_def pool_all_def dest!: set_update_subset_insert [THEN subsetD])
qed

lemma pool_all_with_mut:
  assumes "pool_all P p" and "\<And>c. P c \<Longrightarrow> P (fst (f c))"
  shows "pool_all P (fst (WorkflowContextPool_with_mut p key none f))"
  using assms pool_all_find [OF assms(1)]
  by (auto simp: WorkflowContextPool_with_mut_def pool_all_update split: option.split)

abbreviation all_contexts :: "(workflow_context \<Rightarrow> bool) \<Rightarrow> engine \<Rightarrow> bool" where
  "all_contexts P e \<equiv> pool_all P (en_workflows e)"

lemma all_contexts_with_ctx_mut:
  "all_contexts P e \<Longrightarrow> (\<And>c. P c \<Longrightarrow> P (fst (f c))) \<Longrightarrow> all_contexts P (fst (with_ctx_mut e key none f))"
  by (simp add: with_ctx_mut_def case_prod_beta pool_all_with_mut)

lemma all_contexts_fold:
  assumes "\<And>x e. all_contexts P e \<Longrightarrow> all_contexts P (f x e)"
  shows "all_contexts P e \<Longrightarrow> all_contexts P (fold f xs e)"
  by (induction xs arbitrary: e) (simp_all add: assms)

section \<open>Retries\<close>

text \<open>No activity of the context has a retry policy.\<close>

definition no_policy :: "workflow_context \<Rightarrow> bool" where
  "no_policy c \<longleftrightarrow> slot_map_wf (wc_activity_timeouts c)
     \<and> (\<forall>k tm. SlotMap_get (wc_activity_timeouts c) k = Some tm \<longrightarrow> at_retry_policy tm = None)"

lemma no_policy_cong: "wc_activity_timeouts c' = wc_activity_timeouts c \<Longrightarrow> no_policy c' \<longleftrightarrow> no_policy c"
  by (simp add: no_policy_def)

lemma no_policy_started: "no_policy (started_context sha wid rid tid ns tq steps input t)"
  by (simp add: no_policy_def started_context_def WorkflowContext_new_def SlotMap_get_map_of)

lemma no_policy_recovered: "no_policy ((WorkflowContext_new sha wid rid tid tq steps now)\<lparr>wc_namespace_id := ns\<rparr>)"
  by (simp add: no_policy_def WorkflowContext_new_def SlotMap_get_map_of)

lemma no_policy_schedule:
  "no_policy c \<Longrightarrow> at_retry_policy tm = None \<Longrightarrow> no_policy (fst (schedule_in_context step args tm c))"
  by (auto simp: no_policy_def schedule_in_context_def Let_def sm.wf_put sm.lookup_put split: if_splits)

lemma no_policy_next_attempt: "no_policy c \<Longrightarrow> next_attempt scale step c = (c, None)"
  by (auto simp: no_policy_def next_attempt_def split: option.split)

lemma with_ctx_mut_id:
  assumes "all_contexts P e" and "\<And>c. P c \<Longrightarrow> f c = (c, none)"
  shows "with_ctx_mut e key none f = (e, none)"
proof -
  have "WorkflowContextPool_with_mut (en_workflows e) key none f = (en_workflows e, none)"
    using pool_all_find [OF assms(1)] assms(2)
    by (auto simp: WorkflowContextPool_with_mut_def list_update_same_conv split: option.split)
  then show ?thesis by (simp add: with_ctx_mut_def)
qed

lemma fail_activity_without_policy:
  "all_contexts no_policy e \<Longrightarrow> fail_activity_with_retry scale e key step t = (e, False)"
  by (simp add: fail_activity_with_retry_def with_ctx_mut_id [where P = no_policy] no_policy_next_attempt)

lemma all_no_policy_update:
  "all_contexts no_policy e \<Longrightarrow> (\<And>c. wc_activity_timeouts (fst (f c)) = wc_activity_timeouts c)
     \<Longrightarrow> all_contexts no_policy (fst (with_ctx_mut e key none f))"
  using all_contexts_with_ctx_mut [of no_policy e f key none] no_policy_cong by metis

lemma timeouts_frame [simp]:
  "wc_activity_timeouts (Context_complete_step sha c s r) = wc_activity_timeouts c"
  "wc_activity_timeouts (Context_signal c name payload) = wc_activity_timeouts c"
  "wc_activity_timeouts (Context_update c name payload) = wc_activity_timeouts c"
  "wc_activity_timeouts (fst (Context_take_update c name)) = wc_activity_timeouts c"
  "wc_activity_timeouts (fst (Context_take_signal c name)) = wc_activity_timeouts c"
  "wc_activity_timeouts (Context_complete c res now) = wc_activity_timeouts c"
  "wc_activity_timeouts (Context_fail c now) = wc_activity_timeouts c"
  "wc_activity_timeouts (Context_cancel c now) = wc_activity_timeouts c"
  "wc_activity_timeouts (Context_terminate c now) = wc_activity_timeouts c"
  by (simp_all add: Context_complete_step_def Context_signal_def Context_update_def Context_take_update_def Context_take_signal_def
      Context_complete_def Context_fail_def Context_cancel_def Context_terminate_def case_prod_beta)

lemma no_policy_complete_in_context:
  "all_contexts no_policy e \<Longrightarrow> all_contexts no_policy (fst (complete_in_context sha e key step result))"
  by (simp add: complete_in_context_def all_no_policy_update Let_def)

lemma no_policy_steps:
  assumes "all_contexts no_policy e"
  shows "all_contexts no_policy (Engine_complete_step sha e key step result t)"
    and "all_contexts no_policy (complete_step_sync sha e key step result t)"
    and "all_contexts no_policy (complete_step_durable sha e key step result t)"
  using no_policy_complete_in_context [of "log_event WalStepCompleted key (step_record step result) e" sha key step result]
    no_policy_complete_in_context [of "sync_wal (log_event WalStepCompleted key (step_record step result) e)" sha key step result]
    assms
  by (auto simp: Engine_complete_step_def complete_step_sync_def complete_step_durable_def Let_def complete_in_context_cases
      split: option.split)

lemma no_policy_closing:
  assumes "all_contexts no_policy e"
  shows "all_contexts no_policy (complete_workflow e key result t)" and "all_contexts no_policy (fail_workflow e key t)"
    and "all_contexts no_policy (cancel_workflow e key t)" and "all_contexts no_policy (terminate_workflow e key t)"
  by (simp_all add: complete_workflow_def fail_workflow_def cancel_workflow_def terminate_workflow_def Let_def
      all_no_policy_update [OF assms])

lemma no_policy_start:
  "all_contexts no_policy e \<Longrightarrow> all_contexts no_policy (fst (start_workflow_with_attrs sha e wid tid ns tq steps input attrs t))"
  by (simp add: start_workflow_pool pool_all_insert no_policy_started)

lemma no_policy_schedule_activity:
  assumes "all_contexts no_policy e"
  shows "all_contexts no_policy (schedule_activity_with_timeouts e key step name args sts stc sc hb t)"
proof -
  have "all_contexts no_policy (fst (with_ctx_mut e key None (schedule_in_context step args tm)))"
    if "at_retry_policy tm = None" for tm
    by (rule all_contexts_with_ctx_mut [OF assms]) (rule no_policy_schedule [OF _ that])
  then show ?thesis
    by (simp add: schedule_activity_with_timeouts_def Let_def ActivityTimeouts_new_def case_prod_beta split: option.split)
qed

lemma no_policy_messages:
  assumes "all_contexts no_policy e"
  shows "all_contexts no_policy (signal_workflow e key name payload t)"
    and "all_contexts no_policy (update_workflow e key name payload t)"
    and "all_contexts no_policy (fst (Engine_take_update e key name))"
    and "all_contexts no_policy (fst (Engine_take_signal e key name))"
    and "all_contexts no_policy (set_workflow_execution_timeout e key ms)"
  using assms
  by (simp_all add: signal_workflow_def update_workflow_def Engine_take_update_def Engine_take_signal_def set_workflow_execution_timeout_def
      Let_def case_prod_beta all_no_policy_update)

lemma no_policy_timers:
  "en_workflows (process_fired_timer e key t) = en_workflows e"
  "en_workflows (timer_pass e t) = en_workflows e"
  "en_workflows (fst (schedule_timer e key ms t)) = en_workflows e"
  by (simp_all add: process_fired_timer_def timer_pass_def schedule_timer_def Let_def case_prod_unfold fold_keeps_workflows)

lemma no_policy_composed_starts:
  assumes "all_contexts no_policy e"
  shows "all_contexts no_policy (fst (try_start_workflow sha e wid tid ns tq steps input t))"
    and "all_contexts no_policy (fst (start_child_workflow sha e parent wid tid tq steps input t))"
    and "all_contexts no_policy (fst (signal_with_start sha e wid tid ns tq steps name payload t))"
    and "all_contexts no_policy (fst (process_cron_fires sha e now t))"
proof -
  show "all_contexts no_policy (fst (try_start_workflow sha e wid tid ns tq steps input t))"
    using assms by (simp add: try_start_workflow_def start_workflow_def no_policy_start case_prod_beta)
  show "all_contexts no_policy (fst (start_child_workflow sha e parent wid tid tq steps input t))"
    using assms by (simp add: start_child_workflow_def start_workflow_def no_policy_start all_no_policy_update Let_def case_prod_beta)
  show "all_contexts no_policy (fst (signal_with_start sha e wid tid ns tq steps name payload t))"
    using assms by (simp add: signal_with_start_def start_workflow_def no_policy_start no_policy_messages Let_def case_prod_beta)
  show "all_contexts no_policy (fst (process_cron_fires sha e now t))"
    unfolding cron_fires_fold by (rule all_contexts_fold) (use assms in \<open>simp_all add: start_fire_def no_policy_start\<close>)
qed

lemma no_policy_composed_closings:
  assumes "all_contexts no_policy e"
  shows "all_contexts no_policy (apply_parent_close_policy e parent policy t)"
    and "all_contexts no_policy (fst (check_workflow_timeouts e t))"
    and "all_contexts no_policy (fst (execute_items operation name payload t keys e))"
proof -
  show "all_contexts no_policy (apply_parent_close_policy e parent policy t)"
  proof -
    have "all_contexts no_policy (case policy of PTerminate \<Rightarrow> terminate_workflow e child t
        | PCancel \<Rightarrow> cancel_workflow e child t | PAbandon \<Rightarrow> e)" if "all_contexts no_policy e" for child e
      using that by (cases policy) (simp_all add: no_policy_closing)
    then show ?thesis unfolding apply_parent_close_policy_def Let_def by (simp add: all_contexts_fold assms)
  qed
  show "all_contexts no_policy (fst (check_workflow_timeouts e t))"
    unfolding check_workflow_timeouts_def Let_def fst_conv by (intro all_contexts_fold no_policy_closing assms)
  have "all_contexts no_policy (fst (batch_item operation name payload t key e))" if "all_contexts no_policy e" for key e
    using that
    by (auto simp: batch_item_def Let_def no_policy_closing no_policy_messages split: batch_operation_type.split option.split)
  then show "all_contexts no_policy (fst (execute_items operation name payload t keys e))"
    unfolding execute_items_fold by (intro all_contexts_fold assms)
qed

lemma no_policy_reset:
  assumes "all_contexts no_policy e"
  shows "all_contexts no_policy (fst (reset_workflow e key event))"
proof -
  let ?f = "\<lambda>c. if wc_status c \<noteq> Running \<and> wc_status c \<noteq> Failed then (c, False)
         else (c\<lparr>step_results := SlotMap_retain (step_results c) (\<lambda>step v. (v, step < event)),
                 wc_slab := clear_steps_from event (wc_slab c), wc_status := Running, close_time := None\<rparr>, True)"
  have "all_contexts no_policy (fst (with_ctx_mut e key False ?f))" by (rule all_no_policy_update [OF assms]) simp
  then show ?thesis by (simp add: reset_workflow_def case_prod_beta split: bool.split)
qed

lemma no_policy_purge:
  assumes "all_contexts no_policy e"
  shows "all_contexts no_policy (purge_workflow key e)" and "all_contexts no_policy (fst (purge_completed e))"
proof -
  have one: "all_contexts no_policy (purge_workflow k e)" if "all_contexts no_policy e" for k e
    using that by (simp add: purge_workflow_def pool_all_remove)
  show "all_contexts no_policy (purge_workflow key e)" by (rule one [OF assms])
  show "all_contexts no_policy (fst (purge_completed e))"
    unfolding purge_completed_def Let_def fst_conv by (intro all_contexts_fold one assms)
qed

lemma no_policy_continue:
  assumes "all_contexts no_policy e"
  shows "all_contexts no_policy (fst (continue_as_new sha e key input t))"
proof -
  have u: "all_contexts no_policy (update_ctx key (\<lambda>c. c\<lparr>wc_status := WContinuedAsNew, close_time := Some (mono t)\<rparr>) e)"
    by (rule all_no_policy_update [OF assms]) simp
  obtain wid tid ns tq steps where ids: "with_ctx e key (\<lambda>c. case c of None \<Rightarrow> (0, 0, 0, 0, 0)
      | Some c \<Rightarrow> (wc_workflow_id c, wc_workflow_type_id c, wc_namespace_id c, wc_task_queue_hash c, sh_total_steps (wc_slab c)))
      = (wid, tid, ns, tq, steps)" by (rule prod_cases5)
  show ?thesis
  proof (cases "wid = 0 \<and> tid = 0 \<and> ns = 0")
    case True
    then show ?thesis using assms by (simp add: continue_as_new_def ids)
  next
    case False
    have upd: "en_workflows (x\<lparr>en_workflows := w, en_visibility := v\<rparr>) = w" "en_workflows (x\<lparr>en_next_run_id := n\<rparr>) = en_workflows x"
      for x :: engine and w v n by simp_all
    show ?thesis
      unfolding continue_as_new_def ids Let_def prod.case if_not_P [OF False] fst_conv
      by (simp only: engine_frame upd) (rule pool_all_insert [OF u no_policy_started])
  qed
qed

lemma no_policy_recover:
  assumes "all_contexts no_policy e"
  shows "all_contexts no_policy (case recover_from_wal sha e t of Inl _ \<Rightarrow> e | Inr (e', _) \<Rightarrow> e')"
proof -
  have "all_contexts no_policy (fst (apply_record sha t r (e, n)))" if "all_contexts no_policy e" for r e n
    using that
    by (cases "wr_event_type r")
      (simp_all add: apply_record_def Let_def case_prod_beta pool_all_insert_if_absent no_policy_recovered all_no_policy_update)
  then have step: "all_contexts no_policy (fst (apply_record sha t r s))" if "all_contexts no_policy (fst s)" for r s
    using that by (cases s) simp
  have "all_contexts no_policy (fst (fold (apply_record sha t) rs s))" if "all_contexts no_policy (fst s)" for rs s
    using that by (induction rs arbitrary: s) (simp_all add: step)
  from this [of "(e, 0)"] show ?thesis
    using assms
    by (simp add: recover_from_wal_def Let_def case_prod_beta funpow_keeps_workflows fold_keeps_workflows split: option.split sum.split)
qed

lemma no_policy_settings:
  "en_workflows (fst (purge_expired_workflows retention e t)) = en_workflows e"
  "en_workflows (with_durability_config e c t) = en_workflows e" "en_workflows (init_timers e) = en_workflows e"
  "en_workflows (Engine_shutdown e) = en_workflows e" "en_workflows (enable_wal e found rotated limit) = en_workflows e"
  "en_workflows (case register_cron e expression tid ns tq steps now of Some (Inr (e', _)) \<Rightarrow> e' | _ \<Rightarrow> e) = en_workflows e"
  by (auto simp: purge_expired_workflows_def with_durability_config_def init_timers_def Engine_shutdown_def enable_wal_def Let_def
      register_cron_def try_then_def split: option.split sum.split prod.split)

lemma no_policy_engine_step:
  assumes "all_contexts no_policy e"
  shows "all_contexts no_policy (engine_step sha scale op e)"
  using assms
  by (cases op; cases "snd op")
    (simp_all add: no_policy_start no_policy_composed_starts no_policy_composed_closings no_policy_reset no_policy_purge no_policy_continue no_policy_recover
      no_policy_settings no_policy_steps no_policy_closing no_policy_messages no_policy_schedule_activity
      no_policy_timers fail_activity_without_policy)

text \<open>
  C9.  A failed activity is never retried: whatever calls of \<open>engine_op\<close> an engine has served, recovery,
  resets, new runs, cron fires and batches among them, reporting a failed activity changes nothing and
  answers that it failed for good, because no call sets a retry policy.
\<close>

theorem failed_activities_never_retried:
  "fail_activity_with_retry scale (fold (engine_step sha scale) ops (WorkflowEngine_with_wal found rotated limit t0)) key step t
   = (fold (engine_step sha scale) ops (WorkflowEngine_with_wal found rotated limit t0), False)"
proof -
  have "all_contexts no_policy (fold (engine_step sha scale) ops e)" if "all_contexts no_policy e" for e
    using that by (induction ops arbitrary: e) (simp_all add: no_policy_engine_step)
  then show ?thesis
    by (simp add: fail_activity_without_policy pool_all_new WorkflowEngine_with_wal_def WorkflowEngine_new_def)
qed

section \<open>A worker at the queue\<close>













section \<open>Recurring workflows\<close>

text \<open>
  C39.  A fire of a cron schedule discards the run of the fire before it: the type id serves as
  workflow id, so the new run has the key of the old one and replaces its context, with
  whatever steps and results it had.
\<close>

theorem cron_fire_discards_running_run:
  assumes "engine_ok e" and "advance_to (en_cron e) now = (s, [f])"
    and "key = workflow_key_of (cf_namespace_id f) (cf_workflow_type_id f)" and "contexts e key \<noteq> None"
    and "process_cron_fires sha e now t = (e', keys)"
  shows "keys = [key] \<and> dom (contexts e') = dom (contexts e) \<and> get_status e' key = Running
    \<and> Engine_get_step_result e' key step = None \<and> \<not> Engine_is_step_completed e' key step"
proof -
  let ?e = "e\<lparr>en_cron := s\<rparr>"
  let ?r = "start_workflow_with_attrs sha ?e (cf_workflow_type_id f) (cf_workflow_type_id f) (cf_namespace_id f)
      (cf_task_queue_hash f) (cf_total_steps f) None [] t"
  have r: "e' = fst ?r" "keys = [snd ?r]"
    using assms(5) by (simp_all add: process_cron_fires_def assms(2) start_workflow_def case_prod_beta)
  have fits: "pool_fits (dom (contexts ?e)) key" using pool_fits_self [OF assms(1)] assms(4) by (simp add: domIff)
  have ok: "engine_ok ?e" using assms(1) by simp
  note new = start_workflow_contexts [OF ok fits [unfolded assms(3)], of sha "cf_workflow_type_id f" "cf_task_queue_hash f"
      "cf_total_steps f" None "[]" t, folded r(1) assms(3)]
  have "contexts e' key = Some (started_context sha (cf_workflow_type_id f) (en_next_run_id ?e) (cf_workflow_type_id f)
      (cf_namespace_id f) (cf_task_queue_hash f) (cf_total_steps f) None t)" "dom (contexts e') = dom (contexts e)"
    using new(2) assms(4) by auto
  moreover have "keys = [key]" unfolding r(2) by (simp add: start_workflow_pool assms(3))
  moreover have "\<not> is_step_set Bitmask256_new i" for i using steps_of_new by (simp add: steps_of_def)
  ultimately show ?thesis
    using new(1)
    by (simp add: get_status_def Engine_get_step_result_def Engine_is_step_completed_def with_ctx_eq started_context_def
        WorkflowContext_new_def Context_get_step_result_def Context_is_step_completed_def SlabHeader_new_def
        recalculate_merkle_root_def SlotMap_get_map_of)
qed

definition cron_engine :: engine where
  "cron_engine = sample_engine\<lparr>en_cron := \<lparr>cs_entries = [(1, \<lparr>cn_schedule_id = 1, cn_cron_expr = every_minute, cn_workflow_type_id = 7,
     cn_namespace_id = 0, cn_task_queue_hash = 5, cn_total_steps = 2, cn_last_fire_time = 0, cn_next_fire_time = 40, cn_fire_count = 0,
     cn_paused = False\<rparr>)], cs_next_id = 2\<rparr>\<rparr>"

theorem cron_fire_discards_running_run_witness:
  "Engine_get_step_result (fst (process_cron_fires (\<lambda>_. []) cron_engine 100 sample_clock)) (workflow_key_of 0 7) 0 = None"
proof -
  have ok: "engine_ok cron_engine" using sample_contexts(1) by (simp add: cron_engine_def)
  have key: "workflow_key_of 0 7 = 7" by (simp add: workflow_key_of_def)
  let ?f = "\<lparr>cf_schedule_id = 1, cf_workflow_type_id = 7, cf_namespace_id = 0, cf_task_queue_hash = 5, cf_total_steps = 2, cf_fire_number = 1\<rparr>"
  have "snd (advance_to (en_cron cron_engine) 100) = [?f]"
    by (simp add: cron_engine_def advance_to_def is_due_def fire_event_def)
  then have adv: "advance_to (en_cron cron_engine) 100 = (fst (advance_to (en_cron cron_engine) 100), [?f])" by (metis prod.collapse)
  have live: "contexts cron_engine (workflow_key_of (cf_namespace_id ?f) (cf_workflow_type_id ?f)) \<noteq> None"
    using sample_contexts(2) by (simp add: cron_engine_def key)
  show ?thesis
    using cron_fire_discards_running_run [OF ok adv refl live prod.collapse [symmetric], of "\<lambda>_. []" sample_clock 0] by simp
qed

end
