(* ===== verification/Spec2Isabelle.thy ===== *)
theory Spec2Isabelle
  imports Core_Ffi Vctp_Cipher Vctp_Replay Slab_Pool Zero_Alloc Circuit_Breaker Graph_Traversal
    Graph_Order Raft Task_Queue Timer_Engine Event_History Workflow_Context
    Engine_Lifecycle
begin

text \<open>
  Verification of the V.E.L.O.C.I.T.Y. workflow system.

  \<^bold>\<open>The program.\<close>  The system runs durable workflows: sequences of numbered steps whose results are
  kept, so that a workflow survives a crash and no completed step runs twice.  It has two Rust crates
  that matter for this.  The core crate (\<open>velocity-workflow-core\<close>) holds fixed-size data: the 256-bit
  step vector, the Merkle-chained slab header, a bump arena, conflict-free replicated counters and
  sets, and the VCTP datagram format with its ciphers, replay window and retransmission.  The engine
  crate (\<open>velocity-workflow-engine\<close>) holds the \<open>WorkflowEngine\<close>: a pool of workflow contexts, task
  queues that workers poll, timers, event histories, a write-ahead log, indexes for listing and
  archiving, circuit breakers, a dependency graph, cron schedules, batches and a Raft tier.  A handler
  of the engine (start, complete a step, signal, close, ...) changes the context in the pool, tells the
  indexes, the history and the queues, and, with exceptions named below, appends a record to the
  log.  After a crash
  \<open>recover_from_wal\<close> replays the log into an empty engine.

  \<^bold>\<open>Conventions.\<close>  A Rust struct is a record with a prefix on its fields, an enum a datatype, an integer
  of width w a word of w bits with the wrap-around of the release profile, a \<open>HashMap\<close> an association
  list (its order stands for the iteration order), a float its bit pattern.  An operation is one
  function from the state before to the state after and its answer; a lock held throughout makes it one
  step.  Readings of clocks are arguments.  A panic or an error is a value of a sum type; a loop
  that might not end is an option with a theorem that it is there.  Parameters stand for code outside
  the repository only: SHA-256 (assumed to return 32 bytes where that matters, and otherwise
  nothing; security statements say that a collision is exhibited), the AEAD cipher of the AES packets,
  and the multiplication of a duration by a float in the retry delay.

  \<^bold>\<open>Theories, by part of the program.\<close>

  \<^item> \<open>Prelude\<close>: bytes, words, panics, little-endian encodings, positions in lists.
    \<open>Slot_Array\<close>: lists of optional slots, and the locale \<open>kv_store\<close>, the contract of a key-value store,
    interpreted on \<open>HashMap\<close> (\<open>Hash_Map\<close>), on \<open>SlotMap\<close> (\<open>Zero_Alloc\<close>) and on the context pool (\<open>Slab_Pool\<close>).

  \<^item> Core: \<open>Bitmask\<close> (\<open>bitmask.rs\<close>; locale \<open>step_flags\<close>), \<open>Slab\<close> (\<open>slab.rs\<close>, \<open>wal.rs\<close>), \<open>Nda\<close> (\<open>nda.rs\<close>), \<open>Arena\<close>
    (\<open>arena.rs\<close>; locale \<open>payload_store\<close>), \<open>Crdt\<close> (\<open>crdt.rs\<close>; locale \<open>state_crdt\<close>), \<open>Vctp_Packet\<close>, \<open>Vctp_Cipher\<close>,
    \<open>Vctp_Replay\<close> and \<open>Vctp_Transport\<close> (\<open>vctp.rs\<close>), \<open>Core_Ffi\<close> (\<open>ffi.rs\<close>).  The lemmas show that the Merkle root
    determines the run that produced it, or SHA-256 collides; that the CRC finds every burst of up to
    four bytes beside the length field; that an encrypted packet sent and received decrypts to itself; that a replay window of up to
    64 accepts nothing twice and refuses nothing fresh; that retransmissions are bounded; that two
    add-wins sets merged either way have the same members where they have at most 256 between them, the capacity, and neither holds
    an element whose dot the other has removed; and that every header a C caller can
    reach verifies.

  \<^item> Engine, containers and queues: \<open>Zero_Alloc\<close> (\<open>zero_alloc.rs\<close>), \<open>Slab_Pool\<close> (\<open>workflow_slab_pool.rs\<close>),
    \<open>Task_Queue\<close> (\<open>task_queue.rs\<close>), \<open>Timer_Engine\<close> (\<open>timer_engine.rs\<close>), \<open>Event_History\<close> (\<open>event_history.rs\<close>),
    \<open>Circuit_Breaker\<close> (\<open>circuit_breaker.rs\<close>), \<open>Dependency_Graph\<close>, \<open>Graph_Traversal\<close> and \<open>Graph_Order\<close>
    (\<open>workflow_dependency_graph.rs\<close>), \<open>Raft\<close> (\<open>raft_consensus.rs\<close>).  Each has its invariant and its abstract
    counterpart: a map, a FIFO queue, a three-state machine, a relation.

  \<^item> Engine, storage: \<open>Wal\<close> (\<open>wal.rs\<close>) models a log file as its bytes and the length that was synced;
    replay returns what was appended up to the retained files, and damaged records are
    found.  \<open>Secondary_Index\<close> holds the lemmas that \<open>Visibility\<close> (\<open>visibility.rs\<close>) and \<open>Archival\<close> (\<open>archival.rs\<close>) share
    on an index from a value to the keys that have it.

  \<^item> Engine, lifecycle: \<open>Workflow_Context\<close> and \<open>Engine\<close> (\<open>engine.rs\<close>) define the contexts and the handlers;
    \<open>Cron\<close> (\<open>cron.rs\<close>), \<open>Replay\<close> (\<open>replay.rs\<close>) and \<open>Batch\<close> (\<open>batch.rs\<close>) the parts around them.  \<open>Engine_Facts\<close> gives,
    for each handler, its effect on the map of contexts and on the log.  \<open>Recovery\<close> defines
    \<open>recover_from_wal\<close> and the abstract meaning of a log (\<open>abs_record\<close>, on the part of a context that
    the log is to preserve), and shows that recovery computes it, or fails on a torn record.  \<open>Engine_Runs\<close> has every
    modelled call that changes an engine as a constructor of \<open>engine_op\<close>, with the records it leaves in the log.
    Each call keeps the contexts in step with the log under the condition that \<open>op_ok\<close> spells out: starts under unused
    keys with a free bucket, signals to running workflows, payloads that fit a record, and the calls that
    log nothing (\<open>take_signal\<close>, \<open>reset_workflow\<close>, \<open>continue_as_new\<close>, \<open>purge_workflow\<close>, \<open>purge_completed\<close>) only where they find
    nothing to do.  So recovery restores every workflow of such a run, and the replay engine agrees with it; and the
    same theory shows that recovery undoes a restart, a continuation as a new run and each of the calls that log
    nothing.  \<open>Engine_Lifecycle\<close> bounds what a power failure can take in each durability mode, runs a worker
    against the queue, and shows that no call of \<open>engine_op\<close> makes a failed activity be retried.

  \<^bold>\<open>Bounds and fuel.\<close>  No definition takes fuel.  The traversals, the cycle search and the log reader recurse
  with termination proofs; the loop of the topological sort and a client's loop over the pages of a query are
  partial functions and the cron step loop is \<open>while_option\<close>, and all are proved to return; the search for a fire time has the source's own bound of
  four years of minutes.  The recovery theorem needs that at most three files were rotated away, which is
  the retention count of \<open>WalManager::new\<close>, and that live keys do not share a bucket of the context pool, without
  which \<open>Slab_Pool\<close> shows that the pool loses workflows.  The agreement of replay with recovery needs at most
  100000 records, the length at which the replay engine stops reading.

  \<^bold>\<open>Not modelled.\<close>  Interleavings inside a handler: handlers are atomic steps, and two clock readings of one
  handler are equal.  I/O errors other than a short read, and the timing of the background sync thread.
  Calls of the handlers into metrics, matching, execution tracking, change versions, deployment
  statistics, resets and the hardware layer, whose answers the handlers do not use, are a list of calls in the
  state; the retention period of a namespace is an argument of the purge.  Of \<open>engine.rs\<close> the profiled
  variant of a step, the description and the backup of workflows, the PostgreSQL persistence, incoming replication
  tasks, query handlers and \<open>get_version\<close> are left out: they format state as JSON, drive a database, or
  forward to a subsystem that is not modelled.

  The rest of the repository is not modelled either.  Servers, gRPC and C front ends of the engine, database
  persistence, sockets, replication daemons and membership are I/O and marshalling around the engine.  Search
  queries, matching, worker management, versioning, namespaces, authentication and configuration are tables
  of which the modelled handlers read nothing but that retention period.  Rate limiters, sagas, caches, locks and the second retry module are utilities of
  their own, some over floating-point rates, and a second history service runs beside the engine without
  it.  Metrics, fault injection and forecasting do not change workflows.  The packaged flavours, the NMCP
  transport, the tools and the clients in other languages are separate programs.
\<close>

end
